theory Spec2Isabelle
  imports Main "HOL-Library.Extended_Nat"
begin

section \<open>Strings\<close>

text \<open>
  A JavaScript string is a sequence of UTF-16 code units.  A code unit is modelled as an
  integer, a string as a list of them.  ASCII literals of the source are written
  with \<open>js\<close>.
\<close>

type_synonym jschar = int
type_synonym jsstring = "jschar list"

definition js :: "string \<Rightarrow> jsstring" where
  "js s = map of_char s"

text \<open>The character classes of the regular expressions used by the source.\<close>

definition isSpace :: "jschar \<Rightarrow> bool" where
  \<comment> \<open>\<^verbatim>\<open>/\s/\<close>: WhiteSpace and LineTerminator of ECMAScript; also what \<^verbatim>\<open>trim()\<close> strips.\<close>
  "isSpace c \<longleftrightarrow>
     (9 \<le> c \<and> c \<le> 13) \<or> c = 32 \<or> c = 160 \<or> c = 5760 \<or> (8192 \<le> c \<and> c \<le> 8202) \<or>
     c = 8232 \<or> c = 8233 \<or> c = 8239 \<or> c = 8287 \<or> c = 12288 \<or> c = 65279"

definition isDigit :: "jschar \<Rightarrow> bool" where
  \<comment> \<open>\<^verbatim>\<open>/[0-9]/\<close>\<close>
  "isDigit c \<longleftrightarrow> 48 \<le> c \<and> c \<le> 57"

definition isAlpha :: "jschar \<Rightarrow> bool" where
  \<comment> \<open>\<^verbatim>\<open>/[a-z]/i\<close>\<close>
  "isAlpha c \<longleftrightarrow> (65 \<le> c \<and> c \<le> 90) \<or> (97 \<le> c \<and> c \<le> 122)"

definition isWordStart :: "jschar \<Rightarrow> bool" where
  \<comment> \<open>\<^verbatim>\<open>/[a-zA-Z_$]/\<close>\<close>
  "isWordStart c \<longleftrightarrow> isAlpha c \<or> c = 95 \<or> c = 36"

definition isWordChar :: "jschar \<Rightarrow> bool" where
  \<comment> \<open>\<^verbatim>\<open>/[a-zA-Z0-9_$-]/\<close>\<close>
  "isWordChar c \<longleftrightarrow> isAlpha c \<or> isDigit c \<or> c = 95 \<or> c = 36 \<or> c = 45"

definition toLowerCase :: "jsstring \<Rightarrow> jsstring" where
  \<comment> \<open>only ever applied to a run of \<^verbatim>\<open>[a-zA-Z]\<close>\<close>
  "toLowerCase s = map (\<lambda>c. if 65 \<le> c \<and> c \<le> 90 then c + 32 else c) s"

definition trim :: "jsstring \<Rightarrow> jsstring" where
  "trim s = rev (dropWhile isSpace (rev (dropWhile isSpace s)))"

section \<open>The soft tokenizer (soft-tokenizer.ts)\<close>

datatype TokType =
    FENCE_JSON | FENCE_YAML | FENCE_END | STRING | NUMBER | BOOLEAN | NULL | BARE_WORD
  | BRACE_OPEN | BRACE_CLOSE | BRACKET_OPEN | BRACKET_CLOSE | COLON | COMMA | DASH
  | WHITESPACE | NEWLINE | TEXT

record TokenCandidate =
  ttype :: TokType
  tvalue :: jsstring
  endPos :: nat
  tscore :: nat
  trepair :: "string option"

definition mkTok :: "TokType \<Rightarrow> jsstring \<Rightarrow> nat \<Rightarrow> nat \<Rightarrow> string option \<Rightarrow> TokenCandidate" where
  "mkTok t v e s r = \<lparr>ttype = t, tvalue = v, endPos = e, tscore = s, trepair = r\<rparr>"

text \<open>
  The tokenizer is the pair of the input and the cursor \<open>pos\<close>; every method takes both.
  \<open>isEOF\<close> is \<^verbatim>\<open>pos >= input.length\<close>, \<open>peekAhead\<close> is \<^verbatim>\<open>substring(pos, pos + n)\<close>.
\<close>

definition isEOF :: "jsstring \<Rightarrow> nat \<Rightarrow> bool" where
  "isEOF inp pos \<longleftrightarrow> length inp \<le> pos"

definition peekAhead :: "jsstring \<Rightarrow> nat \<Rightarrow> nat \<Rightarrow> jsstring" where
  "peekAhead inp pos n = take n (drop pos inp)"

definition tryFence :: "jsstring \<Rightarrow> nat \<Rightarrow> TokenCandidate list" where
  "tryFence inp pos =
     (if peekAhead inp pos 3 \<noteq> js ''```'' then []
      else
        (case takeWhile isAlpha (drop (pos + 3) inp) of lang \<Rightarrow>
          if toLowerCase lang = js ''json''
            then [mkTok FENCE_JSON (js ''```json'') (pos + 3 + length lang) 0 None]
          else if toLowerCase lang = js ''yaml''
            then [mkTok FENCE_YAML (js ''```yaml'') (pos + 3 + length lang) 0 None]
          else [mkTok FENCE_END (js ''```'') (pos + 3) 0 None]))"

text \<open>
  The scanning loop shared by the double-quote and the single-quote branch of
  \<open>tryString\<close>: \<open>cs\<close> is the input from \<open>pos\<close> on.  A character after a backslash is
  appended as it is.  The closing quote pushes one candidate; when the input ends first,
  nothing is pushed.
\<close>

fun scanQuoted :: "jschar \<Rightarrow> nat \<Rightarrow> jsstring \<Rightarrow> bool \<Rightarrow> jsstring \<Rightarrow> nat \<Rightarrow> TokenCandidate list" where
  "scanQuoted quote sc [] escaped val pos = []"
| "scanQuoted quote sc (c # cs) escaped val pos =
     (if escaped then scanQuoted quote sc cs False (val @ [c]) (pos + 1)
      else if c = 92 then scanQuoted quote sc cs True val (pos + 1)
      else if c = quote then [mkTok STRING val (pos + 1) sc None]
      else scanQuoted quote sc cs False (val @ [c]) (pos + 1))"

definition isUQuote :: "jschar \<Rightarrow> bool" where
  \<comment> \<open>U+201C or U+201D\<close>
  "isUQuote c \<longleftrightarrow> c = 8220 \<or> c = 8221"

definition tryString :: "jsstring \<Rightarrow> nat \<Rightarrow> TokenCandidate list" where
  "tryString inp pos =
     (case drop pos inp of
        [] \<Rightarrow> []
      | ch # rest \<Rightarrow>
         (if ch = 34 then scanQuoted ch 0 rest False [] (pos + 1) else [])
         @
         (if ch = 39 \<and> (pos = 0 \<or> inp ! (pos - 1) \<in> {58, 44, 91, 123})
          then scanQuoted ch 1 rest False [] (pos + 1) else [])
         @
         (if isUQuote ch then
            (case takeWhile (\<lambda>c. \<not> isUQuote c) rest of v \<Rightarrow>
               if pos + 1 + length v < length inp
               then [mkTok STRING v (pos + 1 + length v + 1) 2 (Some ''normalized unicode quotes'')]
               else [])
          else []))"

definition tryNumber :: "jsstring \<Rightarrow> nat \<Rightarrow> TokenCandidate list" where
  "tryNumber inp pos =
     (case drop pos inp of
        [] \<Rightarrow> []
      | ch # rest \<Rightarrow>
         if \<not> (ch = 45 \<or> isDigit ch) then []
         else
           (case (if ch = 45 then ([ch], rest) else ([], ch # rest)) of (sign, r1) \<Rightarrow>
             (case r1 of
                [] \<Rightarrow> []
              | d # _ \<Rightarrow>
                 if \<not> isDigit d then []
                 else
                   (case takeWhile isDigit r1 of ds \<Rightarrow>
                     (case drop (length ds) r1 of
                        [] \<Rightarrow> [mkTok NUMBER (sign @ ds) (pos + length sign + length ds) 0 None]
                      | e # r2 \<Rightarrow>
                         if e = 46 then
                           (case takeWhile isDigit r2 of fs \<Rightarrow>
                             [mkTok NUMBER (sign @ ds @ [e] @ fs)
                                (pos + length sign + length ds + 1 + length fs) 0 None])
                         else [mkTok NUMBER (sign @ ds) (pos + length sign + length ds) 0 None])))))"

definition tryKeyword :: "jsstring \<Rightarrow> nat \<Rightarrow> TokenCandidate list" where
  "tryKeyword inp pos =
     (if peekAhead inp pos 4 = js ''true'' then [mkTok BOOLEAN (js ''true'') (pos + 4) 0 None] else [])
     @ (if peekAhead inp pos 5 = js ''false'' then [mkTok BOOLEAN (js ''false'') (pos + 5) 0 None] else [])
     @ (if peekAhead inp pos 4 = js ''null'' then [mkTok NULL (js ''null'') (pos + 4) 0 None] else [])"

definition tryBareWord :: "jsstring \<Rightarrow> nat \<Rightarrow> TokenCandidate list" where
  "tryBareWord inp pos =
     (case drop pos inp of
        [] \<Rightarrow> []
      | ch # rest \<Rightarrow>
         if \<not> isWordStart ch then []
         else
           (case takeWhile isWordChar (ch # rest) of v \<Rightarrow>
             if v = js ''true'' \<or> v = js ''false'' \<or> v = js ''null'' then []
             else [mkTok BARE_WORD v (pos + length v) 2 (Some ''bare word (should be quoted)'')]))"

definition punctMap :: "jschar \<Rightarrow> TokType option" where
  "punctMap ch =
     (if ch = 123 then Some BRACE_OPEN
      else if ch = 125 then Some BRACE_CLOSE
      else if ch = 91 then Some BRACKET_OPEN
      else if ch = 93 then Some BRACKET_CLOSE
      else if ch = 58 then Some COLON
      else if ch = 44 then Some COMMA
      else if ch = 45 then Some DASH
      else None)"

definition tryPunctuation :: "jsstring \<Rightarrow> nat \<Rightarrow> TokenCandidate list" where
  "tryPunctuation inp pos =
     (case drop pos inp of
        [] \<Rightarrow> []
      | ch # _ \<Rightarrow>
         (case punctMap ch of
            None \<Rightarrow> []
          | Some t \<Rightarrow> [mkTok t [ch] (pos + 1) 0 None]))"

definition tryWhitespace :: "jsstring \<Rightarrow> nat \<Rightarrow> TokenCandidate list" where
  "tryWhitespace inp pos =
     (case drop pos inp of
        [] \<Rightarrow> []
      | ch # rest \<Rightarrow>
         if \<not> isSpace ch then []
         else
           (case takeWhile isSpace (ch # rest) of v \<Rightarrow>
             [mkTok (if 10 \<in> set v then NEWLINE else WHITESPACE) v (pos + length v) 0 None]))"

definition tryTextChar :: "jsstring \<Rightarrow> nat \<Rightarrow> TokenCandidate list" where
  "tryTextChar inp pos = [mkTok TEXT (take 1 (drop pos inp)) (pos + 1) 0 None]"

text \<open>
  \<^verbatim>\<open>candidates.sort((a, b) => a.score - b.score)\<close> is a stable sort on the score;
  \<open>sort_key\<close> is insertion sort, which is stable.
\<close>

definition nextTokenCandidates :: "jsstring \<Rightarrow> nat \<Rightarrow> TokenCandidate list" where
  "nextTokenCandidates inp pos =
     (if isEOF inp pos then []
      else
        (case tryFence inp pos @ tryString inp pos @ tryNumber inp pos @ tryKeyword inp pos
              @ tryBareWord inp pos @ tryPunctuation inp pos @ tryWhitespace inp pos of
           [] \<Rightarrow> sort_key tscore (tryTextChar inp pos)
         | c # cs \<Rightarrow> sort_key tscore (c # cs)))"

text \<open>
  \<open>consumeBest\<close> returns the best candidate and moves the cursor to its \<open>endPos\<close>; the
  second component is the cursor after the call.
\<close>

definition consumeBest :: "jsstring \<Rightarrow> nat \<Rightarrow> TokenCandidate option \<times> nat" where
  "consumeBest inp pos =
     (case nextTokenCandidates inp pos of
        [] \<Rightarrow> (None, pos)
      | best # _ \<Rightarrow> (Some best, endPos best))"

subsection \<open>Every candidate ends after the cursor\<close>

lemma drop_Cons_length:
  assumes "drop pos inp = ch # rest"
  shows "length inp = Suc (pos + length rest)"
proof -
  have "length (drop pos inp) = Suc (length rest)"
    using assms by simp
  then show ?thesis by simp
qed

lemma scanQuoted_pos:
  "c \<in> set (scanQuoted q sc cs e v p) \<Longrightarrow> p < endPos c \<and> endPos c \<le> p + length cs"
proof (induction cs arbitrary: e v p)
  case Nil
  then show ?case by simp
next
  case (Cons a cs)
  show ?case
  proof (cases "e \<or> a = 92 \<or> a \<noteq> q")
    case True
    with Cons.prems obtain e' v' where "c \<in> set (scanQuoted q sc cs e' v' (p + 1))"
      by (auto split: if_split_asm)
    from Cons.IH [OF this] show ?thesis by simp
  next
    case False
    with Cons.prems show ?thesis by (simp add: mkTok_def)
  qed
qed

lemma peekAhead_full:
  assumes "peekAhead inp pos n = w" "length w = n" "0 < n"
  shows "pos + n \<le> length inp"
proof -
  from assms have "min (length inp - pos) n = n"
    by (auto simp: peekAhead_def)
  with assms(3) show ?thesis by arith
qed

lemma length_js [simp]: "length (js s) = length s"
  by (simp add: js_def)

lemma tryFence_pos:
  assumes "c \<in> set (tryFence inp pos)"
  shows "pos < endPos c \<and> endPos c \<le> length inp"
proof -
  from assms have f: "peekAhead inp pos 3 = js ''```''"
    by (auto simp: tryFence_def split: if_splits)
  then have b: "pos + 3 \<le> length inp"
    by (rule peekAhead_full) simp_all
  have "length (takeWhile isAlpha (drop (pos + 3) inp)) \<le> length inp - (pos + 3)"
    using length_takeWhile_le [of isAlpha "drop (pos + 3) inp"] by simp
  with b assms f show ?thesis
    by (auto simp: tryFence_def mkTok_def split: if_splits)
qed

lemma tryString_pos:
  assumes "c \<in> set (tryString inp pos)"
  shows "pos < endPos c \<and> endPos c \<le> length inp"
proof (cases "drop pos inp")
  case Nil
  with assms show ?thesis by (simp add: tryString_def)
next
  case (Cons ch rest)
  note len = drop_Cons_length [OF Cons]
  from assms have "c \<in> set (tryString inp pos)" .
  then consider
    (quoted) sc where "c \<in> set (scanQuoted ch sc rest False [] (pos + 1))"
    | (uquote) v where "pos + 1 + length v < length inp"
      "c = mkTok STRING v (pos + 1 + length v + 1) 2 (Some ''normalized unicode quotes'')"
    unfolding tryString_def Cons list.case
    by (auto split: if_split_asm)
  then show ?thesis
  proof cases
    case quoted
    with scanQuoted_pos [OF quoted] len show ?thesis
      by simp
  next
    case uquote
    then show ?thesis by (simp add: mkTok_def)
  qed
qed

lemma tryNumber_pos:
  assumes "c \<in> set (tryNumber inp pos)"
  shows "pos < endPos c \<and> endPos c \<le> length inp"
proof (cases "drop pos inp")
  case Nil
  with assms show ?thesis by (simp add: tryNumber_def)
next
  case (Cons ch rest)
  note len = drop_Cons_length [OF Cons]
  define sign where "sign = (if ch = 45 then [ch] else [])"
  define r1 where "r1 = (if ch = 45 then rest else ch # rest)"
  define ds where "ds = takeWhile isDigit r1"
  have l1: "length sign + length r1 = Suc (length rest)"
    by (simp add: sign_def r1_def)
  from assms Cons have nonempty: "r1 \<noteq> []" and dig: "isDigit (hd r1)"
    by (auto simp: tryNumber_def sign_def r1_def split: if_splits list.splits)
  then have ds0: "0 < length ds"
    by (cases r1) (simp_all add: ds_def)
  have dsl: "length ds \<le> length r1"
    unfolding ds_def by (rule length_takeWhile_le)
  from assms have "c \<in> set (tryNumber inp pos)" .
  then have "c = mkTok NUMBER (sign @ ds) (pos + length sign + length ds) 0 None
     \<or> (\<exists>r2. drop (length ds) r1 = 46 # r2
          \<and> c = mkTok NUMBER (sign @ ds @ [46] @ takeWhile isDigit r2)
                  (pos + length sign + length ds + 1 + length (takeWhile isDigit r2)) 0 None)"
    unfolding tryNumber_def Cons list.case
    by (auto simp: sign_def r1_def ds_def split: if_splits list.splits)
  then consider
    (int) "c = mkTok NUMBER (sign @ ds) (pos + length sign + length ds) 0 None"
    | (frac) r2 where "drop (length ds) r1 = 46 # r2"
      "c = mkTok NUMBER (sign @ ds @ [46] @ takeWhile isDigit r2)
             (pos + length sign + length ds + 1 + length (takeWhile isDigit r2)) 0 None"
    by blast
  then show ?thesis
  proof cases
    case int
    with ds0 dsl l1 len show ?thesis by (simp add: mkTok_def)
  next
    case frac
    have "length r1 = Suc (length ds + length r2)"
      by (rule drop_Cons_length [OF frac(1)])
    moreover have "length (takeWhile isDigit r2) \<le> length r2"
      by (rule length_takeWhile_le)
    ultimately show ?thesis using frac(2) l1 len by (simp add: mkTok_def)
  qed
qed

lemma tryKeyword_pos:
  assumes "c \<in> set (tryKeyword inp pos)"
  shows "pos < endPos c \<and> endPos c \<le> length inp"
proof -
  have a: "pos + 4 \<le> length inp" if "peekAhead inp pos 4 = js ''true''"
    using that by (rule peekAhead_full) simp_all
  have b: "pos + 5 \<le> length inp" if "peekAhead inp pos 5 = js ''false''"
    using that by (rule peekAhead_full) simp_all
  have d: "pos + 4 \<le> length inp" if "peekAhead inp pos 4 = js ''null''"
    using that by (rule peekAhead_full) simp_all
  from assms a b d show ?thesis
    by (auto simp: tryKeyword_def mkTok_def split: if_splits)
qed

lemma takeWhile_run_pos:
  assumes "drop pos inp = ch # rest" "P ch"
  shows "pos < pos + length (takeWhile P (ch # rest))
           \<and> pos + length (takeWhile P (ch # rest)) \<le> length inp"
proof -
  have "length (takeWhile P rest) \<le> length rest"
    by (rule length_takeWhile_le)
  with drop_Cons_length [OF assms(1)] assms(2) show ?thesis by simp
qed

lemma isWordStart_isWordChar: "isWordStart c \<Longrightarrow> isWordChar c"
  by (auto simp: isWordStart_def isWordChar_def)

lemma tryBareWord_pos:
  assumes "c \<in> set (tryBareWord inp pos)"
  shows "pos < endPos c \<and> endPos c \<le> length inp"
proof (cases "drop pos inp")
  case Nil
  with assms show ?thesis by (simp add: tryBareWord_def)
next
  case (Cons ch rest)
  with assms have w: "isWordStart ch"
    by (auto simp: tryBareWord_def split: if_splits)
  from assms Cons w have "c = mkTok BARE_WORD (takeWhile isWordChar (ch # rest))
      (pos + length (takeWhile isWordChar (ch # rest))) 2 (Some ''bare word (should be quoted)'')"
    by (simp add: tryBareWord_def split: if_splits)
  with takeWhile_run_pos [where P = isWordChar, OF Cons isWordStart_isWordChar [OF w]]
  show ?thesis
    by (simp add: mkTok_def)
qed

lemma tryWhitespace_pos:
  assumes "c \<in> set (tryWhitespace inp pos)"
  shows "pos < endPos c \<and> endPos c \<le> length inp"
proof (cases "drop pos inp")
  case Nil
  with assms show ?thesis by (simp add: tryWhitespace_def)
next
  case (Cons ch rest)
  with assms have w: "isSpace ch"
    by (auto simp: tryWhitespace_def split: if_splits)
  from assms Cons w have "endPos c = pos + length (takeWhile isSpace (ch # rest))"
    by (simp add: tryWhitespace_def mkTok_def split: if_splits)
  with takeWhile_run_pos [where P = isSpace, OF Cons w] show ?thesis
    by simp
qed

lemma tryPunctuation_pos:
  assumes "c \<in> set (tryPunctuation inp pos)"
  shows "pos < endPos c \<and> endPos c \<le> length inp"
proof (cases "drop pos inp")
  case Nil
  with assms show ?thesis by (simp add: tryPunctuation_def)
next
  case (Cons ch rest)
  with assms drop_Cons_length [OF Cons] show ?thesis
    by (auto simp: tryPunctuation_def mkTok_def split: option.splits)
qed

lemma tryTextChar_pos:
  assumes "c \<in> set (tryTextChar inp pos)" "pos < length inp"
  shows "pos < endPos c \<and> endPos c \<le> length inp"
  using assms by (auto simp: tryTextChar_def mkTok_def)

lemma nextTokenCandidates_set:
  "set (nextTokenCandidates inp pos) \<subseteq>
     set (tryFence inp pos) \<union> set (tryString inp pos) \<union> set (tryNumber inp pos)
     \<union> set (tryKeyword inp pos) \<union> set (tryBareWord inp pos) \<union> set (tryPunctuation inp pos)
     \<union> set (tryWhitespace inp pos) \<union> set (tryTextChar inp pos)"
proof -
  let ?cs = "tryFence inp pos @ tryString inp pos @ tryNumber inp pos @ tryKeyword inp pos
              @ tryBareWord inp pos @ tryPunctuation inp pos @ tryWhitespace inp pos"
  have "set (nextTokenCandidates inp pos) \<subseteq> set ?cs \<union> set (tryTextChar inp pos)"
  proof (cases ?cs)
    case Nil
    then show ?thesis
      unfolding nextTokenCandidates_def by (simp only: list.case set_sort split: if_splits) auto
  next
    case (Cons a as)
    have "set (nextTokenCandidates inp pos) \<subseteq> set (a # as)"
      unfolding nextTokenCandidates_def Cons by (simp only: list.case set_sort split: if_splits) auto
    then show ?thesis unfolding Cons by blast
  qed
  then show ?thesis by auto
qed

lemma nextTokenCandidates_EOF: "length inp \<le> pos \<Longrightarrow> nextTokenCandidates inp pos = []"
  by (simp add: nextTokenCandidates_def isEOF_def)

lemma nextTokenCandidates_pos:
  assumes "c \<in> set (nextTokenCandidates inp pos)"
  shows "pos < endPos c \<and> endPos c \<le> length inp"
proof -
  from assms have lt: "pos < length inp"
    using nextTokenCandidates_EOF [of inp pos] by (cases "pos < length inp") auto
  from assms nextTokenCandidates_set [of inp pos]
  consider "c \<in> set (tryFence inp pos)" | "c \<in> set (tryString inp pos)"
    | "c \<in> set (tryNumber inp pos)" | "c \<in> set (tryKeyword inp pos)"
    | "c \<in> set (tryBareWord inp pos)" | "c \<in> set (tryPunctuation inp pos)"
    | "c \<in> set (tryWhitespace inp pos)" | "c \<in> set (tryTextChar inp pos)"
    by blast
  then show ?thesis
    by cases (rule tryFence_pos tryString_pos tryNumber_pos tryKeyword_pos tryBareWord_pos
        tryPunctuation_pos tryWhitespace_pos tryTextChar_pos [OF _ lt], assumption)+
qed

lemma nextTokenCandidates_nonempty:
  assumes "pos < length inp"
  shows "nextTokenCandidates inp pos \<noteq> []"
proof -
  let ?cs = "tryFence inp pos @ tryString inp pos @ tryNumber inp pos @ tryKeyword inp pos
              @ tryBareWord inp pos @ tryPunctuation inp pos @ tryWhitespace inp pos"
  have "length (nextTokenCandidates inp pos) = length (if ?cs = [] then tryTextChar inp pos else ?cs)"
    using assms unfolding nextTokenCandidates_def isEOF_def
    by (cases ?cs) (simp_all only: list.case length_sort if_True if_False not_le [symmetric] list.distinct simp_thms)
  then show ?thesis
    by (auto simp: tryTextChar_def simp del: length_0_conv split: if_splits)
qed

lemma consumeBest_Some:
  assumes "consumeBest inp pos = (Some t, p)"
  shows "p = endPos t" and "pos < p" and "p \<le> length inp" and "pos < length inp"
    and "t \<in> set (nextTokenCandidates inp pos)"
proof -
  from assms have *: "t \<in> set (nextTokenCandidates inp pos)" "p = endPos t"
    by (auto simp: consumeBest_def split: list.splits)
  with nextTokenCandidates_pos [of t inp pos]
  show "p = endPos t" "pos < p" "p \<le> length inp" "pos < length inp"
    "t \<in> set (nextTokenCandidates inp pos)"
    by auto
qed

lemma consumeBest_None:
  assumes "consumeBest inp pos = (None, p)"
  shows "p = pos" and "length inp \<le> pos"
proof -
  have "p = pos \<and> length inp \<le> pos"
  proof (cases "pos < length inp")
    case True
    from nextTokenCandidates_nonempty [OF True] assms show ?thesis
      by (auto simp: consumeBest_def split: list.splits)
  next
    case False
    with assms show ?thesis
      by (auto simp: consumeBest_def split: list.splits)
  qed
  then show "p = pos" "length inp \<le> pos" by simp_all
qed

section \<open>The segmenter (soft-parser.ts, segmenter.ts)\<close>

datatype SegmentedBlock = TextBlock (blockText: jsstring) | ObjectCandidate (blockRaw: jsstring)

record ParsePath =
  blocks :: "SegmentedBlock list"
  pscore :: nat
  prepairs :: "string list"
  position :: nat

text \<open>\<^verbatim>\<open>if (token.repair) repairs.push(token.repair)\<close>\<close>

definition repairOf :: "TokenCandidate \<Rightarrow> string list" where
  "repairOf t = (case trepair t of None \<Rightarrow> [] | Some r \<Rightarrow> [r])"

text \<open>
  The backwards scan of \<open>looksLikeYAMLKey\<close>, on the reversed text before the cursor: a
  line break is reached before any character other than space and tab.
\<close>

fun atLineStart :: "jsstring \<Rightarrow> bool" where
  "atLineStart [] = True"
| "atLineStart (ch # cs) =
     (if ch = 10 \<or> ch = 13 then True
      else if ch \<noteq> 32 \<and> ch \<noteq> 9 then False
      else atLineStart cs)"

text \<open>\<^verbatim>\<open>while (token && token.type === "WHITESPACE") token = consumeBest()\<close>\<close>

function skipWhitespaceTokens :: "jsstring \<Rightarrow> TokenCandidate option \<times> nat \<Rightarrow> TokenCandidate option \<times> nat" where
  "skipWhitespaceTokens inp (token, pos) =
     (case token of
        None \<Rightarrow> (None, pos)
      | Some t \<Rightarrow>
          if ttype t = WHITESPACE then skipWhitespaceTokens inp (consumeBest inp pos)
          else (Some t, pos))"
  by pat_completeness auto
termination
proof (relation "measure (\<lambda>(inp, token, pos). 2 * (length inp - pos) + (if token = None then 0 else 1))",
    goal_cases)
  case 1
  then show ?case by simp
next
  case (2 inp token pos t)
  obtain token' p where c: "consumeBest inp pos = (token', p)"
    by (cases "consumeBest inp pos")
  show ?case
  proof (cases token')
    case None
    with c consumeBest_None [of inp pos p] 2 show ?thesis by simp
  next
    case (Some t')
    with c consumeBest_Some(2,4) [of inp pos t' p] show ?thesis by simp
  qed
qed

definition looksLikeYAMLKey :: "jsstring \<Rightarrow> nat \<Rightarrow> bool" where
  "looksLikeYAMLKey inp pos =
     (if 0 < pos \<and> \<not> atLineStart (rev (take pos inp)) then False
      else
        (case skipWhitespaceTokens inp (consumeBest inp pos) of (token, p) \<Rightarrow>
          (case token of
             None \<Rightarrow> False
           | Some t \<Rightarrow>
               (ttype t = BARE_WORD \<or> ttype t = STRING) \<and>
               (case fst (consumeBest inp p) of
                  None \<Rightarrow> False
                | Some nextToken \<Rightarrow> ttype nextToken = COLON))))"

definition looksLikeObjectStart :: "jsstring \<Rightarrow> nat \<Rightarrow> bool" where
  "looksLikeObjectStart inp pos =
     (case nextTokenCandidates inp pos of
        [] \<Rightarrow> False
      | c # cs \<Rightarrow>
          FENCE_JSON \<in> set (map ttype (c # cs)) \<or> FENCE_YAML \<in> set (map ttype (c # cs))
          \<or> BRACE_OPEN \<in> set (map ttype (c # cs)) \<or> BRACKET_OPEN \<in> set (map ttype (c # cs))
          \<or> looksLikeYAMLKey inp pos)"

text \<open>
  The capture loop of \<open>tryParseFencedJSON\<close> and \<open>tryParseFencedYAML\<close>, from the cursor
  \<open>pos\<close>; it yields \<open>raw\<close>, \<open>score\<close>, \<open>repairs\<close> and the cursor after the loop.  The
  branch where \<open>consumeBest\<close> yields no token repeats the iteration unchanged, as the
  source does.
\<close>

function captureFence :: "jsstring \<Rightarrow> nat \<Rightarrow> jsstring \<Rightarrow> nat \<Rightarrow> string list
    \<Rightarrow> jsstring \<times> nat \<times> string list \<times> nat" where
  "captureFence inp pos raw sc reps =
     (if isEOF inp pos then (raw, sc, reps, pos)
      else
        (case find (\<lambda>c. ttype c = FENCE_END) (nextTokenCandidates inp pos) of
           Some closeFence \<Rightarrow> (raw, sc, reps, endPos closeFence)
         | None \<Rightarrow>
            (case consumeBest inp pos of
               (None, p) \<Rightarrow> captureFence inp p raw sc reps
             | (Some token, p) \<Rightarrow>
                 captureFence inp p (raw @ tvalue token) (sc + tscore token) (reps @ repairOf token))))"
  by pat_completeness auto
termination
proof (relation "measure (\<lambda>(inp, pos, raw, sc, reps). length inp - pos)", goal_cases)
  case 1
  then show ?case by simp
next
  case (2 inp pos raw sc reps x p)
  then have "consumeBest inp pos = (None, p)" by simp
  from consumeBest_None [OF this] 2 show ?case by (simp add: isEOF_def)
next
  case (3 inp pos raw sc reps x p token)
  then have "consumeBest inp pos = (Some token, p)" by simp
  from consumeBest_Some(2,4) [OF this] show ?case by simp
qed

definition tryParseFencedJSON :: "jsstring \<Rightarrow> ParsePath \<Rightarrow> nat \<Rightarrow> ParsePath option \<times> nat" where
  "tryParseFencedJSON inp path pos =
     (case find (\<lambda>c. ttype c = FENCE_JSON) (nextTokenCandidates inp pos) of
        None \<Rightarrow> (None, pos)
      | Some fence \<Rightarrow>
          (case captureFence inp (endPos fence) [] (pscore path + tscore fence)
                  (prepairs path @ repairOf fence) of
             (raw, sc, reps, p) \<Rightarrow>
               (Some \<lparr>blocks = blocks path @ [ObjectCandidate (trim raw)], pscore = sc,
                       prepairs = reps, position = p\<rparr>, p)))"

definition tryParseFencedYAML :: "jsstring \<Rightarrow> ParsePath \<Rightarrow> nat \<Rightarrow> ParsePath option \<times> nat" where
  "tryParseFencedYAML inp path pos =
     (case find (\<lambda>c. ttype c = FENCE_YAML) (nextTokenCandidates inp pos) of
        None \<Rightarrow> (None, pos)
      | Some fence \<Rightarrow>
          (case captureFence inp (endPos fence) [] (pscore path + tscore fence + 5)
                  (prepairs path @ [''YAML mode''] @ repairOf fence) of
             (raw, sc, reps, p) \<Rightarrow>
               (Some \<lparr>blocks = blocks path @ [ObjectCandidate (trim raw)], pscore = sc,
                       prepairs = reps, position = p\<rparr>, p)))"

text \<open>The loop of \<open>tryParseJSONObject\<close>; \<open>depth\<close> is positive whenever it is decremented.\<close>

function captureJSONObject :: "jsstring \<Rightarrow> nat \<Rightarrow> jsstring \<Rightarrow> nat \<Rightarrow> nat \<Rightarrow> string list
    \<Rightarrow> jsstring \<times> nat \<times> nat \<times> string list \<times> nat" where
  "captureJSONObject inp pos raw depth sc reps =
     (if \<not> isEOF inp pos \<and> 0 < depth then
        (case consumeBest inp pos of
           (None, p) \<Rightarrow> (raw, depth, sc, reps, p)
         | (Some token, p) \<Rightarrow>
             captureJSONObject inp p (raw @ tvalue token)
               (if ttype token = BRACE_OPEN \<or> ttype token = BRACKET_OPEN then depth + 1
                else if ttype token = BRACE_CLOSE \<or> ttype token = BRACKET_CLOSE then depth - 1
                else depth)
               (sc + tscore token) (reps @ repairOf token))
      else (raw, depth, sc, reps, pos))"
  by pat_completeness auto
termination
proof (relation "measure (\<lambda>(inp, pos, raw, depth, sc, reps). length inp - pos)", goal_cases)
  case 1
  then show ?case by simp
next
  case (2 inp pos raw depth sc reps x p token)
  then have "consumeBest inp pos = (Some token, p)" by simp
  from consumeBest_Some(2,4) [OF this] show ?case by simp
qed

definition tryParseJSONObject :: "jsstring \<Rightarrow> ParsePath \<Rightarrow> nat \<Rightarrow> ParsePath option \<times> nat" where
  "tryParseJSONObject inp path pos =
     (case find (\<lambda>c. ttype c = BRACE_OPEN \<or> ttype c = BRACKET_OPEN) (nextTokenCandidates inp pos) of
        None \<Rightarrow> (None, pos)
      | Some opener \<Rightarrow>
          (case captureJSONObject inp (endPos opener) (tvalue opener) 1 (pscore path + tscore opener)
                  (prepairs path @ repairOf opener) of
             (raw, depth, sc, reps, p) \<Rightarrow>
               if depth \<noteq> 0 then (None, p)
               else (Some \<lparr>blocks = blocks path @ [ObjectCandidate (trim raw)], pscore = sc,
                            prepairs = reps, position = p\<rparr>, p)))"

text \<open>\<^verbatim>\<open>while (candidates.length > 0 && candidates[0].type === "WHITESPACE") consumeBest()\<close>\<close>

function skipWhitespaceRun :: "jsstring \<Rightarrow> nat \<Rightarrow> nat" where
  "skipWhitespaceRun inp pos =
     (case nextTokenCandidates inp pos of
        [] \<Rightarrow> pos
      | c # _ \<Rightarrow> if ttype c = WHITESPACE then skipWhitespaceRun inp (endPos c) else pos)"
  by pat_completeness auto
termination
proof (relation "measure (\<lambda>(inp, pos). length inp - pos)", goal_cases)
  case 1
  then show ?case by simp
next
  case (2 inp pos c cs)
  then have "c \<in> set (nextTokenCandidates inp pos)" by simp
  from nextTokenCandidates_pos [OF this] have "pos < endPos c" "endPos c \<le> length inp"
    by simp_all
  then show ?case by simp
qed

definition looksLikeYAMLContinuation :: "jsstring \<Rightarrow> nat \<Rightarrow> bool" where
  "looksLikeYAMLContinuation inp pos =
     (case nextTokenCandidates inp pos of
        [] \<Rightarrow> False
      | current # _ \<Rightarrow>
          if ttype current \<in> {DASH, BARE_WORD, STRING, NUMBER, BOOLEAN, NULL, COLON, WHITESPACE,
                                NEWLINE, BRACE_OPEN}
          then
            (if ttype current = NEWLINE then
               (case skipWhitespaceRun inp (endPos current) of p \<Rightarrow>
                 (case nextTokenCandidates inp p of
                    [] \<Rightarrow> False
                  | n # _ \<Rightarrow> ttype n = DASH \<or> looksLikeYAMLKey inp p))
             else True)
          else False)"

function captureYAMLObject :: "jsstring \<Rightarrow> nat \<Rightarrow> jsstring \<Rightarrow> nat \<Rightarrow> string list
    \<Rightarrow> jsstring \<times> nat \<times> string list \<times> nat" where
  "captureYAMLObject inp pos raw sc reps =
     (if \<not> isEOF inp pos \<and> looksLikeYAMLContinuation inp pos then
        (case consumeBest inp pos of
           (None, p) \<Rightarrow> (raw, sc, reps, p)
         | (Some token, p) \<Rightarrow>
             captureYAMLObject inp p (raw @ tvalue token) (sc + tscore token) (reps @ repairOf token))
      else (raw, sc, reps, pos))"
  by pat_completeness auto
termination
proof (relation "measure (\<lambda>(inp, pos, raw, sc, reps). length inp - pos)", goal_cases)
  case 1
  then show ?case by simp
next
  case (2 inp pos raw sc reps x p token)
  then have "consumeBest inp pos = (Some token, p)" by simp
  from consumeBest_Some(2,4) [OF this] show ?case by simp
qed

definition tryParseYAMLObject :: "jsstring \<Rightarrow> ParsePath \<Rightarrow> nat \<Rightarrow> ParsePath option \<times> nat" where
  "tryParseYAMLObject inp path pos =
     (if \<not> looksLikeYAMLKey inp pos then (None, pos)
      else
        (case captureYAMLObject inp pos [] (pscore path + 5) (prepairs path @ [''YAML mode'']) of
           (raw, sc, reps, p) \<Rightarrow>
             if trim raw = [] then (None, p)
             else (Some \<lparr>blocks = blocks path @ [ObjectCandidate (trim raw)], pscore = sc,
                          prepairs = reps, position = p\<rparr>, p)))"

text \<open>
  \<open>tryParseObjectBlock\<close> runs the four attempts, each from the checkpoint, and returns the
  result of lowest score (the sort is stable).  The cursor it leaves is the one of the last
  attempt.
\<close>

definition tryParseObjectBlock :: "jsstring \<Rightarrow> ParsePath \<Rightarrow> ParsePath option \<times> nat" where
  "tryParseObjectBlock inp path =
     (case tryParseYAMLObject inp path (position path) of (r4, p) \<Rightarrow>
       (case sort_key pscore (List.map_filter id
                [fst (tryParseFencedJSON inp path (position path)),
                 fst (tryParseFencedYAML inp path (position path)),
                 fst (tryParseJSONObject inp path (position path)),
                 r4]) of
          [] \<Rightarrow> (None, p)
        | best # _ \<Rightarrow> (Some best, p)))"

text \<open>The loop of \<open>parseTextBlock\<close>; \<open>consumeRawChar\<close> returns the character at the cursor.\<close>

function captureText :: "jsstring \<Rightarrow> nat \<Rightarrow> jsstring \<Rightarrow> jsstring \<times> nat" where
  "captureText inp pos txt =
     (if isEOF inp pos then (txt, pos)
      else if looksLikeObjectStart inp pos then (txt, pos)
      else captureText inp (pos + 1) (txt @ [inp ! pos]))"
  by pat_completeness auto
termination
  by (relation "measure (\<lambda>(inp, pos, txt). length inp - pos)") (auto simp: isEOF_def)

definition parseTextBlock :: "jsstring \<Rightarrow> ParsePath \<Rightarrow> ParsePath option \<times> nat" where
  "parseTextBlock inp path =
     (case captureText inp (position path) [] of
        (txt, p) \<Rightarrow>
          if trim txt = [] then (None, p)
          else (Some \<lparr>blocks = blocks path @ [TextBlock (trim txt)], pscore = pscore path,
                       prepairs = prepairs path, position = p\<rparr>, p))"

declare skipWhitespaceTokens.simps [simp del] captureFence.simps [simp del]
  captureJSONObject.simps [simp del] skipWhitespaceRun.simps [simp del]
  captureYAMLObject.simps [simp del] captureText.simps [simp del]

subsection \<open>The capture loops only move the cursor forward\<close>

lemma find_Some_set: "find P xs = Some x \<Longrightarrow> x \<in> set xs \<and> P x"
  by (induction xs) (auto split: if_split_asm)

lemma find_candidate_pos:
  assumes "find P (nextTokenCandidates inp pos) = Some c"
  shows "pos < endPos c" and "endPos c \<le> length inp" and "pos < length inp"
  using find_Some_set [OF assms] nextTokenCandidates_pos [of c inp pos] by auto

lemma captureFence_mono:
  "captureFence inp pos raw sc reps = (raw', sc', reps', p) \<Longrightarrow> pos \<le> p"
proof (induction inp pos raw sc reps rule: captureFence.induct)
  case (1 inp pos raw sc reps)
  note eq = captureFence.simps [of inp pos raw sc reps]
  show ?case
  proof (cases "isEOF inp pos")
    case True
    with "1.prems" eq show ?thesis by simp
  next
    case False
    show ?thesis
    proof (cases "find (\<lambda>c. ttype c = FENCE_END) (nextTokenCandidates inp pos)")
      case (Some closeFence)
      from find_candidate_pos(1) [OF Some] "1.prems" eq False Some show ?thesis by simp
    next
      case None
      obtain tok p1 where c: "consumeBest inp pos = (tok, p1)"
        by (cases "consumeBest inp pos")
      show ?thesis
      proof (cases tok)
        case N: None
        from consumeBest_None(2) [OF c [unfolded N]] False show ?thesis
          by (simp add: isEOF_def)
      next
        case (Some token)
        from consumeBest_Some(2) [OF c [unfolded Some]] have "pos < p1" .
        moreover have "p1 \<le> p"
          using "1.IH"(2) [OF False None c [symmetric, unfolded Some] refl] "1.prems" eq False None c Some
          by simp
        ultimately show ?thesis by simp
      qed
    qed
  qed
qed

lemma captureJSONObject_mono:
  "captureJSONObject inp pos raw depth sc reps = (raw', depth', sc', reps', p) \<Longrightarrow> pos \<le> p"
proof (induction inp pos raw depth sc reps rule: captureJSONObject.induct)
  case (1 inp pos raw depth sc reps)
  note eq = captureJSONObject.simps [of inp pos raw depth sc reps]
  show ?case
  proof (cases "\<not> isEOF inp pos \<and> 0 < depth")
    case False
    with "1.prems" eq show ?thesis by auto
  next
    case True
    obtain tok p1 where c: "consumeBest inp pos = (tok, p1)"
      by (cases "consumeBest inp pos")
    show ?thesis
    proof (cases tok)
      case None
      with consumeBest_None(1) [OF c [unfolded None]] "1.prems" eq True c show ?thesis
        by simp
    next
      case (Some token)
      from consumeBest_Some(2) [OF c [unfolded Some]] have "pos < p1" .
      moreover have "p1 \<le> p"
        using "1.IH" [OF True c [symmetric, unfolded Some] refl] "1.prems" eq True c Some
        by simp
      ultimately show ?thesis by simp
    qed
  qed
qed

lemma captureYAMLObject_mono:
  "captureYAMLObject inp pos raw sc reps = (raw', sc', reps', p) \<Longrightarrow>
     pos \<le> p \<and> (p = pos \<longrightarrow> raw' = raw)"
proof (induction inp pos raw sc reps rule: captureYAMLObject.induct)
  case (1 inp pos raw sc reps)
  note eq = captureYAMLObject.simps [of inp pos raw sc reps]
  show ?case
  proof (cases "\<not> isEOF inp pos \<and> looksLikeYAMLContinuation inp pos")
    case False
    with "1.prems" eq show ?thesis by auto
  next
    case True
    obtain tok p1 where c: "consumeBest inp pos = (tok, p1)"
      by (cases "consumeBest inp pos")
    show ?thesis
    proof (cases tok)
      case None
      with consumeBest_None(1) [OF c [unfolded None]] "1.prems" eq True c show ?thesis
        by simp
    next
      case (Some token)
      from consumeBest_Some(2) [OF c [unfolded Some]] have "pos < p1" .
      moreover have "p1 \<le> p"
        using "1.IH" [OF True c [symmetric, unfolded Some] refl] "1.prems" eq True c Some
        by simp
      ultimately show ?thesis by simp
    qed
  qed
qed

lemma captureText_mono:
  "captureText inp pos tx = (tx', p) \<Longrightarrow>
     pos \<le> p \<and> (p = pos \<longrightarrow> tx' = tx) \<and> (pos < p \<longrightarrow> pos < length inp)"
proof (induction inp pos tx rule: captureText.induct)
  case (1 inp pos tx)
  note eq = captureText.simps [of inp pos tx]
  show ?case
  proof (cases "isEOF inp pos \<or> looksLikeObjectStart inp pos")
    case True
    with "1.prems" eq show ?thesis by (auto split: if_split_asm)
  next
    case False
    then have "pos + 1 \<le> p"
      using "1.IH" "1.prems" eq by simp
    with False show ?thesis by (simp add: isEOF_def)
  qed
qed

subsection \<open>A structured candidate or a text block ends after its checkpoint\<close>

lemma tryParseFencedJSON_pos:
  assumes "tryParseFencedJSON inp path pos = (Some r, t)"
  shows "pos < position r" and "pos < length inp"
proof -
  from assms obtain fence where f: "find (\<lambda>c. ttype c = FENCE_JSON) (nextTokenCandidates inp pos) = Some fence"
    by (cases "find (\<lambda>c. ttype c = FENCE_JSON) (nextTokenCandidates inp pos)")
       (auto simp: tryParseFencedJSON_def)
  obtain raw sc reps p where
    c: "captureFence inp (endPos fence) [] (pscore path + tscore fence) (prepairs path @ repairOf fence)
          = (raw, sc, reps, p)"
    using prod_cases4 by blast
  from assms f c have "position r = p"
    by (auto simp: tryParseFencedJSON_def)
  with captureFence_mono [OF c] find_candidate_pos [OF f]
  show "pos < position r" "pos < length inp" by simp_all
qed

lemma tryParseFencedYAML_pos:
  assumes "tryParseFencedYAML inp path pos = (Some r, t)"
  shows "pos < position r" and "pos < length inp"
proof -
  from assms obtain fence where f: "find (\<lambda>c. ttype c = FENCE_YAML) (nextTokenCandidates inp pos) = Some fence"
    by (cases "find (\<lambda>c. ttype c = FENCE_YAML) (nextTokenCandidates inp pos)")
       (auto simp: tryParseFencedYAML_def)
  obtain raw sc reps p where
    c: "captureFence inp (endPos fence) [] (pscore path + tscore fence + 5)
          (prepairs path @ [''YAML mode''] @ repairOf fence) = (raw, sc, reps, p)"
    using prod_cases4 by blast
  from assms f c have "position r = p"
    by (auto simp: tryParseFencedYAML_def)
  with captureFence_mono [OF c] find_candidate_pos [OF f]
  show "pos < position r" "pos < length inp" by simp_all
qed

lemma tryParseJSONObject_pos:
  assumes "tryParseJSONObject inp path pos = (Some r, t)"
  shows "pos < position r" and "pos < length inp"
proof -
  from assms obtain opener where
    f: "find (\<lambda>c. ttype c = BRACE_OPEN \<or> ttype c = BRACKET_OPEN) (nextTokenCandidates inp pos) = Some opener"
    by (cases "find (\<lambda>c. ttype c = BRACE_OPEN \<or> ttype c = BRACKET_OPEN) (nextTokenCandidates inp pos)")
       (auto simp: tryParseJSONObject_def)
  obtain raw depth sc reps p where
    c: "captureJSONObject inp (endPos opener) (tvalue opener) 1 (pscore path + tscore opener)
          (prepairs path @ repairOf opener) = (raw, depth, sc, reps, p)"
    using prod_cases5 by blast
  from assms f c have "position r = p"
    by (auto simp: tryParseJSONObject_def split: if_split_asm)
  with captureJSONObject_mono [OF c] find_candidate_pos [OF f]
  show "pos < position r" "pos < length inp" by simp_all
qed

lemma trim_Nil [simp]: "trim [] = []"
  by (simp add: trim_def)

lemma tryParseYAMLObject_pos:
  assumes "tryParseYAMLObject inp path pos = (Some r, t)"
  shows "pos < position r" and "pos < length inp"
proof -
  obtain raw sc reps p where
    c: "captureYAMLObject inp pos [] (pscore path + 5) (prepairs path @ [''YAML mode''])
          = (raw, sc, reps, p)"
    using prod_cases4 by blast
  from assms c have r: "position r = p" "trim raw \<noteq> []"
    by (auto simp: tryParseYAMLObject_def split: if_split_asm)
  then have "raw \<noteq> []" by auto
  with captureYAMLObject_mono [OF c] r show "pos < position r"
    by (cases "p = pos") auto
  from c r have "\<not> isEOF inp pos"
    using captureYAMLObject.simps [of inp pos "[]" "pscore path + 5" "prepairs path @ [''YAML mode'']"]
    by (auto split: if_split_asm)
  then show "pos < length inp" by (simp add: isEOF_def)
qed

lemma map_filter_id_set: "r \<in> set (List.map_filter id xs) \<longleftrightarrow> Some r \<in> set xs"
  by (induction xs) (auto simp: List.map_filter_def)

lemma tryParseObjectBlock_pos:
  assumes "tryParseObjectBlock inp path = (Some r, t)"
  shows "position path < position r" and "position path < length inp"
proof -
  let ?rs = "[fst (tryParseFencedJSON inp path (position path)),
                 fst (tryParseFencedYAML inp path (position path)),
                 fst (tryParseJSONObject inp path (position path)),
                 fst (tryParseYAMLObject inp path (position path))]"
  obtain r4 p where y: "tryParseYAMLObject inp path (position path) = (r4, p)"
    by (cases "tryParseYAMLObject inp path (position path)")
  have "\<exists>rest. sort_key pscore (List.map_filter id ?rs) = r # rest"
  proof (cases "sort_key pscore (List.map_filter id ?rs)")
    case Nil
    with assms y show ?thesis
      unfolding tryParseObjectBlock_def by (simp del: sort_key_simps)
  next
    case (Cons best rest)
    with assms y show ?thesis
      unfolding tryParseObjectBlock_def by (simp del: sort_key_simps)
  qed
  then have "r \<in> set (sort_key pscore (List.map_filter id ?rs))"
    by (auto simp del: sort_key_simps set_sort)
  then have "Some r \<in> set ?rs"
    by (simp only: set_sort map_filter_id_set)
  then consider "fst (tryParseFencedJSON inp path (position path)) = Some r"
    | "fst (tryParseFencedYAML inp path (position path)) = Some r"
    | "fst (tryParseJSONObject inp path (position path)) = Some r"
    | "fst (tryParseYAMLObject inp path (position path)) = Some r"
    by auto
  then have "position path < position r \<and> position path < length inp"
  proof cases
    case 1
    then show ?thesis
      using tryParseFencedJSON_pos [of inp path "position path" r] by (metis prod.collapse)
  next
    case 2
    then show ?thesis
      using tryParseFencedYAML_pos [of inp path "position path" r] by (metis prod.collapse)
  next
    case 3
    then show ?thesis
      using tryParseJSONObject_pos [of inp path "position path" r] by (metis prod.collapse)
  next
    case 4
    then show ?thesis
      using tryParseYAMLObject_pos [of inp path "position path" r] by (metis prod.collapse)
  qed
  then show "position path < position r" "position path < length inp" by simp_all
qed

lemma parseTextBlock_Some:
  assumes "parseTextBlock inp path = (Some r, t)"
  shows "position path < position r" and "position path < length inp" and "t = position r"
proof -
  obtain tx p where c: "captureText inp (position path) [] = (tx, p)"
    by (cases "captureText inp (position path) []")
  from assms c have r: "position r = p" "t = p" "trim tx \<noteq> []"
    by (auto simp: parseTextBlock_def split: if_split_asm)
  then have "tx \<noteq> []" by auto
  with captureText_mono [OF c] r
  show "position path < position r" "position path < length inp" "t = position r"
    by (cases "p = position path", auto)
qed

lemma parseTextBlock_None:
  assumes "parseTextBlock inp path = (None, t)"
  shows "position path \<le> t"
proof -
  obtain tx p where c: "captureText inp (position path) [] = (tx, p)"
    by (cases "captureText inp (position path) []")
  from assms c have "t = p"
    by (auto simp: parseTextBlock_def split: if_split_asm)
  with captureText_mono [OF c] show ?thesis by simp
qed

subsection \<open>The document loop\<close>

text \<open>
  \<open>parseDocument\<close> threads the path and the cursor of the tokenizer: the loop tests the
  cursor, the attempts start from \<open>position path\<close>.
\<close>

function parseDocument :: "jsstring \<Rightarrow> ParsePath \<Rightarrow> nat \<Rightarrow> ParsePath" where
  "parseDocument inp path tpos =
     (if isEOF inp tpos then path
      else
        (case tryParseObjectBlock inp path of
           (Some objectResult, t) \<Rightarrow> parseDocument inp objectResult t
         | (None, _) \<Rightarrow>
            (case parseTextBlock inp path of
               (Some textResult, t) \<Rightarrow> parseDocument inp textResult t
             | (None, t) \<Rightarrow> parseDocument inp (path\<lparr>position := t + 1\<rparr>) (t + 1))))"
  by pat_completeness auto
termination
proof (relation "measure (\<lambda>(inp, path, tpos).
          if isEOF inp tpos then 0 else 1 + (length inp - position path))", goal_cases)
  case 1
  then show ?case by simp
next
  case (2 inp path tpos x y xa ya)
  then have "parseTextBlock inp path = (None, ya)" by simp
  from parseTextBlock_None [OF this] 2(1) show ?case by (auto simp add: isEOF_def)
next
  case (3 inp path tpos x y xa ya x2)
  then have "parseTextBlock inp path = (Some x2, ya)" by simp
  from parseTextBlock_Some(1,2) [OF this] 3(1) show ?case by (simp add: diff_less_mono2)
next
  case (4 inp path tpos x y x2)
  then have "tryParseObjectBlock inp path = (Some x2, y)" by simp
  from tryParseObjectBlock_pos [OF this] 4(1) show ?case by (simp add: diff_less_mono2)
qed

declare parseDocument.simps [simp del]

definition parse :: "jsstring \<Rightarrow> SegmentedBlock list" where
  "parse inp = blocks (parseDocument inp \<lparr>blocks = [], pscore = 0, prepairs = [], position = 0\<rparr> 0)"

definition segment :: "jsstring \<Rightarrow> SegmentedBlock list" where
  "segment inp = parse inp"

section \<open>The JSON reconstructor (reconstructor.ts)\<close>

text \<open>
  The reconstructor owns a tokenizer (its cursor \<open>rpos\<close>), the log \<open>rrepairs\<close> and the
  score \<open>rscore\<close>; every method takes this state and returns the new one.
\<close>

record RState =
  rpos :: nat
  rrepairs :: "string list"
  rscore :: nat

definition addRepair :: "string \<Rightarrow> nat \<Rightarrow> RState \<Rightarrow> RState" where
  \<comment> \<open>\<^verbatim>\<open>this.repairs.push(r); this.score += n\<close>\<close>
  "addRepair r n st = st\<lparr>rrepairs := rrepairs st @ [r], rscore := rscore st + n\<rparr>"

text \<open>\<open>skipWhitespace\<close>: consume tokens while the best one is WHITESPACE or NEWLINE.\<close>

function skipWhitespace :: "jsstring \<Rightarrow> nat \<Rightarrow> nat" where
  "skipWhitespace inp pos =
     (case nextTokenCandidates inp pos of
        [] \<Rightarrow> pos
      | c # _ \<Rightarrow>
          if ttype c = WHITESPACE \<or> ttype c = NEWLINE then skipWhitespace inp (endPos c) else pos)"
  by pat_completeness auto
termination
proof (relation "measure (\<lambda>(inp, pos). length inp - pos)", goal_cases)
  case 1
  then show ?case by simp
next
  case (2 inp pos c cs)
  then have "c \<in> set (nextTokenCandidates inp pos)" by simp
  from nextTokenCandidates_pos [OF this] have "pos < endPos c" "endPos c \<le> length inp"
    by simp_all
  then show ?case by simp
qed

declare skipWhitespace.simps [simp del]

definition peekType :: "jsstring \<Rightarrow> nat \<Rightarrow> TokType \<Rightarrow> bool" where
  \<comment> \<open>\<open>peek(type)\<close>\<close>
  "peekType inp pos t =
     (case nextTokenCandidates inp pos of [] \<Rightarrow> False | c # _ \<Rightarrow> ttype c = t)"

definition consume :: "jsstring \<Rightarrow> nat \<Rightarrow> TokType \<Rightarrow> bool \<times> nat" where
  \<comment> \<open>\<open>consume(type)\<close>: whether the token was there, and the cursor after the call\<close>
  "consume inp pos t =
     (if peekType inp pos t then (True, snd (consumeBest inp pos)) else (False, pos))"

text \<open>
  \<open>skipCommentRestOfLine\<close>: consume tokens up to and including the next NEWLINE; the
  repair is logged by the caller of this loop.
\<close>

function restOfLine :: "jsstring \<Rightarrow> nat \<Rightarrow> nat" where
  "restOfLine inp pos =
     (if isEOF inp pos then pos
      else
        (case nextTokenCandidates inp pos of
           [] \<Rightarrow> pos
         | c # _ \<Rightarrow> if ttype c = NEWLINE then endPos c else restOfLine inp (endPos c)))"
  by pat_completeness auto
termination
proof (relation "measure (\<lambda>(inp, pos). length inp - pos)", goal_cases)
  case 1
  then show ?case by simp
next
  case (2 inp pos c cs)
  then have "c \<in> set (nextTokenCandidates inp pos)" by simp
  from nextTokenCandidates_pos [OF this] have "pos < endPos c" "endPos c \<le> length inp"
    by simp_all
  then show ?case by simp
qed

declare restOfLine.simps [simp del]

definition skipCommentRestOfLine :: "jsstring \<Rightarrow> RState \<Rightarrow> RState" where
  "skipCommentRestOfLine inp st =
     addRepair ''removed comment'' 1 (st\<lparr>rpos := restOfLine inp (rpos st)\<rparr>)"

definition isHash :: "TokenCandidate \<Rightarrow> bool" where
  \<comment> \<open>\<^verbatim>\<open>token.type === "TEXT" && token.value === "#"\<close>\<close>
  "isHash c \<longleftrightarrow> ttype c = TEXT \<and> tvalue c = js ''#''"

definition skipComment :: "jsstring \<Rightarrow> RState \<Rightarrow> RState" where
  "skipComment inp st =
     (case skipWhitespace inp (rpos st) of p \<Rightarrow>
       (case nextTokenCandidates inp p of
          [] \<Rightarrow> st\<lparr>rpos := p\<rparr>
        | token # _ \<Rightarrow>
            if isHash token then skipCommentRestOfLine inp (st\<lparr>rpos := p\<rparr>)
            else st\<lparr>rpos := p\<rparr>))"

text \<open>The loop of \<open>parseKey\<close> that extends a bare key over further words and blanks.\<close>

function keyWords :: "jsstring \<Rightarrow> nat \<Rightarrow> jsstring list \<Rightarrow> jsstring list \<times> nat" where
  "keyWords inp pos keyParts =
     (if isEOF inp pos then (keyParts, pos)
      else
        (case nextTokenCandidates inp pos of
           [] \<Rightarrow> (keyParts, pos)
         | nextToken # _ \<Rightarrow>
             if ttype nextToken = NEWLINE \<or> ttype nextToken = BRACE_CLOSE \<or> ttype nextToken = COMMA
               then (keyParts, pos)
             else if ttype nextToken = BARE_WORD
               then keyWords inp (endPos nextToken) (keyParts @ [tvalue nextToken])
             else if ttype nextToken = WHITESPACE
               then keyWords inp (endPos nextToken) (keyParts @ [js '' ''])
             else (keyParts, pos)))"
  by pat_completeness auto
termination
proof (relation "measure (\<lambda>(inp, pos, keyParts). length inp - pos)", goal_cases)
  case 1
  then show ?case by simp
next
  case (2 inp pos keyParts nextToken cs)
  then have "nextToken \<in> set (nextTokenCandidates inp pos)" by simp
  from nextTokenCandidates_pos [OF this] have "pos < endPos nextToken" "endPos nextToken \<le> length inp"
    by simp_all
  then show ?case by simp
next
  case (3 inp pos keyParts nextToken cs)
  then have "nextToken \<in> set (nextTokenCandidates inp pos)" by simp
  from nextTokenCandidates_pos [OF this] have "pos < endPos nextToken" "endPos nextToken \<le> length inp"
    by simp_all
  then show ?case by simp
qed

declare keyWords.simps [simp del]

definition quoted :: "jsstring \<Rightarrow> jsstring" where
  \<comment> \<open>the template \<^verbatim>\<open>`"${s}"`\<close>: no escaping\<close>
  "quoted s = js ''\"'' @ s @ js ''\"''"

definition hasColon :: "TokenCandidate list \<Rightarrow> bool" where
  \<comment> \<open>the lookahead of \<open>parseKey\<close> on the candidates after the first word\<close>
  "hasColon nextCands =
     (case nextCands of
        [] \<Rightarrow> False
      | c0 # rest \<Rightarrow>
          ttype c0 = COLON \<or>
          (ttype c0 = WHITESPACE \<and> (case rest of [] \<Rightarrow> False | c1 # _ \<Rightarrow> ttype c1 = COLON)))"

definition parseKey :: "jsstring \<Rightarrow> RState \<Rightarrow> jsstring option \<times> RState" where
  "parseKey inp st =
     (case nextTokenCandidates inp (rpos st) of
        [] \<Rightarrow> (None, st)
      | token # _ \<Rightarrow>
          if ttype token = STRING
            then (Some (quoted (tvalue token)), st\<lparr>rpos := endPos token\<rparr>)
          else if ttype token = BARE_WORD then
            (case (if hasColon (nextTokenCandidates inp (endPos token))
                   then ([tvalue token], endPos token)
                   else keyWords inp (endPos token) [tvalue token]) of
               (keyParts, p) \<Rightarrow>
                 (Some (quoted (trim (concat keyParts))),
                  addRepair ''quoted bare key'' 2 (st\<lparr>rpos := p\<rparr>)))
          else (None, st))"

text \<open>The loop of \<open>parseValue\<close> for an unquoted value.\<close>

function bareValue :: "jsstring \<Rightarrow> RState \<Rightarrow> jsstring \<Rightarrow> jsstring \<times> RState" where
  "bareValue inp st val =
     (case nextTokenCandidates inp (rpos st) of
        [] \<Rightarrow> (val, st)
      | cand # _ \<Rightarrow>
          if ttype cand = COMMA \<or> ttype cand = BRACE_CLOSE \<or> ttype cand = BRACKET_CLOSE
            then (val, st)
          else if isHash cand
            then (val, addRepair ''removed inline comment after value'' 1 (skipCommentRestOfLine inp st))
          else if ttype cand = BARE_WORD \<or> ttype cand = WHITESPACE \<or> ttype cand = NEWLINE
                  \<or> ttype cand = NUMBER \<or> ttype cand = TEXT
            then bareValue inp (st\<lparr>rpos := endPos cand\<rparr>) (val @ tvalue cand)
          else (val, st))"
  by pat_completeness auto
termination
proof (relation "measure (\<lambda>(inp, st, val). length inp - rpos st)", goal_cases)
  case 1
  then show ?case by simp
next
  case (2 inp st val cand cs)
  then have "cand \<in> set (nextTokenCandidates inp (rpos st))" by simp
  from nextTokenCandidates_pos [OF this] have "rpos st < endPos cand" "endPos cand \<le> length inp"
    by simp_all
  then show ?case by simp
qed

declare bareValue.simps [simp del]

text \<open>The loop of \<open>parseValue\<close> over consecutive TEXT tokens.\<close>

function textValue :: "jsstring \<Rightarrow> nat \<Rightarrow> jsstring \<Rightarrow> jsstring \<times> nat" where
  "textValue inp pos val =
     (case nextTokenCandidates inp pos of
        [] \<Rightarrow> (val, pos)
      | cand # _ \<Rightarrow>
          if ttype cand \<noteq> TEXT then (val, pos)
          else textValue inp (endPos cand) (val @ tvalue cand))"
  by pat_completeness auto
termination
proof (relation "measure (\<lambda>(inp, pos, val). length inp - pos)", goal_cases)
  case 1
  then show ?case by simp
next
  case (2 inp pos val cand cs)
  then have "cand \<in> set (nextTokenCandidates inp pos)" by simp
  from nextTokenCandidates_pos [OF this] have "pos < endPos cand" "endPos cand \<le> length inp"
    by simp_all
  then show ?case by simp
qed

declare textValue.simps [simp del]

text \<open>
  \<open>parseObject\<close>, \<open>parseKeyValue\<close>, \<open>parseValue\<close> and \<open>parseArray\<close> call each other, and
  the loop of \<open>parseArray\<close> need not advance the cursor.  The first argument bounds the
  number of nested calls and loop iterations; \<open>None\<close> means the bound was reached.  The
  loops carry \<open>parts\<close> and \<open>needsComma\<close>.
\<close>

function parseObject :: "nat \<Rightarrow> jsstring \<Rightarrow> RState \<Rightarrow> (jsstring option \<times> RState) option"
  and parseObjectLoop :: "nat \<Rightarrow> jsstring \<Rightarrow> jsstring list \<Rightarrow> bool \<Rightarrow> RState \<Rightarrow> (jsstring \<times> RState) option"
  and parseKeyValue :: "nat \<Rightarrow> jsstring \<Rightarrow> RState \<Rightarrow> (jsstring option \<times> RState) option"
  and parseValue :: "nat \<Rightarrow> jsstring \<Rightarrow> RState \<Rightarrow> (jsstring \<times> RState) option"
  and parseArray :: "nat \<Rightarrow> jsstring \<Rightarrow> RState \<Rightarrow> (jsstring option \<times> RState) option"
  and parseArrayLoop :: "nat \<Rightarrow> jsstring \<Rightarrow> jsstring list \<Rightarrow> bool \<Rightarrow> RState \<Rightarrow> (jsstring \<times> RState) option"
where
  "parseObject 0 inp st = None"
| "parseObject (Suc n) inp st =
     (case consume inp (skipWhitespace inp (rpos st)) BRACE_OPEN of
        (False, p) \<Rightarrow> Some (None, st\<lparr>rpos := p\<rparr>)
      | (True, p) \<Rightarrow>
          (case parseObjectLoop n inp [js ''{''] False (st\<lparr>rpos := p\<rparr>) of
             None \<Rightarrow> None
           | Some (s, st') \<Rightarrow> Some (Some s, st')))"
| "parseObjectLoop 0 inp parts needsComma st = None"
| "parseObjectLoop (Suc n) inp parts needsComma st =
     (if isEOF inp (rpos st)
      then Some (concat (parts @ [js ''}'']), addRepair ''added missing closing brace'' 3 st)
      else
        (case skipWhitespace inp (rpos st) of p1 \<Rightarrow>
          if peekType inp p1 BRACE_CLOSE
          then Some (concat (parts @ [js ''}'']), st\<lparr>rpos := snd (consumeBest inp p1)\<rparr>)
          else
            (case (if needsComma
                   then (case consume inp p1 COMMA of
                           (True, p2) \<Rightarrow> (parts @ [js '',''], st\<lparr>rpos := skipWhitespace inp p2\<rparr>)
                         | (False, p2) \<Rightarrow>
                             (parts @ [js '',''],
                              (addRepair ''added missing comma'' 1 st)\<lparr>rpos := skipWhitespace inp p2\<rparr>))
                   else (parts, st\<lparr>rpos := p1\<rparr>)) of
               (parts2, st2) \<Rightarrow>
                 (case parseKeyValue n inp st2 of
                    None \<Rightarrow> None
                  | Some (Some keyValue, st3) \<Rightarrow> parseObjectLoop n inp (parts2 @ [keyValue]) True st3
                  | Some (None, st3) \<Rightarrow>
                      parseObjectLoop n inp parts2 needsComma
                        (st3\<lparr>rpos := snd (consumeBest inp (rpos st3))\<rparr>)))))"
| "parseKeyValue 0 inp st = None"
| "parseKeyValue (Suc n) inp st =
     (case parseKey inp (st\<lparr>rpos := skipWhitespace inp (rpos st)\<rparr>) of
        (None, st1) \<Rightarrow> Some (None, st1)
      | (Some key, st1) \<Rightarrow>
          (case consume inp (skipWhitespace inp (rpos st1)) COLON of
             (False, p) \<Rightarrow>
               Some (Some (key @ js '': null''),
                     addRepair ''added missing colon and null value'' 3 (st1\<lparr>rpos := p\<rparr>))
           | (True, p) \<Rightarrow>
               (case parseValue n inp (st1\<lparr>rpos := skipWhitespace inp p\<rparr>) of
                  None \<Rightarrow> None
                | Some (v, st2) \<Rightarrow> Some (Some (key @ js '': '' @ v), skipComment inp st2))))"
| "parseValue 0 inp st = None"
| "parseValue (Suc n) inp st =
     (case nextTokenCandidates inp (rpos st) of
        [] \<Rightarrow> Some (js ''null'', st)
      | token # _ \<Rightarrow>
          if ttype token = STRING then Some (quoted (tvalue token), st\<lparr>rpos := endPos token\<rparr>)
          else if ttype token = NUMBER then Some (tvalue token, st\<lparr>rpos := endPos token\<rparr>)
          else if ttype token = BOOLEAN then Some (tvalue token, st\<lparr>rpos := endPos token\<rparr>)
          else if ttype token = NULL then Some (js ''null'', st\<lparr>rpos := endPos token\<rparr>)
          else if ttype token = BRACE_OPEN then
            (case parseObject n inp st of
               None \<Rightarrow> None
             | Some (None, st') \<Rightarrow> Some (js ''{}'', st')
             | Some (Some obj, st') \<Rightarrow> Some (if obj = [] then js ''{}'' else obj, st'))
          else if ttype token = BRACKET_OPEN then
            (case parseArray n inp st of
               None \<Rightarrow> None
             | Some (None, st') \<Rightarrow> Some (js ''[]'', st')
             | Some (Some arr, st') \<Rightarrow> Some (if arr = [] then js ''[]'' else arr, st'))
          else if ttype token = BARE_WORD \<or> ttype token = NEWLINE then
            (case bareValue inp st [] of
               (val, st') \<Rightarrow>
                 if val = [] then Some (js ''null'', st')
                 else Some (quoted (trim val), addRepair ''quoted bare value'' 2 st'))
          else if ttype token = TEXT then
            (case textValue inp (rpos st) [] of
               (val, p) \<Rightarrow>
                 Some (quoted val, addRepair ''quoted unicode/emoji value'' 1 (st\<lparr>rpos := p\<rparr>)))
          else Some (js ''null'', st))"
| "parseArray 0 inp st = None"
| "parseArray (Suc n) inp st =
     (case consume inp (rpos st) BRACKET_OPEN of
        (False, p) \<Rightarrow> Some (None, st\<lparr>rpos := p\<rparr>)
      | (True, p) \<Rightarrow>
          (case parseArrayLoop n inp [js ''[''] False (st\<lparr>rpos := p\<rparr>) of
             None \<Rightarrow> None
           | Some (s, st') \<Rightarrow> Some (Some s, st')))"
| "parseArrayLoop 0 inp parts needsComma st = None"
| "parseArrayLoop (Suc n) inp parts needsComma st =
     (if isEOF inp (rpos st)
      then Some (concat (parts @ [js '']'']), addRepair ''added missing closing bracket'' 3 st)
      else
        (case skipWhitespace inp (rpos st) of p1 \<Rightarrow>
          if peekType inp p1 BRACKET_CLOSE
          then Some (concat (parts @ [js '']'']), st\<lparr>rpos := snd (consumeBest inp p1)\<rparr>)
          else
            (case (if needsComma
                   then (case consume inp p1 COMMA of
                           (False, p2) \<Rightarrow>
                             (parts @ [js '',''],
                              (addRepair ''added missing comma'' 1 st)\<lparr>rpos := skipWhitespace inp p2\<rparr>)
                         | (True, p2) \<Rightarrow> (parts @ [js '',''], st\<lparr>rpos := skipWhitespace inp p2\<rparr>))
                   else (parts, st\<lparr>rpos := p1\<rparr>)) of
               (parts2, st2) \<Rightarrow>
                 (case parseValue n inp st2 of
                    None \<Rightarrow> None
                  | Some (v, st3) \<Rightarrow> parseArrayLoop n inp (parts2 @ [v]) True st3))))"
  by pat_completeness auto
termination
  by (relation "measure (\<lambda>x. case x of
        Inl (Inl (n, _)) \<Rightarrow> n
      | Inl (Inr (Inl (n, _))) \<Rightarrow> n
      | Inl (Inr (Inr (n, _))) \<Rightarrow> n
      | Inr (Inl (n, _)) \<Rightarrow> n
      | Inr (Inr (Inl (n, _))) \<Rightarrow> n
      | Inr (Inr (Inr (n, _))) \<Rightarrow> n)") simp_all

section \<open>JSON values and \<^verbatim>\<open>JSON.parse\<close>\<close>

text \<open>
  The values of JSON.  A number carries its literal: the double it denotes is a function
  of the literal, so equal literals are equal numbers.  An object is the list of its
  properties in insertion order, with distinct keys.
\<close>

datatype json =
    JNull
  | JBool bool
  | JNumber jsstring
  | JString jsstring
  | JArray "json list"
  | JObject "(jsstring \<times> json) list"

text \<open>
  \<^verbatim>\<open>JSON.parse\<close> belongs to the language, not to the repository; it is modelled after
  the JSON grammar of the ECMAScript specification.  \<open>None\<close> is the SyntaxError.
\<close>

definition isJsonWs :: "jschar \<Rightarrow> bool" where
  "isJsonWs c \<longleftrightarrow> c = 32 \<or> c = 9 \<or> c = 10 \<or> c = 13"

definition skipWs :: "jsstring \<Rightarrow> jsstring" where
  "skipWs cs = dropWhile isJsonWs cs"

definition hexVal :: "jschar \<Rightarrow> int option" where
  "hexVal c =
     (if 48 \<le> c \<and> c \<le> 57 then Some (c - 48)
      else if 97 \<le> c \<and> c \<le> 102 then Some (c - 87)
      else if 65 \<le> c \<and> c \<le> 70 then Some (c - 55)
      else None)"

definition hex4 :: "jsstring \<Rightarrow> jschar option" where
  "hex4 hs =
     (case map hexVal hs of
        [Some a, Some b, Some c, Some d] \<Rightarrow> Some (4096 * a + 256 * b + 16 * c + d)
      | _ \<Rightarrow> None)"

definition simpleEscape :: "jschar \<Rightarrow> jschar option" where
  "simpleEscape e =
     (if e = 34 then Some 34
      else if e = 92 then Some 92
      else if e = 47 then Some 47
      else if e = 98 then Some 8
      else if e = 102 then Some 12
      else if e = 110 then Some 10
      else if e = 114 then Some 13
      else if e = 116 then Some 9
      else None)"

text \<open>The characters of a string after its opening quote, and the rest of the input.\<close>

function jsonString :: "jsstring \<Rightarrow> jsstring \<Rightarrow> (jsstring \<times> jsstring) option" where
  "jsonString cs acc =
     (case cs of
        [] \<Rightarrow> None
      | c # r \<Rightarrow>
          if c = 34 then Some (acc, r)
          else if c < 32 then None
          else if c = 92 then
            (case r of
               [] \<Rightarrow> None
             | e # r' \<Rightarrow>
                 if e = 117 then
                   (case hex4 (take 4 r') of
                      None \<Rightarrow> None
                    | Some u \<Rightarrow> jsonString (drop 4 r') (acc @ [u]))
                 else
                   (case simpleEscape e of
                      None \<Rightarrow> None
                    | Some x \<Rightarrow> jsonString r' (acc @ [x])))
          else jsonString r (acc @ [c]))"
  by pat_completeness auto
termination
  by (relation "measure (\<lambda>(cs, acc). length cs)") auto

declare jsonString.simps [simp del]

definition jsonDigits :: "jsstring \<Rightarrow> (jsstring \<times> jsstring) option" where
  \<comment> \<open>one or more digits\<close>
  "jsonDigits cs =
     (if takeWhile isDigit cs = [] then None
      else Some (takeWhile isDigit cs, dropWhile isDigit cs))"

definition jsonNumber :: "jsstring \<Rightarrow> (jsstring \<times> jsstring) option" where
  "jsonNumber cs =
     (case (if take 1 cs = js ''-'' then (js ''-'', drop 1 cs) else ([], cs)) of
        (sign, r0) \<Rightarrow>
          (case (if take 1 r0 = js ''0'' then Some (js ''0'', drop 1 r0) else jsonDigits r0) of
             None \<Rightarrow> None
           | Some (ip, r1) \<Rightarrow>
               (case (if take 1 r1 = js ''.''
                      then (case jsonDigits (drop 1 r1) of
                              None \<Rightarrow> None
                            | Some (fs, r) \<Rightarrow> Some (js ''.'' @ fs, r))
                      else Some ([], r1)) of
                  None \<Rightarrow> None
                | Some (fp, r2) \<Rightarrow>
                    if take 1 r2 = js ''e'' \<or> take 1 r2 = js ''E'' then
                      (case (if take 1 (drop 1 r2) = js ''+'' \<or> take 1 (drop 1 r2) = js ''-''
                             then (take 2 r2, drop 2 r2) else (take 1 r2, drop 1 r2)) of
                         (ep, r3) \<Rightarrow>
                           (case jsonDigits r3 of
                              None \<Rightarrow> None
                            | Some (es, r4) \<Rightarrow> Some (sign @ ip @ fp @ ep @ es, r4)))
                    else Some (sign @ ip @ fp, r2))))"

definition objPut :: "jsstring \<Rightarrow> json \<Rightarrow> (jsstring \<times> json) list \<Rightarrow> (jsstring \<times> json) list" where
  \<comment> \<open>defining a property: a present key keeps its place and takes the new value\<close>
  "objPut k v kvs =
     (if k \<in> set (map fst kvs) then map (\<lambda>kv. if fst kv = k then (k, v) else kv) kvs
      else kvs @ [(k, v)])"

text \<open>
  The first argument bounds the nesting of calls; each call but the one from a value to
  its elements or members follows a consumed character, so twice the length of the input
  is enough (\<open>JSON_parse\<close>).  The input of \<open>jsonValue\<close> starts at the value.
\<close>

function jsonValue :: "nat \<Rightarrow> jsstring \<Rightarrow> (json \<times> jsstring) option"
  and jsonElements :: "nat \<Rightarrow> jsstring \<Rightarrow> json list \<Rightarrow> (json \<times> jsstring) option"
  and jsonMembers :: "nat \<Rightarrow> jsstring \<Rightarrow> (jsstring \<times> json) list \<Rightarrow> (json \<times> jsstring) option"
where
  "jsonValue 0 cs = None"
| "jsonValue (Suc n) cs =
     (case cs of
        [] \<Rightarrow> None
      | c # r \<Rightarrow>
          if c = 123 then
            (if take 1 (skipWs r) = js ''}'' then Some (JObject [], drop 1 (skipWs r))
             else jsonMembers n (skipWs r) [])
          else if c = 91 then
            (if take 1 (skipWs r) = js '']'' then Some (JArray [], drop 1 (skipWs r))
             else jsonElements n (skipWs r) [])
          else if c = 34 then
            (case jsonString r [] of None \<Rightarrow> None | Some (s, r') \<Rightarrow> Some (JString s, r'))
          else if c = 45 \<or> isDigit c then
            (case jsonNumber cs of None \<Rightarrow> None | Some (l, r') \<Rightarrow> Some (JNumber l, r'))
          else if take 4 cs = js ''true'' then Some (JBool True, drop 4 cs)
          else if take 5 cs = js ''false'' then Some (JBool False, drop 5 cs)
          else if take 4 cs = js ''null'' then Some (JNull, drop 4 cs)
          else None)"
| "jsonElements 0 cs acc = None"
| "jsonElements (Suc n) cs acc =
     (case jsonValue n cs of
        None \<Rightarrow> None
      | Some (v, r) \<Rightarrow>
          if take 1 (skipWs r) = js '','' then jsonElements n (skipWs (drop 1 (skipWs r))) (acc @ [v])
          else if take 1 (skipWs r) = js '']'' then Some (JArray (acc @ [v]), drop 1 (skipWs r))
          else None)"
| "jsonMembers 0 cs acc = None"
| "jsonMembers (Suc n) cs acc =
     (if take 1 cs \<noteq> js ''\"'' then None
      else
        (case jsonString (drop 1 cs) [] of
           None \<Rightarrow> None
         | Some (k, r1) \<Rightarrow>
             if take 1 (skipWs r1) \<noteq> js '':'' then None
             else
               (case jsonValue n (skipWs (drop 1 (skipWs r1))) of
                  None \<Rightarrow> None
                | Some (v, r2) \<Rightarrow>
                    if take 1 (skipWs r2) = js '',''
                      then jsonMembers n (skipWs (drop 1 (skipWs r2))) (objPut k v acc)
                    else if take 1 (skipWs r2) = js ''}''
                      then Some (JObject (objPut k v acc), drop 1 (skipWs r2))
                    else None)))"
  by pat_completeness auto
termination
  by (relation "measure (\<lambda>x. case x of
        Inl (n, _) \<Rightarrow> n
      | Inr (Inl (n, _)) \<Rightarrow> n
      | Inr (Inr (n, _)) \<Rightarrow> n)") simp_all

definition JSON_parse :: "jsstring \<Rightarrow> json option" where
  "JSON_parse s =
     (case jsonValue (2 * length s + 2) (skipWs s) of
        None \<Rightarrow> None
      | Some (v, r) \<Rightarrow> if skipWs r = [] then Some v else None)"

section \<open>\<open>reconstructJSON\<close>\<close>

record ReconstructResult =
  rc_success :: bool
  rc_json :: "jsstring option"
  rc_repairs :: "string list"
  rc_warnings :: "string list"
  rc_score :: enat

text \<open>
  The warning of an invalid result ends with the message of the SyntaxError, which the
  model leaves out.
\<close>

definition reconstructJSON :: "nat \<Rightarrow> jsstring \<Rightarrow> ReconstructResult option" where
  "reconstructJSON n inp =
     (case \<lparr>rpos = skipWhitespace inp 0, rrepairs = [], rscore = 0\<rparr> of st0 \<Rightarrow>
       (case (case nextTokenCandidates inp (rpos st0) of
                [] \<Rightarrow> Some (None, st0)
              | c # _ \<Rightarrow>
                  if ttype c = BRACKET_OPEN then parseArray n inp st0 else parseObject n inp st0) of
          None \<Rightarrow> None
        | Some (json, st) \<Rightarrow>
            Some
              (case json of
                 None \<Rightarrow>
                   \<lparr>rc_success = False, rc_json = None, rc_repairs = rrepairs st,
                    rc_warnings = [''Failed to reconstruct as JSON''], rc_score = \<infinity>\<rparr>
               | Some j \<Rightarrow>
                   if j = [] then
                     \<lparr>rc_success = False, rc_json = None, rc_repairs = rrepairs st,
                      rc_warnings = [''Failed to reconstruct as JSON''], rc_score = \<infinity>\<rparr>
                   else
                     (case JSON_parse j of
                        Some _ \<Rightarrow>
                          \<lparr>rc_success = True, rc_json = Some j, rc_repairs = rrepairs st,
                           rc_warnings = [], rc_score = enat (rscore st)\<rparr>
                      | None \<Rightarrow>
                          \<lparr>rc_success = False, rc_json = None, rc_repairs = rrepairs st,
                           rc_warnings = [''Invalid JSON''], rc_score = \<infinity>\<rparr>))))"

section \<open>\<^verbatim>\<open>JSON.stringify(value, null, 2)\<close>\<close>

text \<open>
  The text of a number is the one conversion of the language that depends on the double
  a literal denotes; it is the parameter \<open>numText\<close> of the functions below.
\<close>

definition hexDigit :: "int \<Rightarrow> jschar" where
  "hexDigit d = (if d < 10 then 48 + d else 87 + d)"

definition uEscape :: "jschar \<Rightarrow> jsstring" where
  \<comment> \<open>\<^verbatim>\<open>\uXXXX\<close>, lower-case\<close>
  "uEscape c =
     [92, 117, hexDigit (c div 4096 mod 16), hexDigit (c div 256 mod 16),
      hexDigit (c div 16 mod 16), hexDigit (c mod 16)]"

definition escapeChar :: "jschar \<Rightarrow> jsstring" where
  "escapeChar c =
     (if c = 34 then [92, 34]
      else if c = 92 then [92, 92]
      else if c = 8 then [92, 98]
      else if c = 12 then [92, 102]
      else if c = 10 then [92, 110]
      else if c = 13 then [92, 114]
      else if c = 9 then [92, 116]
      else if c < 32 then uEscape c
      else [c])"

definition isHighSurrogate :: "jschar \<Rightarrow> bool" where
  "isHighSurrogate c \<longleftrightarrow> 55296 \<le> c \<and> c \<le> 56319"

definition isLowSurrogate :: "jschar \<Rightarrow> bool" where
  "isLowSurrogate c \<longleftrightarrow> 56320 \<le> c \<and> c \<le> 57343"

fun quoteChars :: "jsstring \<Rightarrow> jsstring" where
  "quoteChars [] = []"
| "quoteChars [c] =
     (if isHighSurrogate c \<or> isLowSurrogate c then uEscape c else escapeChar c)"
| "quoteChars (c # d # cs) =
     (if isHighSurrogate c \<and> isLowSurrogate d then c # d # quoteChars cs
      else if isHighSurrogate c \<or> isLowSurrogate c then uEscape c @ quoteChars (d # cs)
      else escapeChar c @ quoteChars (d # cs))"

definition quoteJSONString :: "jsstring \<Rightarrow> jsstring" where
  "quoteJSONString s = [34] @ quoteChars s @ [34]"

text \<open>
  The own properties of an object are enumerated with the array indices first, in
  ascending order, then the other keys in insertion order.
\<close>

definition decimalValue :: "jsstring \<Rightarrow> int" where
  "decimalValue k = foldl (\<lambda>a c. 10 * a + (c - 48)) 0 k"

definition isArrayIndex :: "jsstring \<Rightarrow> bool" where
  "isArrayIndex k \<longleftrightarrow>
     k \<noteq> [] \<and> list_all isDigit k \<and> (k = js ''0'' \<or> hd k \<noteq> 48) \<and> length k \<le> 10
     \<and> decimalValue k < 4294967295"

definition ownProperties :: "(jsstring \<times> 'a) list \<Rightarrow> (jsstring \<times> 'a) list" where
  "ownProperties kvs =
     sort_key (\<lambda>kv. decimalValue (fst kv)) (filter (\<lambda>kv. isArrayIndex (fst kv)) kvs)
     @ filter (\<lambda>kv. \<not> isArrayIndex (fst kv)) kvs"

lemma set_ownProperties [simp]: "set (ownProperties kvs) = set kvs"
  by (auto simp: ownProperties_def)

fun joinWith :: "jsstring \<Rightarrow> jsstring list \<Rightarrow> jsstring" where
  "joinWith sep [] = []"
| "joinWith sep [x] = x"
| "joinWith sep (x # y # ys) = x @ sep @ joinWith sep (y # ys)"

fun stringifyValue :: "(jsstring \<Rightarrow> jsstring) \<Rightarrow> jsstring \<Rightarrow> json \<Rightarrow> jsstring" where
  "stringifyValue numText ind JNull = js ''null''"
| "stringifyValue numText ind (JBool b) = (if b then js ''true'' else js ''false'')"
| "stringifyValue numText ind (JNumber l) = numText l"
| "stringifyValue numText ind (JString s) = quoteJSONString s"
| "stringifyValue numText ind (JArray vs) =
     (if vs = [] then js ''[]''
      else js ''['' @ [10] @ (ind @ js ''  '')
           @ joinWith (js '','' @ [10] @ (ind @ js ''  ''))
               (map (stringifyValue numText (ind @ js ''  '')) vs)
           @ [10] @ ind @ js '']'')"
| "stringifyValue numText ind (JObject kvs) =
     (if kvs = [] then js ''{}''
      else js ''{'' @ [10] @ (ind @ js ''  '')
           @ joinWith (js '','' @ [10] @ (ind @ js ''  ''))
               (map (\<lambda>kv. quoteJSONString (fst kv) @ js '': ''
                            @ stringifyValue numText (ind @ js ''  '') (snd kv))
                  (ownProperties kvs))
           @ [10] @ ind @ js ''}'')"

definition JSON_stringify :: "(jsstring \<Rightarrow> jsstring) \<Rightarrow> json \<Rightarrow> jsstring" where
  "JSON_stringify numText v = stringifyValue numText [] v"

section \<open>The YAML reconstructor (yaml-reconstructor.ts)\<close>

text \<open>
  The state of the reconstructor: the cursor of its tokenizer, the log, the score, the
  current key, the flag \<open>inArray\<close> and the object under construction.  \<open>skipWhitespace\<close>,
  \<open>peek\<close> and \<open>consume\<close> are the ones of the JSON reconstructor, word for word.

  \<open>protoSetter\<close> records that the object still inherits the accessor \<^verbatim>\<open>__proto__\<close>:
  while it does, an assignment to that key defines no property (it replaces the prototype
  when the value is an object or \<^verbatim>\<open>null\<close>, and \<^verbatim>\<open>null\<close> removes the accessor).
\<close>

record YState =
  ypos :: nat
  yrepairs :: "string list"
  yscore :: nat
  currentKey :: "jsstring option"
  inArray :: bool
  yobj :: "(jsstring \<times> json) list"
  protoSetter :: bool

definition yAddRepair :: "string \<Rightarrow> nat \<Rightarrow> YState \<Rightarrow> YState" where
  "yAddRepair r n st = st\<lparr>yrepairs := yrepairs st @ [r], yscore := yscore st + n\<rparr>"

definition objAssign :: "jsstring \<Rightarrow> json \<Rightarrow> YState \<Rightarrow> YState" where
  \<comment> \<open>\<^verbatim>\<open>obj[k] = v\<close>\<close>
  "objAssign k v st =
     (if k = js ''__proto__'' \<and> protoSetter st
      then (if v = JNull then st\<lparr>protoSetter := False\<rparr> else st)
      else st\<lparr>yobj := objPut k v (yobj st)\<rparr>)"

definition isZeroLiteral :: "jsstring \<Rightarrow> bool" where
  "isZeroLiteral l \<longleftrightarrow> list_all (\<lambda>c. c = 48 \<or> c = 45 \<or> c = 46) l"

definition falsy :: "json \<Rightarrow> bool" where
  "falsy v \<longleftrightarrow>
     (case v of
        JNull \<Rightarrow> True
      | JBool b \<Rightarrow> \<not> b
      | JNumber l \<Rightarrow> isZeroLiteral l
      | JString s \<Rightarrow> s = []
      | _ \<Rightarrow> False)"

text \<open>
  The three statements that append a list item under the current key \<open>k\<close>: an absent or
  falsy value becomes the empty array, a value that is no array is wrapped into one, and
  the item is pushed.  Under the accessor \<^verbatim>\<open>__proto__\<close> they change no property.
\<close>

definition pushItem :: "jsstring \<Rightarrow> json \<Rightarrow> YState \<Rightarrow> YState" where
  "pushItem k item st =
     (if k = js ''__proto__'' \<and> protoSetter st then st
      else
        (case map_of (yobj st) k of
           None \<Rightarrow> st\<lparr>yobj := objPut k (JArray [item]) (yobj st)\<rparr>
         | Some v \<Rightarrow>
             if falsy v then st\<lparr>yobj := objPut k (JArray [item]) (yobj st)\<rparr>
             else
               (case v of
                  JArray xs \<Rightarrow> st\<lparr>yobj := objPut k (JArray (xs @ [item])) (yobj st)\<rparr>
                | _ \<Rightarrow> st\<lparr>yobj := objPut k (JArray [v, item]) (yobj st)\<rparr>)))"

definition yParseKey :: "jsstring \<Rightarrow> nat \<Rightarrow> jsstring option \<times> nat" where
  "yParseKey inp pos =
     (case nextTokenCandidates inp pos of
        [] \<Rightarrow> (None, pos)
      | token # _ \<Rightarrow>
          if ttype token = STRING then (Some (tvalue token), endPos token)
          else if ttype token = BARE_WORD then (Some (tvalue token), endPos token)
          else (None, pos))"

text \<open>The capture loop of \<open>parseInlineJSON\<close>, from the opening brace to its match.\<close>

function captureInline :: "jsstring \<Rightarrow> nat \<Rightarrow> jsstring \<Rightarrow> int \<Rightarrow> jsstring \<times> nat" where
  "captureInline inp pos jsonStr braceDepth =
     (if isEOF inp pos then (jsonStr, pos)
      else
        (case consumeBest inp pos of
           (None, p) \<Rightarrow> (jsonStr, p)
         | (Some token, p) \<Rightarrow>
             (case (if ttype token = BRACE_OPEN then braceDepth + 1 else braceDepth) of d \<Rightarrow>
               if ttype token = BRACE_CLOSE then
                 (if d - 1 = 0 then (jsonStr @ tvalue token, p)
                  else captureInline inp p (jsonStr @ tvalue token) (d - 1))
               else captureInline inp p (jsonStr @ tvalue token) d)))"
  by pat_completeness auto
termination
proof (relation "measure (\<lambda>(inp, pos, jsonStr, braceDepth). length inp - pos)", goal_cases)
  case 1
  then show ?case by simp
next
  case (2 inp pos jsonStr braceDepth x p token)
  then have "consumeBest inp pos = (Some token, p)" by simp
  from consumeBest_Some(2,4) [OF this] show ?case by simp
next
  case (3 inp pos jsonStr braceDepth x p token)
  then have "consumeBest inp pos = (Some token, p)" by simp
  from consumeBest_Some(2,4) [OF this] show ?case by simp
qed

declare captureInline.simps [simp del]

definition parseInlineJSON :: "nat \<Rightarrow> jsstring \<Rightarrow> YState \<Rightarrow> (json \<times> YState) option" where
  "parseInlineJSON n inp st =
     (case captureInline inp (ypos st) [] 0 of
        (jsonStr, p) \<Rightarrow>
          (case reconstructJSON n jsonStr of
             None \<Rightarrow> None
           | Some result \<Rightarrow>
               Some
                 (case (if rc_success result then rc_json result else None) of
                    None \<Rightarrow> (JString jsonStr, st\<lparr>ypos := p\<rparr>)
                  | Some j \<Rightarrow>
                      if j = [] then (JString jsonStr, st\<lparr>ypos := p\<rparr>)
                      else
                        (case JSON_parse j of
                           None \<Rightarrow> (JString jsonStr, st\<lparr>ypos := p\<rparr>)
                         | Some parsed \<Rightarrow>
                             (parsed, yAddRepair ''parsed inline JSON in YAML'' 2 (st\<lparr>ypos := p\<rparr>))))))"

definition yParseValue :: "nat \<Rightarrow> jsstring \<Rightarrow> YState \<Rightarrow> (json \<times> YState) option" where
  "yParseValue n inp st =
     (case nextTokenCandidates inp (ypos st) of
        [] \<Rightarrow> Some (JNull, st)
      | token # _ \<Rightarrow>
          if ttype token = STRING then Some (JString (tvalue token), st\<lparr>ypos := endPos token\<rparr>)
          else if ttype token = NUMBER then Some (JNumber (tvalue token), st\<lparr>ypos := endPos token\<rparr>)
          else if ttype token = BOOLEAN
            then Some (JBool (tvalue token = js ''true''), st\<lparr>ypos := endPos token\<rparr>)
          else if ttype token = NULL then Some (JNull, st\<lparr>ypos := endPos token\<rparr>)
          else if ttype token = BRACE_OPEN then parseInlineJSON n inp st
          else if ttype token = BARE_WORD then Some (JString (tvalue token), st\<lparr>ypos := endPos token\<rparr>)
          else Some (JNull, st))"

definition parseListItem :: "nat \<Rightarrow> jsstring \<Rightarrow> YState \<Rightarrow> (json \<times> YState) option" where
  "parseListItem n inp st =
     (case consume inp (ypos st) DASH of
        (False, p) \<Rightarrow> Some (JNull, st\<lparr>ypos := p\<rparr>)
      | (True, p) \<Rightarrow> yParseValue n inp (st\<lparr>ypos := skipWhitespace inp p\<rparr>))"

text \<open>
  \<open>parseKeyValue\<close> yields \<^verbatim>\<open>{key, value, hasValue}\<close> or \<^verbatim>\<open>null\<close>; a missing value is
  \<^verbatim>\<open>undefined\<close>, here \<open>None\<close>.  On \<^verbatim>\<open>null\<close> the cursor is back at the checkpoint.
\<close>

definition yParseKeyValue :: "nat \<Rightarrow> jsstring \<Rightarrow> YState
    \<Rightarrow> ((jsstring \<times> json option \<times> bool) option \<times> YState) option" where
  "yParseKeyValue n inp st =
     (case yParseKey inp (ypos st) of
        (None, _) \<Rightarrow> Some (None, st)
      | (Some key, p1) \<Rightarrow>
          if key = [] then Some (None, st)
          else
            (case consume inp (skipWhitespace inp p1) COLON of
               (False, _) \<Rightarrow> Some (None, st)
             | (True, p2) \<Rightarrow>
                 (case skipWhitespace inp p2 of p3 \<Rightarrow>
                   if peekType inp p3 NEWLINE \<or> peekType inp p3 DASH \<or> isEOF inp p3
                   then Some (Some (key, None, False), st\<lparr>ypos := p3\<rparr>)
                   else
                     (case yParseValue n inp (st\<lparr>ypos := p3\<rparr>) of
                        None \<Rightarrow> None
                      | Some (v, st') \<Rightarrow> Some (Some (key, Some v, True), st')))))"

text \<open>The loop of \<open>peekNextLineIsList\<close>: consume tokens up to and including a NEWLINE.\<close>

function toNextLine :: "jsstring \<Rightarrow> nat \<Rightarrow> nat" where
  "toNextLine inp pos =
     (if isEOF inp pos then pos
      else
        (case consumeBest inp pos of
           (None, p) \<Rightarrow> p
         | (Some token, p) \<Rightarrow> if ttype token = NEWLINE then p else toNextLine inp p))"
  by pat_completeness auto
termination
proof (relation "measure (\<lambda>(inp, pos). length inp - pos)", goal_cases)
  case 1
  then show ?case by simp
next
  case (2 inp pos x p token)
  then have "consumeBest inp pos = (Some token, p)" by simp
  from consumeBest_Some(2,4) [OF this] show ?case by simp
qed

declare toNextLine.simps [simp del]

definition peekNextLineIsList :: "jsstring \<Rightarrow> nat \<Rightarrow> bool" where
  "peekNextLineIsList inp pos = peekType inp (skipWhitespace inp (toNextLine inp pos)) DASH"

text \<open>The two branches of the document loop that change the object.\<close>

definition listItemStep :: "json \<Rightarrow> YState \<Rightarrow> YState" where
  "listItemStep item st =
     (case currentKey st of
        None \<Rightarrow> st
      | Some k \<Rightarrow>
          if item \<noteq> JNull \<and> k \<noteq> [] then yAddRepair ''added list item'' 1 (pushItem k item st)
          else st)"

definition keyValueStep :: "jsstring \<Rightarrow> jsstring \<Rightarrow> json option \<Rightarrow> bool \<Rightarrow> YState \<Rightarrow> YState" where
  "keyValueStep inp key val hasValue st =
     yAddRepair ''converted YAML key-value'' 1
       (case (if hasValue then val else None) of
          Some v \<Rightarrow> (objAssign key v st)\<lparr>currentKey := None\<rparr>
        | None \<Rightarrow>
            if peekNextLineIsList inp (ypos st)
            then (objAssign key (JArray []) (st\<lparr>currentKey := Some key\<rparr>))\<lparr>inArray := True\<rparr>
            else objAssign key (JObject []) (st\<lparr>currentKey := Some key\<rparr>))"

subsection \<open>The helpers of the reconstructors only move the cursor forward\<close>

lemma skipWhitespace_mono: "pos \<le> skipWhitespace inp pos"
proof (induction inp pos rule: skipWhitespace.induct)
  case (1 inp pos)
  show ?case
  proof (cases "nextTokenCandidates inp pos")
    case Nil
    then show ?thesis by (simp add: skipWhitespace.simps [of inp pos])
  next
    case (Cons c cs)
    then have "c \<in> set (nextTokenCandidates inp pos)" by simp
    from nextTokenCandidates_pos [OF this] have "pos < endPos c" by simp
    with Cons "1.IH" [OF Cons] show ?thesis
      by (auto simp add: skipWhitespace.simps [of inp pos])
  qed
qed

lemma peekType_pos:
  assumes "peekType inp pos t"
  shows "pos < snd (consumeBest inp pos)" and "pos < length inp"
proof -
  from assms obtain c cs where c: "nextTokenCandidates inp pos = c # cs"
    by (cases "nextTokenCandidates inp pos") (auto simp: peekType_def)
  then have "c \<in> set (nextTokenCandidates inp pos)" by simp
  from nextTokenCandidates_pos [OF this] c
  show "pos < snd (consumeBest inp pos)" "pos < length inp"
    by (simp_all add: consumeBest_def)
qed

lemma consume_True:
  assumes "consume inp pos t = (True, p)"
  shows "pos < p" and "pos < length inp"
proof -
  from assms have "peekType inp pos t" "p = snd (consumeBest inp pos)"
    by (auto simp: consume_def split: if_split_asm)
  with peekType_pos [of inp pos t] show "pos < p" "pos < length inp" by simp_all
qed

lemma consume_False: "consume inp pos t = (False, p) \<Longrightarrow> p = pos"
  by (auto simp: consume_def split: if_split_asm)

lemma snd_consumeBest_mono: "pos \<le> snd (consumeBest inp pos)"
proof (cases "consumeBest inp pos")
  case (Pair tok p)
  then show ?thesis
    using consumeBest_None(1) [of inp pos p] consumeBest_Some(2) [of inp pos _ p]
    by (cases tok) auto
qed

lemma snd_consumeBest_less: "pos < length inp \<Longrightarrow> pos < snd (consumeBest inp pos)"
proof (cases "consumeBest inp pos")
  case (Pair tok p)
  assume "pos < length inp"
  with Pair show ?thesis
    using consumeBest_None(2) [of inp pos p] consumeBest_Some(2) [of inp pos _ p]
    by (cases tok) auto
qed

lemma captureInline_mono: "pos \<le> snd (captureInline inp pos jsonStr braceDepth)"
proof (induction inp pos jsonStr braceDepth rule: captureInline.induct)
  case (1 inp pos jsonStr braceDepth)
  note eq = captureInline.simps [of inp pos jsonStr braceDepth]
  show ?case
  proof (cases "isEOF inp pos")
    case True
    with eq show ?thesis by simp
  next
    case False
    obtain tok p where c: "consumeBest inp pos = (tok, p)"
      by (cases "consumeBest inp pos")
    show ?thesis
    proof (cases tok)
      case None
      with consumeBest_None(1) [OF c [unfolded None]] eq False c show ?thesis by simp
    next
      case (Some token)
      from consumeBest_Some(2) [OF c [unfolded Some]] have lt: "pos < p" .
      let ?d = "if ttype token = BRACE_OPEN then braceDepth + 1 else braceDepth"
      have a: "ttype token = BRACE_CLOSE \<Longrightarrow> ?d - 1 \<noteq> 0 \<Longrightarrow>
          p \<le> snd (captureInline inp p (jsonStr @ tvalue token) (?d - 1))"
        using "1.IH"(1) [OF False c [symmetric] Some] by simp
      have b: "ttype token \<noteq> BRACE_CLOSE \<Longrightarrow>
          p \<le> snd (captureInline inp p (jsonStr @ tvalue token) ?d)"
        using "1.IH"(2) [OF False c [symmetric] Some] by simp
      show ?thesis
        using a b lt eq False c Some
        by (cases "ttype token = BRACE_CLOSE"; cases "?d - 1 = 0") auto
    qed
  qed
qed

lemma parseInlineJSON_mono:
  "parseInlineJSON n inp st = Some (v, st') \<Longrightarrow> ypos st \<le> ypos st'"
  using captureInline_mono [of "ypos st" inp "[]" 0]
  by (auto simp: parseInlineJSON_def yAddRepair_def split: prod.splits option.splits if_split_asm)

lemma yParseValue_mono:
  assumes "yParseValue n inp st = Some (v, st')"
  shows "ypos st \<le> ypos st'"
proof (cases "nextTokenCandidates inp (ypos st)")
  case Nil
  with assms show ?thesis by (simp add: yParseValue_def)
next
  case (Cons token cs)
  then have "token \<in> set (nextTokenCandidates inp (ypos st))" by simp
  from nextTokenCandidates_pos [OF this] have "ypos st < endPos token" by simp
  with assms Cons parseInlineJSON_mono [of n inp st v st'] show ?thesis
    by (auto simp: yParseValue_def split: if_split_asm)
qed

lemma parseListItem_pos:
  assumes "peekType inp (ypos st) DASH" "parseListItem n inp st = Some (item, st')"
  shows "ypos st < ypos st'"
proof -
  obtain p where c: "consume inp (ypos st) DASH = (True, p)"
    using assms(1) by (simp add: consume_def)
  with assms(2) have "yParseValue n inp (st\<lparr>ypos := skipWhitespace inp p\<rparr>) = Some (item, st')"
    by (simp add: parseListItem_def)
  from yParseValue_mono [OF this] skipWhitespace_mono [of p inp] consume_True(1) [OF c]
  show ?thesis by simp
qed

lemma yParseKey_Some:
  assumes "yParseKey inp pos = (Some key, p)"
  shows "pos < p"
proof (cases "nextTokenCandidates inp pos")
  case Nil
  with assms show ?thesis by (simp add: yParseKey_def)
next
  case (Cons token cs)
  then have "token \<in> set (nextTokenCandidates inp pos)" by simp
  from nextTokenCandidates_pos [OF this] have "pos < endPos token" by simp
  with assms Cons show ?thesis
    by (auto simp: yParseKey_def split: if_split_asm)
qed

lemma yParseKeyValue_None:
  "yParseKeyValue n inp st = Some (None, st') \<Longrightarrow> st' = st"
  by (auto simp: yParseKeyValue_def split: prod.splits option.splits if_split_asm bool.splits)

lemma yParseKeyValue_Some:
  assumes "yParseKeyValue n inp st = Some (Some kv, st')"
  shows "ypos st < ypos st'"
proof -
  from assms obtain key p1 where k: "yParseKey inp (ypos st) = (Some key, p1)"
    by (cases "yParseKey inp (ypos st)"; cases "fst (yParseKey inp (ypos st))")
       (auto simp: yParseKeyValue_def)
  from assms k obtain p2 where c: "consume inp (skipWhitespace inp p1) COLON = (True, p2)"
    by (cases "consume inp (skipWhitespace inp p1) COLON"; cases "fst (consume inp (skipWhitespace inp p1) COLON)")
       (auto simp: yParseKeyValue_def split: if_split_asm)
  have a: "ypos st < skipWhitespace inp p2"
    using yParseKey_Some [OF k] skipWhitespace_mono [of p1 inp] consume_True(1) [OF c]
      skipWhitespace_mono [of p2 inp] by simp
  from assms k c have "ypos st' = skipWhitespace inp p2
      \<or> (\<exists>v. yParseValue n inp (st\<lparr>ypos := skipWhitespace inp p2\<rparr>) = Some (v, st'))"
    by (auto simp: yParseKeyValue_def split: if_split_asm option.splits)
  with a yParseValue_mono [of n inp "st\<lparr>ypos := skipWhitespace inp p2\<rparr>" _ st'] show ?thesis
    by auto
qed

lemma ypos_yAddRepair [simp]: "ypos (yAddRepair r n st) = ypos st"
  by (simp add: yAddRepair_def)

lemma ypos_objAssign [simp]: "ypos (objAssign k v st) = ypos st"
  by (simp add: objAssign_def)

lemma ypos_pushItem [simp]: "ypos (pushItem k item st) = ypos st"
  by (simp add: pushItem_def split: option.splits json.splits)

lemma ypos_listItemStep [simp]: "ypos (listItemStep item st) = ypos st"
  by (simp add: listItemStep_def split: option.splits)

lemma ypos_keyValueStep [simp]: "ypos (keyValueStep inp key val hasValue st) = ypos st"
  by (simp add: keyValueStep_def split: option.splits)

subsection \<open>The document loop\<close>

function yamlDocument :: "nat \<Rightarrow> jsstring \<Rightarrow> YState \<Rightarrow> YState option" where
  "yamlDocument n inp st =
     (if isEOF inp (ypos st) then Some st
      else
        (case skipWhitespace inp (ypos st) of p \<Rightarrow>
          if isEOF inp p then Some (st\<lparr>ypos := p\<rparr>)
          else if peekType inp p DASH then
            (case parseListItem n inp (st\<lparr>ypos := p\<rparr>) of
               None \<Rightarrow> None
             | Some (item, st1) \<Rightarrow> yamlDocument n inp (listItemStep item st1))
          else
            (case yParseKeyValue n inp (st\<lparr>ypos := p\<rparr>) of
               None \<Rightarrow> None
             | Some (Some (key, val, hasValue), st1) \<Rightarrow>
                 yamlDocument n inp (keyValueStep inp key val hasValue st1)
             | Some (None, st1) \<Rightarrow>
                 yamlDocument n inp (st1\<lparr>ypos := snd (consumeBest inp (ypos st1))\<rparr>))))"
  by pat_completeness auto
termination
proof (relation "measure (\<lambda>(n, inp, st). length inp - ypos st)", goal_cases)
  case 1
  then show ?case by simp
next
  case (2 n inp st x2 item st1)
  then have "parseListItem n inp (st\<lparr>ypos := skipWhitespace inp (ypos st)\<rparr>) = Some (item, st1)"
    by simp
  from parseListItem_pos [OF _ this] 2(3) have "skipWhitespace inp (ypos st) < ypos st1"
    by simp
  with skipWhitespace_mono [of "ypos st" inp] 2(1) show ?case
    by (simp add: isEOF_def diff_less_mono2)
next
  case (3 n inp st x2 x st1)
  then have "yParseKeyValue n inp (st\<lparr>ypos := skipWhitespace inp (ypos st)\<rparr>) = Some (None, st1)"
    by simp
  from yParseKeyValue_None [OF this] have "ypos st1 = skipWhitespace inp (ypos st)"
    by simp
  with snd_consumeBest_less [of "ypos st1" inp] skipWhitespace_mono [of "ypos st" inp] 3(1,2)
  show ?case
    by (simp add: isEOF_def diff_less_mono2)
next
  case (4 n inp st x2 x st1 kv key rest val hasValue)
  then have "yParseKeyValue n inp (st\<lparr>ypos := skipWhitespace inp (ypos st)\<rparr>) = Some (Some kv, st1)"
    by simp
  from yParseKeyValue_Some [OF this] skipWhitespace_mono [of "ypos st" inp] 4(1)
  show ?case
    by (simp add: isEOF_def diff_less_mono2)
qed

declare yamlDocument.simps [simp del]

text \<open>
  \<open>reconstructYAML\<close>.  Its \<^verbatim>\<open>try\<close> encloses the document loop as well; the loop raises
  nothing where \<^verbatim>\<open>process\<close> is defined.  The warning of an invalid result ends with the
  message of the error, which the model leaves out.
\<close>

definition initialYState :: YState where
  "initialYState =
     \<lparr>ypos = 0, yrepairs = [], yscore = 5, currentKey = None, inArray = False, yobj = [],
      protoSetter = True\<rparr>"

definition parseYAMLDocument :: "(jsstring \<Rightarrow> jsstring) \<Rightarrow> nat \<Rightarrow> jsstring \<Rightarrow> (jsstring \<times> YState) option" where
  "parseYAMLDocument numText n inp =
     (case yamlDocument n inp initialYState of
        None \<Rightarrow> None
      | Some st \<Rightarrow> Some (JSON_stringify numText (JObject (yobj st)), st))"

definition reconstructYAML :: "(jsstring \<Rightarrow> jsstring) \<Rightarrow> nat \<Rightarrow> jsstring \<Rightarrow> ReconstructResult option" where
  "reconstructYAML numText n inp =
     (case parseYAMLDocument numText n inp of
        None \<Rightarrow> None
      | Some (json, st) \<Rightarrow>
          Some
            (if json = [] then
               \<lparr>rc_success = False, rc_json = None, rc_repairs = yrepairs st,
                rc_warnings = [''Failed to reconstruct YAML''], rc_score = \<infinity>\<rparr>
             else
               (case JSON_parse json of
                  Some _ \<Rightarrow>
                    \<lparr>rc_success = True, rc_json = Some json, rc_repairs = yrepairs st,
                     rc_warnings = [], rc_score = enat (yscore st)\<rparr>
                | None \<Rightarrow>
                    \<lparr>rc_success = False, rc_json = None, rc_repairs = yrepairs st,
                     rc_warnings = [''YAML reconstruction failed''], rc_score = \<infinity>\<rparr>)))"

section \<open>The repair orchestrator (repairer.ts)\<close>

datatype Mode = JsonIsh | YamlIsh

record RepairResult =
  success :: bool
  object :: "json option"
  repairedText :: "jsstring option"
  warnings :: "string list"
  repairs :: "string list"
  score :: enat
  mode :: Mode

text \<open>
  The guarded block of each attempt: it yields a result when the reconstruction
  succeeded with a non-empty text that \<^verbatim>\<open>JSON.parse\<close> accepts, and falls through otherwise.
\<close>

definition attempt :: "Mode \<Rightarrow> ReconstructResult \<Rightarrow> RepairResult option" where
  "attempt m r =
     (if \<not> rc_success r then None
      else
        (case rc_json r of
           None \<Rightarrow> None
         | Some j \<Rightarrow>
             if j = [] then None
             else
               (case JSON_parse j of
                  None \<Rightarrow> None
                | Some parsed \<Rightarrow>
                    Some \<lparr>success = True, object = Some parsed, repairedText = Some j,
                          warnings = [], repairs = rc_repairs r, score = rc_score r, mode = m\<rparr>)))"

definition failedResult :: RepairResult where
  "failedResult =
     \<lparr>success = False, object = None, repairedText = None,
      warnings = [''All reconstruction attempts failed''], repairs = [], score = \<infinity>,
      mode = JsonIsh\<rparr>"

definition repairObjectCandidate :: "(jsstring \<Rightarrow> jsstring) \<Rightarrow> nat \<Rightarrow> jsstring \<Rightarrow> RepairResult option" where
  "repairObjectCandidate numText n raw =
     (case reconstructJSON n raw of
        None \<Rightarrow> None
      | Some reconstructResult \<Rightarrow>
          (case attempt JsonIsh reconstructResult of
             Some res \<Rightarrow> Some res
           | None \<Rightarrow>
               (case reconstructYAML numText n raw of
                  None \<Rightarrow> None
                | Some yamlReconstructResult \<Rightarrow>
                    (case attempt YamlIsh yamlReconstructResult of
                       Some res \<Rightarrow> Some res
                     | None \<Rightarrow> Some failedResult))))"

section \<open>The pipeline (preprocessor.ts, parser.ts, index.ts)\<close>

fun replaceCRLF :: "jsstring \<Rightarrow> jsstring" where
  "replaceCRLF [] = []"
| "replaceCRLF [c] = [c]"
| "replaceCRLF (c # d # cs) =
     (if c = 13 \<and> d = 10 then 10 # replaceCRLF cs else c # replaceCRLF (d # cs))"

definition preprocess :: "jsstring \<Rightarrow> jsstring" where
  "preprocess input = map (\<lambda>c. if c = 13 then 10 else c) (replaceCRLF input)"

record ObjectBlock =
  ob_object :: json
  ob_raw :: jsstring
  ob_repairedText :: jsstring
  ob_warnings :: "string list"
  ob_repairs :: "string list"
  ob_score :: enat
  ob_winningMode :: Mode

datatype RawBlock = RawText jsstring | RawObject ObjectBlock

text \<open>The loop of \<open>parseRaw\<close> over the segmented blocks; \<open>result\<close> is the list built so far.\<close>

fun repairBlocks :: "(jsstring \<Rightarrow> jsstring) \<Rightarrow> nat \<Rightarrow> SegmentedBlock list \<Rightarrow> RawBlock list
    \<Rightarrow> RawBlock list option" where
  "repairBlocks numText n [] result = Some result"
| "repairBlocks numText n (TextBlock t # bs) result =
     repairBlocks numText n bs (result @ [RawText t])"
| "repairBlocks numText n (ObjectCandidate raw # bs) result =
     (case repairObjectCandidate numText n raw of
        None \<Rightarrow> None
      | Some repaired \<Rightarrow>
          (case (if success repaired then object repaired else None) of
             Some obj \<Rightarrow>
               repairBlocks numText n bs
                 (result @ [RawObject
                    \<lparr>ob_object = obj, ob_raw = raw,
                     ob_repairedText = (case repairedText repaired of None \<Rightarrow> [] | Some t \<Rightarrow> t),
                     ob_warnings = warnings repaired, ob_repairs = repairs repaired,
                     ob_score = score repaired, ob_winningMode = mode repaired\<rparr>])
           | None \<Rightarrow> repairBlocks numText n bs result))"

definition parseRaw :: "(jsstring \<Rightarrow> jsstring) \<Rightarrow> nat \<Rightarrow> jsstring \<Rightarrow> RawBlock list option" where
  "parseRaw numText n input = repairBlocks numText n (segment (preprocess input)) []"

definition objectBlocksOf :: "RawBlock list \<Rightarrow> ObjectBlock list" where
  \<comment> \<open>\<^verbatim>\<open>rawBlocks.filter(block => block.type === "object")\<close>\<close>
  "objectBlocksOf rawBlocks =
     List.map_filter (\<lambda>b. case b of RawObject ob \<Rightarrow> Some ob | RawText _ \<Rightarrow> None) rawBlocks"

definition parseJson :: "(jsstring \<Rightarrow> jsstring) \<Rightarrow> nat \<Rightarrow> jsstring \<Rightarrow> json option" where
  "parseJson numText n input =
     (case parseRaw numText n input of
        None \<Rightarrow> None
      | Some rawBlocks \<Rightarrow>
          (case objectBlocksOf rawBlocks of
             [] \<Rightarrow> Some JNull
           | [ob] \<Rightarrow> Some (ob_object ob)
           | ob # ob' # obs \<Rightarrow> Some (JArray (map ob_object (ob # ob' # obs)))))"

section \<open>The legacy tokenizer's string reader (tokenizer.ts)\<close>

text \<open>
  \<open>Tokenizer.readString\<close>, on the input after the opening quote: the value read and the
  input left.  After a backslash, \<open>n\<close>, \<open>t\<close> and \<open>r\<close> are decoded, any other character
  stands for itself; a backslash at the end of the input appends the text of
  \<^verbatim>\<open>undefined\<close>.
\<close>

fun readStringLoop :: "jschar \<Rightarrow> jsstring \<Rightarrow> jsstring \<Rightarrow> jsstring \<times> jsstring" where
  "readStringLoop quote [] val = (val, [])"
| "readStringLoop quote [c] val =
     (if c = quote then (val, [])
      else if c = 92 then (val @ js ''undefined'', [])
      else (val @ [c], []))"
| "readStringLoop quote (c # e # cs) val =
     (if c = quote then (val, e # cs)
      else if c = 92 then
        readStringLoop quote cs
          (val @ [if e = 110 then 10 else if e = 116 then 9 else if e = 114 then 13 else e])
      else readStringLoop quote (e # cs) (val @ [c]))"

definition readString :: "jschar \<Rightarrow> jsstring \<Rightarrow> nat \<Rightarrow> jsstring" where
  "readString quote inp pos = fst (readStringLoop quote (drop (pos + 1) inp) [])"

section \<open>The claims\<close>

text \<open>
  C4.  At a double quote the soft lexer yields a STRING candidate of cost 0, but its value
  does not apply the standard escapes: the character after a backslash is appended as it
  is.  On the six characters \<^verbatim>\<open>"a\nb"\<close> (backslash, then the letter n) the value is
  \<open>anb\<close>, not \<open>a\<close>, line feed, \<open>b\<close>.  The reader of the legacy tokenizer decodes the same
  input to the line feed.
\<close>

theorem C4_escape_letter_kept:
  "nextTokenCandidates (js ''\"a'' @ [92] @ js ''nb\"'') 0 = [mkTok STRING (js ''anb'') 6 0 None]
   \<and> readString 34 (js ''\"a'' @ [92] @ js ''nb\"'') 0 = [97, 10, 98]"
  by code_simp

text \<open>
  C7.  \<open>repair\<close> applied to the span \<^verbatim>\<open>{ name: Keith\n btw I love YAML\n role: CTO }\<close>
  succeeds, but through the YAML reconstructor, and the object has the keys \<open>name\<close> and
  \<open>role\<close> only: the line without a colon is dropped, not bound to \<^verbatim>\<open>null\<close>.  The JSON
  reconstructor takes the unquoted value \<open>Keith\<close> up to the next colon, across both line
  breaks, and its text does not decode.
\<close>

theorem C7_stray_line_dropped:
  "repairObjectCandidate numText 30 (js ''{ name: Keith\<newline> btw I love YAML\<newline> role: CTO }'') =
     Some \<lparr>success = True,
           object = Some (JObject [(js ''name'', JString (js ''Keith'')),
                                   (js ''role'', JString (js ''CTO''))]),
           repairedText = Some (js ''{\<newline>  \"name\": \"Keith\",\<newline>  \"role\": \"CTO\"\<newline>}''),
           warnings = [],
           repairs = [''converted YAML key-value'', ''converted YAML key-value''],
           score = 7, mode = YamlIsh\<rparr>"
  by code_simp

lemma json_text_of_stray_line_span:
  "parseObject 30 (js ''{ name: Keith\<newline> btw I love YAML\<newline> role: CTO }'')
      \<lparr>rpos = 0, rrepairs = [], rscore = 0\<rparr> =
     Some (Some (js ''{\"name\": \"Keith\<newline> btw I love YAML\<newline> role\",,\"CTO\": null}''),
           \<lparr>rpos = 43,
            rrepairs = [''quoted bare key'', ''quoted bare value'', ''added missing comma'',
                        ''added missing comma'', ''quoted bare key'',
                        ''added missing colon and null value''],
            rscore = 11\<rparr>)"
  by code_simp

text \<open>
  C8.  \<open>repair\<close> applied to the span \<^verbatim>\<open>items:\n - one\n  - two\n    - three\<close> succeeds and
  decodes to the object whose only key \<open>items\<close> is bound to the flat array of the three
  strings: the items at growing indentation all go to the current key.  The JSON
  reconstructor fails on the span (it does not start with a brace), so the result is the
  one of the YAML reconstructor.
\<close>

theorem C8_ragged_yaml_list:
  "repairObjectCandidate numText 1 (js ''items:\<newline> - one\<newline>  - two\<newline>    - three'') =
     Some \<lparr>success = True,
           object = Some (JObject [(js ''items'',
                      JArray [JString (js ''one''), JString (js ''two''), JString (js ''three'')])]),
           repairedText = Some (js ''{\<newline>  \"items\": [\<newline>    \"one\",\<newline>    \"two\",\<newline>    \"three\"\<newline>  ]\<newline>}''),
           warnings = [],
           repairs = [''converted YAML key-value'', ''added list item'', ''added list item'',
                      ''added list item''],
           score = 9, mode = YamlIsh\<rparr>"
  by code_simp

subsection \<open>The array loop of the JSON reconstructor on a token that starts no value\<close>

lemma lex_bracket_span:
  "nextTokenCandidates (js ''[:]'') 0 = [mkTok BRACKET_OPEN (js ''['') 1 0 None]"
  "nextTokenCandidates (js ''[:]'') (Suc 0) = [mkTok COLON (js '':'') 2 0 None]"
  by code_simp+

lemma skipWhitespace_bracket_span: "skipWhitespace (js ''[:]'') (Suc 0) = Suc 0"
  by code_simp

lemma parseValue_at_colon:
  assumes "rpos st = 1"
  shows "parseValue (Suc n) (js ''[:]'') st = Some (js ''null'', st)"
  using assms by (simp add: lex_bracket_span mkTok_def)

lemma parseArrayLoop_bracket_span:
  "rpos st = 1 \<Longrightarrow> parseArrayLoop n (js ''[:]'') parts needsComma st = None"
proof (induction n arbitrary: parts needsComma st)
  case 0
  show ?case by simp
next
  case (Suc n)
  have p: "\<not> peekType (js ''[:]'') 1 BRACKET_CLOSE" "consume (js ''[:]'') 1 COMMA = (False, 1)"
    by (simp_all add: peekType_def consume_def lex_bracket_span mkTok_def)
  have e: "\<not> isEOF (js ''[:]'') 1"
    by (simp add: isEOF_def)
  define st2 where "st2 = (if needsComma then (addRepair ''added missing comma'' 1 st)\<lparr>rpos := 1\<rparr>
      else st\<lparr>rpos := 1\<rparr>)"
  define parts2 where "parts2 = (if needsComma then parts @ [js '',''] else parts)"
  have r: "rpos st2 = 1" by (simp add: st2_def)
  have step: "parseArrayLoop (Suc n) (js ''[:]'') parts needsComma st =
      (case parseValue n (js ''[:]'') st2 of
         None \<Rightarrow> None
       | Some (v, st3) \<Rightarrow> parseArrayLoop n (js ''[:]'') (parts2 @ [v]) True st3)"
    using Suc.prems p e
    by (cases needsComma)
      (simp_all add: skipWhitespace_bracket_span st2_def parts2_def cong: option.case_cong)
  show ?case
  proof (cases n)
    case 0
    with step show ?thesis by simp
  next
    case (Suc m)
    with step parseValue_at_colon [OF r, of m] Suc.IH [OF r] show ?thesis by simp
  qed
qed

lemma reconstructJSON_bracket_span: "reconstructJSON n (js ''[:]'') = None"
proof -
  have s: "skipWhitespace (js ''[:]'') 0 = 0" by code_simp
  have c: "consume (js ''[:]'') 0 BRACKET_OPEN = (True, 1)"
    by (simp add: peekType_def consume_def consumeBest_def lex_bracket_span mkTok_def)
  have "parseArray n (js ''[:]'') \<lparr>rpos = 0, rrepairs = [], rscore = 0\<rparr> = None"
    by (cases n) (simp_all add: c parseArrayLoop_bracket_span)
  then show ?thesis
    by (simp add: reconstructJSON_def s lex_bracket_span mkTok_def)
qed

text \<open>
  C9.  Every candidate of the soft lexer ends after the cursor and the list is not empty
  before the end of the input (\<open>nextTokenCandidates_pos\<close>, \<open>nextTokenCandidates_nonempty\<close>),
  so \<open>consumeBest\<close> advances.  A scan can still fail to terminate: in the loop of
  \<open>parseArray\<close> a token that starts no value yields \<^verbatim>\<open>null\<close> without being consumed, and
  the loop does not skip it, as the loop of \<open>parseObject\<close> does.  On the span \<^verbatim>\<open>[:]\<close> the
  JSON reconstructor reaches every bound on its steps, and so does the pipeline.
\<close>

theorem C9_bracket_span_diverges:
  "\<forall>n. reconstructJSON n (js ''[:]'') = None \<and> parseJson numText n (js ''[:]'') = None"
proof
  fix n
  have "segment (preprocess (js ''[:]'')) = [ObjectCandidate (js ''[:]'')]"
    by code_simp
  then have "parseJson numText n (js ''[:]'') = None"
    by (simp add: parseJson_def parseRaw_def repairObjectCandidate_def reconstructJSON_bracket_span)
  with reconstructJSON_bracket_span
  show "reconstructJSON n (js ''[:]'') = None \<and> parseJson numText n (js ''[:]'') = None"
    by simp
qed

subsection \<open>The fallback order of the orchestrator\<close>

text \<open>
  The reading of the specification: a reconstruction \<^emph>\<open>decodes\<close> when it completed with a
  text and the strict decoder accepts that text.
\<close>

definition decodesTo :: "ReconstructResult \<Rightarrow> jsstring \<Rightarrow> json \<Rightarrow> bool" where
  "decodesTo r j v \<longleftrightarrow> rc_success r \<and> rc_json r = Some j \<and> JSON_parse j = Some v"

definition decodes :: "ReconstructResult \<Rightarrow> bool" where
  "decodes r \<longleftrightarrow>
     rc_success r \<and> (case rc_json r of None \<Rightarrow> False | Some j \<Rightarrow> JSON_parse j \<noteq> None)"

definition repaired :: "Mode \<Rightarrow> ReconstructResult \<Rightarrow> jsstring \<Rightarrow> json \<Rightarrow> RepairResult" where
  "repaired m r j v =
     \<lparr>success = True, object = Some v, repairedText = Some j, warnings = [],
      repairs = rc_repairs r, score = rc_score r, mode = m\<rparr>"

lemma JSON_parse_empty: "JSON_parse [] = None"
  by code_simp

lemma attempt_decodesTo:
  "decodesTo r j v \<Longrightarrow> attempt m r = Some (repaired m r j v)"
  using JSON_parse_empty by (auto simp: decodesTo_def attempt_def repaired_def)

lemma attempt_not_decodes:
  "\<not> decodes r \<Longrightarrow> attempt m r = None"
  by (auto simp: decodes_def attempt_def split: option.splits)

text \<open>
  Once the JSON reconstructor has returned \<open>rj\<close>: when \<open>rj\<close> decodes, the orchestrator
  returns it with mode json-ish; otherwise the YAML reconstructor runs, and when its result
  decodes the orchestrator returns that with mode yaml-ish; when neither decodes the
  orchestrator returns a result with \<open>success = False\<close>, score \<open>\<infinity>\<close> and a warning.
\<close>

lemma repairObjectCandidate_fallback_order:
  assumes "reconstructJSON n raw = Some rj"
  shows "(\<forall>j v. decodesTo rj j v \<longrightarrow>
            repairObjectCandidate numText n raw = Some (repaired JsonIsh rj j v))
       \<and> (\<not> decodes rj \<longrightarrow>
            (\<forall>ry. reconstructYAML numText n raw = Some ry \<longrightarrow>
               (\<forall>j v. decodesTo ry j v \<longrightarrow>
                  repairObjectCandidate numText n raw = Some (repaired YamlIsh ry j v))
             \<and> (\<not> decodes ry \<longrightarrow>
                  (\<exists>res. repairObjectCandidate numText n raw = Some res \<and> \<not> success res
                     \<and> object res = None \<and> score res = \<infinity> \<and> warnings res \<noteq> []))))"
proof (intro conjI allI impI)
  fix j v
  assume "decodesTo rj j v"
  from attempt_decodesTo [OF this, of JsonIsh] assms
  show "repairObjectCandidate numText n raw = Some (repaired JsonIsh rj j v)"
    by (simp add: repairObjectCandidate_def)
next
  fix ry j v
  assume "\<not> decodes rj" "reconstructYAML numText n raw = Some ry" "decodesTo ry j v"
  with attempt_not_decodes [of rj JsonIsh] attempt_decodesTo [of ry j v YamlIsh] assms
  show "repairObjectCandidate numText n raw = Some (repaired YamlIsh ry j v)"
    by (simp add: repairObjectCandidate_def)
next
  fix ry
  assume "\<not> decodes rj" "reconstructYAML numText n raw = Some ry" "\<not> decodes ry"
  with attempt_not_decodes [of rj JsonIsh] attempt_not_decodes [of ry YamlIsh] assms
  have "repairObjectCandidate numText n raw = Some failedResult"
    by (simp add: repairObjectCandidate_def)
  then show "\<exists>res. repairObjectCandidate numText n raw = Some res \<and> \<not> success res
      \<and> object res = None \<and> score res = \<infinity> \<and> warnings res \<noteq> []"
    by (simp add: failedResult_def)
qed

text \<open>
  C2.  The orchestrator does not return for every raw span.  It calls the JSON
  reconstructor first and outside any guard, and on the span \<^verbatim>\<open>[:]\<close> that call never
  leaves the loop of \<open>parseArray\<close> (\<open>reconstructJSON_bracket_span\<close>): whatever the bound on
  the steps, the orchestrator returns nothing, neither a repaired object nor the failed
  result.
\<close>

theorem C2_orchestrator_diverges:
  "repairObjectCandidate numText n (js ''[:]'') = None"
  by (simp add: repairObjectCandidate_def reconstructJSON_bracket_span)

subsection \<open>The projection law\<close>

text \<open>
  The reading of the specification: the number of ObjectBlocks of a RawBlock sequence, the
  objects of its ObjectBlocks in emitted order, and the json projection that the law
  prescribes from the two.
\<close>

primrec countObjectBlocks :: "RawBlock list \<Rightarrow> nat" where
  "countObjectBlocks [] = 0"
| "countObjectBlocks (b # bs) =
     (case b of RawText _ \<Rightarrow> countObjectBlocks bs | RawObject _ \<Rightarrow> Suc (countObjectBlocks bs))"

primrec objectsInOrder :: "RawBlock list \<Rightarrow> json list" where
  "objectsInOrder [] = []"
| "objectsInOrder (b # bs) =
     (case b of RawText _ \<Rightarrow> objectsInOrder bs | RawObject ob \<Rightarrow> ob_object ob # objectsInOrder bs)"

definition jsonProjection :: "RawBlock list \<Rightarrow> json" where
  "jsonProjection rawBlocks =
     (if countObjectBlocks rawBlocks = 0 then JNull
      else if countObjectBlocks rawBlocks = 1 then hd (objectsInOrder rawBlocks)
      else JArray (objectsInOrder rawBlocks))"

lemma objectBlocksOf_Cons:
  "objectBlocksOf (b # bs) =
     (case b of RawText _ \<Rightarrow> objectBlocksOf bs | RawObject ob \<Rightarrow> ob # objectBlocksOf bs)"
  by (cases b) (simp_all add: objectBlocksOf_def List.map_filter_simps)

lemma objectBlocksOf_Nil: "objectBlocksOf [] = []"
  by (simp add: objectBlocksOf_def List.map_filter_simps)

lemma countObjectBlocks_length: "countObjectBlocks bs = length (objectBlocksOf bs)"
  by (induction bs) (simp_all add: objectBlocksOf_Nil objectBlocksOf_Cons split: RawBlock.split)

lemma objectsInOrder_map: "objectsInOrder bs = map ob_object (objectBlocksOf bs)"
  by (induction bs) (simp_all add: objectBlocksOf_Nil objectBlocksOf_Cons split: RawBlock.split)

text \<open>
  C3.  \<open>parseJson\<close> is the json projection of the RawBlock sequence of \<open>parseRaw\<close>: \<^verbatim>\<open>null\<close>
  for no ObjectBlock, the object of the block for exactly one, the array of all the objects
  in emitted order for more than one; it returns whenever \<open>parseRaw\<close> does.
\<close>

theorem C3_projection_law:
  "parseJson numText n input = map_option jsonProjection (parseRaw numText n input)"
proof (cases "parseRaw numText n input")
  case None
  then show ?thesis by (simp add: parseJson_def)
next
  case (Some rawBlocks)
  show ?thesis
  proof (cases "objectBlocksOf rawBlocks")
    case Nil
    with Some show ?thesis
      by (simp add: parseJson_def jsonProjection_def countObjectBlocks_length)
  next
    case (Cons ob obs)
    with Some show ?thesis
      by (cases obs)
        (simp_all add: parseJson_def jsonProjection_def countObjectBlocks_length objectsInOrder_map)
  qed
qed

text \<open>Instances with no, one and two ObjectBlocks.\<close>

theorem C3_projection_law_witness:
  "parseJson (\<lambda>s. s) 5 (js ''hi'') = Some JNull
   \<and> parseJson (\<lambda>s. s) 5 (js ''{\"a\":1}'') = Some (JObject [(js ''a'', JNumber (js ''1''))])
   \<and> parseJson (\<lambda>s. s) 5 (js ''{\"a\":1}x{\"b\":2}'') =
       Some (JArray [JObject [(js ''a'', JNumber (js ''1''))], JObject [(js ''b'', JNumber (js ''2''))]])"
proof (intro conjI)
  have "map_option jsonProjection (parseRaw (\<lambda>s. s) 5 (js ''hi'')) = Some JNull"
    by code_simp
  then show "parseJson (\<lambda>s. s) 5 (js ''hi'') = Some JNull"
    by (simp only: C3_projection_law)
next
  have "map_option jsonProjection (parseRaw (\<lambda>s. s) 5 (js ''{\"a\":1}'')) =
      Some (JObject [(js ''a'', JNumber (js ''1''))])"
    by code_simp
  then show "parseJson (\<lambda>s. s) 5 (js ''{\"a\":1}'') = Some (JObject [(js ''a'', JNumber (js ''1''))])"
    by (simp only: C3_projection_law)
next
  have "map_option jsonProjection (parseRaw (\<lambda>s. s) 5 (js ''{\"a\":1}x{\"b\":2}'')) =
      Some (JArray [JObject [(js ''a'', JNumber (js ''1''))], JObject [(js ''b'', JNumber (js ''2''))]])"
    by code_simp
  then show "parseJson (\<lambda>s. s) 5 (js ''{\"a\":1}x{\"b\":2}'') =
      Some (JArray [JObject [(js ''a'', JNumber (js ''1''))], JObject [(js ''b'', JNumber (js ''2''))]])"
    by (simp only: C3_projection_law)
qed

subsection \<open>The type of a candidate tells which lexer rule produced it\<close>

definition isPunct :: "TokType \<Rightarrow> bool" where
  "isPunct t \<longleftrightarrow>
     t \<in> {BRACE_OPEN, BRACE_CLOSE, BRACKET_OPEN, BRACKET_CLOSE, COLON, COMMA, DASH}"

lemma tryFence_type:
  "c \<in> set (tryFence inp pos) \<Longrightarrow> ttype c \<in> {FENCE_JSON, FENCE_YAML, FENCE_END}"
  by (auto simp: tryFence_def mkTok_def split: if_splits)

lemma scanQuoted_type: "c \<in> set (scanQuoted q sc cs e v p) \<Longrightarrow> ttype c = STRING"
proof (induction cs arbitrary: e v p)
  case Nil
  then show ?case by simp
next
  case (Cons a cs)
  show ?case
  proof (cases "e \<or> a = 92 \<or> a \<noteq> q")
    case True
    with Cons.prems obtain e' v' where "c \<in> set (scanQuoted q sc cs e' v' (p + 1))"
      by (auto split: if_split_asm)
    from Cons.IH [OF this] show ?thesis .
  next
    case False
    with Cons.prems show ?thesis by (simp add: mkTok_def)
  qed
qed

lemma tryString_type:
  assumes "c \<in> set (tryString inp pos)"
  shows "ttype c = STRING"
proof (cases "drop pos inp")
  case Nil
  with assms show ?thesis by (simp add: tryString_def)
next
  case (Cons ch rest)
  from assms have "c \<in> set (tryString inp pos)" .
  then consider
    (quoted) sc where "c \<in> set (scanQuoted ch sc rest False [] (pos + 1))"
    | (uquote) v where
      "c = mkTok STRING v (pos + 1 + length v + 1) 2 (Some ''normalized unicode quotes'')"
    unfolding tryString_def Cons list.case
    by (auto split: if_split_asm)
  then show ?thesis
  proof cases
    case quoted
    from scanQuoted_type [OF this] show ?thesis .
  next
    case uquote
    then show ?thesis by (simp add: mkTok_def)
  qed
qed

lemma tryNumber_type:
  assumes "c \<in> set (tryNumber inp pos)"
  shows "ttype c = NUMBER"
proof (cases "drop pos inp")
  case Nil
  with assms show ?thesis by (simp add: tryNumber_def)
next
  case (Cons ch rest)
  define sign where "sign = (if ch = 45 then [ch] else [])"
  define r1 where "r1 = (if ch = 45 then rest else ch # rest)"
  define ds where "ds = takeWhile isDigit r1"
  from assms have "c \<in> set (tryNumber inp pos)" .
  then have "c = mkTok NUMBER (sign @ ds) (pos + length sign + length ds) 0 None
     \<or> (\<exists>r2. drop (length ds) r1 = 46 # r2
          \<and> c = mkTok NUMBER (sign @ ds @ [46] @ takeWhile isDigit r2)
                  (pos + length sign + length ds + 1 + length (takeWhile isDigit r2)) 0 None)"
    unfolding tryNumber_def Cons list.case
    by (auto simp: sign_def r1_def ds_def split: if_splits list.splits)
  then show ?thesis by (auto simp: mkTok_def)
qed

lemma tryKeyword_type: "c \<in> set (tryKeyword inp pos) \<Longrightarrow> ttype c \<in> {BOOLEAN, NULL}"
  by (auto simp: tryKeyword_def mkTok_def split: if_splits)

lemma tryBareWord_type:
  assumes "c \<in> set (tryBareWord inp pos)"
  shows "ttype c = BARE_WORD"
proof (cases "drop pos inp")
  case Nil
  with assms show ?thesis by (simp add: tryBareWord_def)
next
  case (Cons ch rest)
  with assms show ?thesis
    by (simp add: tryBareWord_def mkTok_def split: if_splits)
qed

lemma tryWhitespace_type:
  assumes "c \<in> set (tryWhitespace inp pos)"
  shows "(ttype c = NEWLINE \<or> ttype c = WHITESPACE) \<and> pos < length inp \<and> isSpace (inp ! pos)"
proof (cases "drop pos inp")
  case Nil
  with assms show ?thesis by (simp add: tryWhitespace_def)
next
  case (Cons ch rest)
  from drop_Cons_length [OF Cons] have l: "pos < length inp" by simp
  then have "inp ! pos = hd (drop pos inp)"
    by (simp add: hd_drop_conv_nth)
  with Cons have "inp ! pos = ch" by simp
  with assms Cons l show ?thesis
    by (simp add: tryWhitespace_def mkTok_def split: if_splits)
qed

lemma tryTextChar_type: "c \<in> set (tryTextChar inp pos) \<Longrightarrow> ttype c = TEXT"
  by (simp add: tryTextChar_def mkTok_def)

lemma punctMap_isPunct: "punctMap ch = Some t \<Longrightarrow> isPunct t"
  by (auto simp: punctMap_def isPunct_def split: if_splits)

lemma tryPunctuation_type:
  assumes "c \<in> set (tryPunctuation inp pos)"
  shows "pos < length inp \<and> punctMap (inp ! pos) = Some (ttype c) \<and> tvalue c = [inp ! pos]"
proof (cases "drop pos inp")
  case Nil
  with assms show ?thesis by (simp add: tryPunctuation_def)
next
  case (Cons ch rest)
  from drop_Cons_length [OF Cons] have l: "pos < length inp" by simp
  then have "inp ! pos = hd (drop pos inp)"
    by (simp add: hd_drop_conv_nth)
  with Cons have "inp ! pos = ch" by simp
  with assms Cons l show ?thesis
    by (auto simp: tryPunctuation_def mkTok_def split: option.splits)
qed

lemma punct_candidate:
  assumes "c \<in> set (nextTokenCandidates inp pos)" and "isPunct (ttype c)"
  shows "pos < length inp \<and> punctMap (inp ! pos) = Some (ttype c) \<and> tvalue c = [inp ! pos]"
proof -
  from assms(1) nextTokenCandidates_set [of inp pos]
  consider "c \<in> set (tryFence inp pos)" | "c \<in> set (tryString inp pos)"
    | "c \<in> set (tryNumber inp pos)" | "c \<in> set (tryKeyword inp pos)"
    | "c \<in> set (tryBareWord inp pos)" | "c \<in> set (tryPunctuation inp pos)"
    | "c \<in> set (tryWhitespace inp pos)" | "c \<in> set (tryTextChar inp pos)"
    by blast
  then show ?thesis
  proof cases
    case 6
    then show ?thesis by (rule tryPunctuation_type)
  next
    case 1
    from tryFence_type [OF this] assms(2) show ?thesis by (auto simp: isPunct_def)
  next
    case 2
    from tryString_type [OF this] assms(2) show ?thesis by (auto simp: isPunct_def)
  next
    case 3
    from tryNumber_type [OF this] assms(2) show ?thesis by (auto simp: isPunct_def)
  next
    case 4
    from tryKeyword_type [OF this] assms(2) show ?thesis by (auto simp: isPunct_def)
  next
    case 5
    from tryBareWord_type [OF this] assms(2) show ?thesis by (auto simp: isPunct_def)
  next
    case 7
    from tryWhitespace_type [OF this] assms(2) show ?thesis by (auto simp: isPunct_def)
  next
    case 8
    from tryTextChar_type [OF this] assms(2) show ?thesis by (auto simp: isPunct_def)
  qed
qed

lemma colon_candidate:
  assumes "c \<in> set (nextTokenCandidates inp pos)" and "ttype c = COLON"
  shows "tvalue c = [58]"
proof -
  from punct_candidate [OF assms(1)] assms(2) have "punctMap (inp ! pos) = Some COLON"
    and v: "tvalue c = [inp ! pos]"
    by (simp_all add: isPunct_def)
  then have "inp ! pos = 58"
    by (auto simp: punctMap_def split: if_splits)
  with v show ?thesis by simp
qed

lemma opener_candidate:
  assumes "c \<in> set (nextTokenCandidates inp pos)"
    and "ttype c = BRACE_OPEN \<or> ttype c = BRACKET_OPEN"
  shows "pos < length inp" and "inp ! pos = 123 \<or> inp ! pos = 91"
proof -
  from punct_candidate [OF assms(1)] assms(2)
  have l: "pos < length inp" and p: "punctMap (inp ! pos) = Some (ttype c)"
    by (auto simp: isPunct_def)
  from l show "pos < length inp" .
  from p assms(2) show "inp ! pos = 123 \<or> inp ! pos = 91"
    by (auto simp: punctMap_def split: if_splits)
qed

lemma candidate_rule:
  assumes "c \<in> set (nextTokenCandidates inp pos)"
  shows "ttype c \<in> {FENCE_JSON, FENCE_YAML, FENCE_END, STRING, NUMBER, BOOLEAN, NULL, BARE_WORD, TEXT}
       \<or> isPunct (ttype c)
       \<or> (ttype c = NEWLINE \<or> ttype c = WHITESPACE) \<and> pos < length inp \<and> isSpace (inp ! pos)"
proof -
  from assms(1) nextTokenCandidates_set [of inp pos]
  consider "c \<in> set (tryFence inp pos)" | "c \<in> set (tryString inp pos)"
    | "c \<in> set (tryNumber inp pos)" | "c \<in> set (tryKeyword inp pos)"
    | "c \<in> set (tryBareWord inp pos)" | "c \<in> set (tryPunctuation inp pos)"
    | "c \<in> set (tryWhitespace inp pos)" | "c \<in> set (tryTextChar inp pos)"
    by blast
  then show ?thesis
  proof cases
    case 1
    from tryFence_type [OF this] show ?thesis by auto
  next
    case 2
    from tryString_type [OF this] show ?thesis by simp
  next
    case 3
    from tryNumber_type [OF this] show ?thesis by simp
  next
    case 4
    from tryKeyword_type [OF this] show ?thesis by auto
  next
    case 5
    from tryBareWord_type [OF this] show ?thesis by simp
  next
    case 6
    from tryPunctuation_type [OF this] punctMap_isPunct show ?thesis by blast
  next
    case 7
    from tryWhitespace_type [OF this] show ?thesis by simp
  next
    case 8
    from tryTextChar_type [OF this] show ?thesis by simp
  qed
qed

lemma whitespace_candidate:
  assumes "c \<in> set (nextTokenCandidates inp pos)"
    and "ttype c = WHITESPACE \<or> ttype c = NEWLINE"
  shows "pos < length inp \<and> isSpace (inp ! pos)"
  using candidate_rule [OF assms(1)] assms(2) by (auto simp: isPunct_def)

subsection \<open>An opener that is never balanced\<close>

lemma nextTokenCandidates_opener:
  assumes "pos < length inp" and "inp ! pos = 123 \<or> inp ! pos = 91"
  shows "nextTokenCandidates inp pos =
     [mkTok (if inp ! pos = 123 then BRACE_OPEN else BRACKET_OPEN) [inp ! pos] (pos + 1) 0 None]"
proof -
  define ch where "ch = inp ! pos"
  define rest where "rest = drop (Suc pos) inp"
  from assms(1) have d: "drop pos inp = ch # rest"
    by (simp add: Cons_nth_drop_Suc ch_def rest_def)
  from assms(2) have c: "ch = 123 \<or> ch = 91"
    by (simp add: ch_def)
  have f: "tryFence inp pos = []"
    using c by (auto simp: tryFence_def peekAhead_def d js_def)
  have s: "tryString inp pos = []"
    using c by (auto simp: tryString_def d isUQuote_def)
  have n: "tryNumber inp pos = []"
    using c by (auto simp: tryNumber_def d isDigit_def)
  have k: "tryKeyword inp pos = []"
    using c by (auto simp: tryKeyword_def peekAhead_def d js_def)
  have "\<not> isWordStart ch"
    using c by (auto simp: isWordStart_def isAlpha_def)
  then have b: "tryBareWord inp pos = []"
    by (simp add: tryBareWord_def d)
  have w: "tryWhitespace inp pos = []"
    using c by (auto simp: tryWhitespace_def d isSpace_def)
  have p: "tryPunctuation inp pos =
     [mkTok (if ch = 123 then BRACE_OPEN else BRACKET_OPEN) [ch] (pos + 1) 0 None]"
    using c by (auto simp: tryPunctuation_def d punctMap_def)
  from assms(1) show ?thesis
    by (simp add: nextTokenCandidates_def isEOF_def f s n k b w p ch_def [symmetric])
qed

lemma opener_attempts:
  assumes "pos < length inp" and "inp ! pos = 123 \<or> inp ! pos = 91"
  shows "tryParseFencedJSON inp path pos = (None, pos)"
    and "tryParseFencedYAML inp path pos = (None, pos)"
    and "\<not> looksLikeYAMLKey inp pos"
    and "tryParseYAMLObject inp path pos = (None, pos)"
    and "looksLikeObjectStart inp pos"
proof -
  note c = nextTokenCandidates_opener [OF assms]
  show "tryParseFencedJSON inp path pos = (None, pos)"
    using assms(2) by (auto simp: tryParseFencedJSON_def c mkTok_def)
  show "tryParseFencedYAML inp path pos = (None, pos)"
    using assms(2) by (auto simp: tryParseFencedYAML_def c mkTok_def)
  have b: "consumeBest inp pos =
      (Some (mkTok (if inp ! pos = 123 then BRACE_OPEN else BRACKET_OPEN) [inp ! pos] (pos + 1) 0 None),
       pos + 1)"
    by (simp add: consumeBest_def c mkTok_def)
  show y: "\<not> looksLikeYAMLKey inp pos"
    using assms(2) by (auto simp: looksLikeYAMLKey_def b skipWhitespaceTokens.simps mkTok_def)
  then show "tryParseYAMLObject inp path pos = (None, pos)"
    by (simp add: tryParseYAMLObject_def)
  show "looksLikeObjectStart inp pos"
    using assms(2) by (auto simp: looksLikeObjectStart_def c mkTok_def)
qed

text \<open>
  C6.  At an opener whose structured candidate fails (the capture reaches the end of the
  input with a positive depth), no attempt yields a block and the text run is empty, so
  the document loop skips the opener: the blocks are unchanged, the opener goes into none
  of them, and the loop resumes at the next character.
\<close>

theorem C6_unbalanced_opener_skipped:
  assumes "position path < length inp"
    and "inp ! position path = 123 \<or> inp ! position path = 91"
    and "fst (tryParseJSONObject inp path (position path)) = None"
    and "\<not> isEOF inp tpos"
  shows "parseDocument inp path tpos =
     parseDocument inp (path\<lparr>position := position path + 1\<rparr>) (position path + 1)"
proof -
  note a = opener_attempts [OF assms(1,2)]
  have o: "tryParseObjectBlock inp path = (None, position path)"
    using assms(3) by (simp add: tryParseObjectBlock_def a List.map_filter_simps)
  have "captureText inp (position path) [] = ([], position path)"
    using a(5) by (simp add: captureText.simps)
  then have t: "parseTextBlock inp path = (None, position path)"
    by (simp add: parseTextBlock_def)
  from assms(4) o t show ?thesis
    by (subst parseDocument.simps) simp
qed

theorem C6_unbalanced_opener_skipped_witness:
  "parseDocument (js ''a { b'')
       \<lparr>blocks = [TextBlock (js ''a'')], pscore = 0, prepairs = [], position = 2\<rparr> 2 =
     parseDocument (js ''a { b'')
       \<lparr>blocks = [TextBlock (js ''a'')], pscore = 0, prepairs = [], position = 3\<rparr> 3
   \<and> parseDocument (js ''a { b'')
       \<lparr>blocks = [TextBlock (js ''a'')], pscore = 0, prepairs = [], position = 3\<rparr> 3 =
     \<lparr>blocks = [TextBlock (js ''a''), TextBlock (js ''b'')], pscore = 0, prepairs = [], position = 5\<rparr>"
proof
  let ?path = "\<lparr>blocks = [TextBlock (js ''a'')], pscore = 0, prepairs = [], position = 2\<rparr>"
  have h: "position ?path < length (js ''a { b'')"
    "js ''a { b'' ! position ?path = 123 \<or> js ''a { b'' ! position ?path = 91"
    "fst (tryParseJSONObject (js ''a { b'') ?path (position ?path)) = None"
    "\<not> isEOF (js ''a { b'') 2"
    by code_simp+
  from C6_unbalanced_opener_skipped [OF h]
  show "parseDocument (js ''a { b'') ?path 2 =
     parseDocument (js ''a { b'')
       \<lparr>blocks = [TextBlock (js ''a'')], pscore = 0, prepairs = [], position = 3\<rparr> 3"
    by simp
  show "parseDocument (js ''a { b'')
       \<lparr>blocks = [TextBlock (js ''a'')], pscore = 0, prepairs = [], position = 3\<rparr> 3 =
     \<lparr>blocks = [TextBlock (js ''a''), TextBlock (js ''b'')], pscore = 0, prepairs = [], position = 5\<rparr>"
    by code_simp
qed

text \<open>
  The segmenter on \<^verbatim>\<open>see { here\<close>: the opener is in neither block.
\<close>

theorem C6_opener_dropped:
  "segment (js ''see { here'') = [TextBlock (js ''see''), TextBlock (js ''here'')]"
  by code_simp

section \<open>The text of \<^verbatim>\<open>JSON.stringify\<close> decodes\<close>

text \<open>
  What the language guarantees of the text of a number: it is \<^verbatim>\<open>null\<close> (for a value that
  is no finite number) or a JSON number.
\<close>

definition numOk :: "(jsstring \<Rightarrow> jsstring) \<Rightarrow> bool" where
  "numOk numText \<longleftrightarrow>
     (\<forall>l. numText l = js ''null'' \<or> jsonNumber (numText l) = Some (numText l, []))"

text \<open>What follows a value in the text of \<^verbatim>\<open>JSON.stringify\<close>: nothing, a comma or a line feed.\<close>

definition followS :: "jsstring \<Rightarrow> bool" where
  "followS r = (case r of [] \<Rightarrow> True | c # _ \<Rightarrow> c = 44 \<or> c = 10)"

subsection \<open>A number followed by a delimiter\<close>

lemma take1_append:
  assumes "followS rest" and "x = 45 \<or> x = 48 \<or> x = 46 \<or> x = 101 \<or> x = 69 \<or> x = 43"
  shows "(take 1 (r @ rest) = [x]) = (take 1 r = [x])"
  using assms by (cases r; cases rest) (auto simp: followS_def)

lemma jsonDigits_append:
  assumes "followS rest"
  shows "jsonDigits (r @ rest) =
     (case jsonDigits r of None \<Rightarrow> None | Some (ds, r') \<Rightarrow> Some (ds, r' @ rest))"
proof -
  have nd: "rest = [] \<or> \<not> isDigit (hd rest)"
    using assms by (cases rest) (auto simp: followS_def isDigit_def)
  have t: "takeWhile isDigit (r @ rest) = takeWhile isDigit r"
  proof (cases "\<forall>x \<in> set r. isDigit x")
    case True
    then have e: "takeWhile isDigit r = r" by simp
    from True nd show ?thesis
      by (cases rest) (simp_all add: takeWhile_append2 takeWhile_tail e)
  next
    case False
    then show ?thesis
      by (metis takeWhile_append1)
  qed
  have d: "dropWhile isDigit (r @ rest) = dropWhile isDigit r @ rest"
  proof (cases "\<forall>x \<in> set r. isDigit x")
    case True
    then have e: "dropWhile isDigit r = []" by simp
    from True nd show ?thesis
      by (cases rest) (simp_all add: dropWhile_append2 e)
  next
    case False
    then show ?thesis
      by (metis dropWhile_append1)
  qed
  show ?thesis
    by (simp add: jsonDigits_def t d)
qed

text \<open>The stages of \<open>jsonNumber\<close> after the sign, named for the proofs.\<close>

definition expStage :: "jsstring \<Rightarrow> jsstring \<Rightarrow> (jsstring \<times> jsstring) option" where
  "expStage pre r2 =
     (if take 1 r2 = js ''e'' \<or> take 1 r2 = js ''E'' then
        (case (if take 1 (drop 1 r2) = js ''+'' \<or> take 1 (drop 1 r2) = js ''-''
               then (take 2 r2, drop 2 r2) else (take 1 r2, drop 1 r2)) of
           (ep, r3) \<Rightarrow>
             (case jsonDigits r3 of
                None \<Rightarrow> None
              | Some (es, r4) \<Rightarrow> Some (pre @ ep @ es, r4)))
      else Some (pre, r2))"

definition fracStage :: "jsstring \<Rightarrow> jsstring \<Rightarrow> (jsstring \<times> jsstring) option" where
  "fracStage pre r1 =
     (if take 1 r1 = js ''.''
      then (case jsonDigits (drop 1 r1) of
              None \<Rightarrow> None
            | Some (fs, r) \<Rightarrow> expStage (pre @ js ''.'' @ fs) r)
      else expStage pre r1)"

definition intStage :: "jsstring \<Rightarrow> jsstring \<Rightarrow> (jsstring \<times> jsstring) option" where
  "intStage sign r0 =
     (if take 1 r0 = js ''0'' then fracStage (sign @ js ''0'') (drop 1 r0)
      else (case jsonDigits r0 of None \<Rightarrow> None | Some (ip, r1) \<Rightarrow> fracStage (sign @ ip) r1))"

lemma jsonNumber_stages:
  "jsonNumber cs =
     (if take 1 cs = js ''-'' then intStage (js ''-'') (drop 1 cs) else intStage [] cs)"
proof -
  have e: "(if take 1 r2 = js ''e'' \<or> take 1 r2 = js ''E'' then
        (case (if take 1 (drop 1 r2) = js ''+'' \<or> take 1 (drop 1 r2) = js ''-''
               then (take 2 r2, drop 2 r2) else (take 1 r2, drop 1 r2)) of
           (ep, r3) \<Rightarrow>
             (case jsonDigits r3 of
                None \<Rightarrow> None
              | Some (es, r4) \<Rightarrow> Some (sign @ ip @ fp @ ep @ es, r4)))
      else Some (sign @ ip @ fp, r2)) = expStage (sign @ ip @ fp) r2" for sign ip fp r2
    unfolding expStage_def by (simp only: append_assoc)
  have f: "(case (if take 1 r1 = js ''.''
                      then (case jsonDigits (drop 1 r1) of
                              None \<Rightarrow> None
                            | Some (fs, r) \<Rightarrow> Some (js ''.'' @ fs, r))
                      else Some ([], r1)) of
                  None \<Rightarrow> None
                | Some (fp, r2) \<Rightarrow> expStage (sign @ ip @ fp) r2) = fracStage (sign @ ip) r1"
    for sign ip r1
  proof (cases "take 1 r1 = js ''.''")
    case True
    then show ?thesis
      by (cases "jsonDigits (drop 1 r1)") (auto simp only: fracStage_def simp_thms if_True option.case prod.case append_assoc)
  next
    case False
    then show ?thesis
      by (simp only: fracStage_def simp_thms if_False option.case prod.case append_Nil2)
  qed
  have i: "(case (if take 1 r0 = js ''0'' then Some (js ''0'', drop 1 r0) else jsonDigits r0) of
             None \<Rightarrow> None
           | Some (ip, r1) \<Rightarrow> fracStage (sign @ ip) r1) = intStage sign r0" for sign r0
  proof (cases "take 1 r0 = js ''0''")
    case True
    then show ?thesis
      by (simp only: intStage_def simp_thms if_True option.case prod.case)
  next
    case False
    then show ?thesis
      by (cases "jsonDigits r0") (auto simp only: intStage_def simp_thms if_False option.case prod.case)
  qed
  show ?thesis
    unfolding jsonNumber_def e f i
    by (cases "take 1 cs = js ''-''") (simp_all only: simp_thms if_True if_False prod.case)
qed

definition withRest :: "jsstring \<Rightarrow> (jsstring \<times> jsstring) option \<Rightarrow> (jsstring \<times> jsstring) option" where
  "withRest rest x = (case x of None \<Rightarrow> None | Some (l, r) \<Rightarrow> Some (l, r @ rest))"

lemma withRest_simps [simp]:
  "withRest rest None = None"
  "withRest rest (Some (l, r)) = Some (l, r @ rest)"
  by (simp_all add: withRest_def)

lemma jsonDigits_withRest: "followS rest \<Longrightarrow> jsonDigits (r @ rest) = withRest rest (jsonDigits r)"
  by (simp add: jsonDigits_append withRest_def)

lemma expStage_append:
  assumes "followS rest"
  shows "expStage pre (r2 @ rest) = withRest rest (expStage pre r2)"
proof (cases "take 1 r2 = [101] \<or> take 1 r2 = [69]")
  case False
  with take1_append [OF assms, of 101 r2] take1_append [OF assms, of 69 r2]
  show ?thesis
    by (simp add: expStage_def js_def)
next
  case True
  then obtain e r' where r2: "r2 = e # r'" and e: "e = 101 \<or> e = 69"
    by (cases r2) auto
  show ?thesis
  proof (cases "take 1 r' = [43] \<or> take 1 r' = [45]")
    case False
    with take1_append [OF assms, of 43 r'] take1_append [OF assms, of 45 r'] e
    show ?thesis
      by (auto simp: expStage_def js_def r2 jsonDigits_withRest [OF assms] withRest_def
          split: option.splits)
  next
    case True
    then obtain g r'' where r': "r' = g # r''" and g: "g = 43 \<or> g = 45"
      by (cases r') auto
    with e show ?thesis
      by (auto simp: expStage_def js_def r2 r' jsonDigits_withRest [OF assms] withRest_def
          split: option.splits)
  qed
qed

lemma fracStage_append:
  assumes "followS rest"
  shows "fracStage pre (r1 @ rest) = withRest rest (fracStage pre r1)"
proof (cases "take 1 r1 = [46]")
  case False
  with take1_append [OF assms, of 46 r1] show ?thesis
    by (simp add: fracStage_def js_def expStage_append [OF assms])
next
  case True
  then obtain r' where r1: "r1 = 46 # r'"
    by (cases r1) auto
  show ?thesis
    by (cases "jsonDigits r'")
      (auto simp: fracStage_def js_def r1 jsonDigits_withRest [OF assms] expStage_append [OF assms])
qed

lemma intStage_append:
  assumes "followS rest"
  shows "intStage sign (r0 @ rest) = withRest rest (intStage sign r0)"
proof (cases "take 1 r0 = [48]")
  case False
  with take1_append [OF assms, of 48 r0] show ?thesis
    by (cases "jsonDigits r0")
      (auto simp: intStage_def js_def jsonDigits_withRest [OF assms] fracStage_append [OF assms])
next
  case True
  then obtain r' where r0: "r0 = 48 # r'"
    by (cases r0) auto
  show ?thesis
    by (simp add: intStage_def js_def r0 fracStage_append [OF assms])
qed

lemma jsonNumber_append:
  assumes "followS rest"
  shows "jsonNumber (t @ rest) = withRest rest (jsonNumber t)"
proof (cases "take 1 t = [45]")
  case False
  with take1_append [OF assms, of 45 t] show ?thesis
    by (simp add: jsonNumber_stages js_def intStage_append [OF assms])
next
  case True
  then obtain r' where t: "t = 45 # r'"
    by (cases t) auto
  show ?thesis
    by (simp add: jsonNumber_stages js_def t intStage_append [OF assms])
qed

lemma jsonNumber_head:
  assumes "jsonNumber t = Some (l, r)"
  shows "\<exists>c t'. t = c # t' \<and> (c = 45 \<or> isDigit c)"
proof (cases t)
  case Nil
  with assms show ?thesis
    by (simp add: jsonNumber_def jsonDigits_def js_def)
next
  case (Cons c t')
  show ?thesis
  proof (cases "c = 45 \<or> c = 48")
    case True
    with Cons show ?thesis by (auto simp: isDigit_def)
  next
    case False
    with assms Cons have "jsonDigits t \<noteq> None"
      by (auto simp: jsonNumber_def js_def split: option.splits if_splits prod.splits)
    with Cons have "isDigit c"
      by (auto simp: jsonDigits_def split: if_splits)
    with Cons show ?thesis by simp
  qed
qed

subsection \<open>A quoted string\<close>

lemma hexVal_hexDigit: "0 \<le> d \<Longrightarrow> d < 16 \<Longrightarrow> hexVal (hexDigit d) = Some d"
  by (auto simp: hexVal_def hexDigit_def)

lemma uEscape_step: "\<exists>acc'. jsonString (uEscape c @ R) acc = jsonString R acc'"
proof -
  have h: "hexVal (hexDigit (x mod 16)) = Some (x mod 16)" for x :: int
    by (rule hexVal_hexDigit) simp_all
  have "hex4 (take 4 (drop 2 (uEscape c @ R))) \<noteq> None"
    by (simp add: uEscape_def hex4_def h)
  then obtain u where "hex4 (take 4 (drop 2 (uEscape c @ R))) = Some u" by blast
  then have "jsonString (uEscape c @ R) acc = jsonString R (acc @ [u])"
    by (subst jsonString.simps) (simp add: uEscape_def)
  then show ?thesis by blast
qed

lemma plain_step:
  "32 \<le> c \<Longrightarrow> c \<noteq> 34 \<Longrightarrow> c \<noteq> 92 \<Longrightarrow> jsonString (c # R) acc = jsonString R (acc @ [c])"
  by (subst jsonString.simps) simp

lemma simple_step:
  "simpleEscape e = Some x \<Longrightarrow> e \<noteq> 117 \<Longrightarrow> jsonString (92 # e # R) acc = jsonString R (acc @ [x])"
  by (subst jsonString.simps) simp

lemma escapeChar_step: "\<exists>acc'. jsonString (escapeChar c @ R) acc = jsonString R acc'"
proof -
  consider "c = 34" | "c = 92" | "c = 8" | "c = 12" | "c = 10" | "c = 13" | "c = 9"
    | "c < 32" "c \<notin> {8, 12, 10, 13, 9}" | "32 \<le> c" "c \<noteq> 34" "c \<noteq> 92"
    by force
  then show ?thesis
  proof cases
    case 8
    then have "escapeChar c = uEscape c"
      by (auto simp: escapeChar_def)
    with uEscape_step [of c R acc] show ?thesis by simp
  next
    case 9
    then have "escapeChar c = [c]"
      by (auto simp: escapeChar_def)
    with plain_step [OF 9, of R acc] show ?thesis by auto
  qed (use simple_step [of _ _ R acc] in \<open>auto simp: escapeChar_def simpleEscape_def\<close>)
qed

lemma quoteChars_decodes: "\<exists>u. jsonString (quoteChars s @ 34 # rest) acc = Some (u, rest)"
proof (induction s arbitrary: acc rule: quoteChars.induct)
  case 1
  show ?case by (subst jsonString.simps) simp
next
  case (2 c)
  have e: "\<exists>u. jsonString (34 # rest) a = Some (u, rest)" for a
    by (subst jsonString.simps) simp
  show ?case
  proof (cases "isHighSurrogate c \<or> isLowSurrogate c")
    case True
    with uEscape_step [of c "34 # rest" acc] e show ?thesis by auto
  next
    case False
    with escapeChar_step [of c "34 # rest" acc] e show ?thesis by auto
  qed
next
  case (3 c d cs)
  show ?case
  proof (cases "isHighSurrogate c \<and> isLowSurrogate d")
    case True
    then have "jsonString (c # d # quoteChars cs @ 34 # rest) acc =
        jsonString (quoteChars cs @ 34 # rest) ((acc @ [c]) @ [d])"
      by (simp add: plain_step isHighSurrogate_def isLowSurrogate_def)
    with True "3.IH"(1) [OF True, of "(acc @ [c]) @ [d]"] show ?thesis by simp
  next
    case False
    show ?thesis
    proof (cases "isHighSurrogate c \<or> isLowSurrogate c")
      case True
      from uEscape_step [of c "quoteChars (d # cs) @ 34 # rest" acc] obtain acc' where
        "jsonString (uEscape c @ quoteChars (d # cs) @ 34 # rest) acc =
           jsonString (quoteChars (d # cs) @ 34 # rest) acc'" by blast
      moreover from False True have "quoteChars (c # d # cs) = uEscape c @ quoteChars (d # cs)"
        by auto
      ultimately show ?thesis
        using "3.IH"(2) [OF False True, of acc'] by simp
    next
      case F: False
      from escapeChar_step [of c "quoteChars (d # cs) @ 34 # rest" acc] obtain acc' where
        "jsonString (escapeChar c @ quoteChars (d # cs) @ 34 # rest) acc =
           jsonString (quoteChars (d # cs) @ 34 # rest) acc'" by blast
      moreover from False F have "quoteChars (c # d # cs) = escapeChar c @ quoteChars (d # cs)"
        by auto
      ultimately show ?thesis
        using "3.IH"(3) [OF False F, of acc'] by simp
    qed
  qed
qed

subsection \<open>Values\<close>

text \<open>
  \<open>okText t\<close>: the text \<open>t\<close> starts with a character that is neither whitespace nor a
  closer, and the strict parser reads it as one value wherever a delimiter follows it.
\<close>

definition okText :: "jsstring \<Rightarrow> bool" where
  "okText t \<longleftrightarrow>
     (\<exists>c t'. t = c # t' \<and> \<not> isJsonWs c \<and> c \<noteq> 93 \<and> c \<noteq> 125) \<and>
     (\<forall>n rest. followS rest \<longrightarrow> length t \<le> n \<longrightarrow>
        (\<exists>v'. jsonValue n (t @ rest) = Some (v', rest)))"

lemma okText_head:
  assumes "okText t"
  obtains c t' where "t = c # t'" "\<not> isJsonWs c" "c \<noteq> 93" "c \<noteq> 125"
  using assms unfolding okText_def by blast

lemma okText_parse:
  assumes "okText t" and "followS rest" and "length t \<le> n"
  obtains v' where "jsonValue n (t @ rest) = Some (v', rest)"
  using assms unfolding okText_def by blast

lemma skipWs_over: "list_all isJsonWs w \<Longrightarrow> \<not> isJsonWs c \<Longrightarrow> skipWs (w @ c # r) = c # r"
  by (induction w) (simp_all add: skipWs_def)

lemma skipWs_stop: "\<not> isJsonWs c \<Longrightarrow> skipWs (c # r) = c # r"
  by (simp add: skipWs_def)

lemma joinWith_head:
  assumes "ts \<noteq> []" and "\<forall>t \<in> set ts. okText t"
  obtains c r where "joinWith sep ts = c # r" "\<not> isJsonWs c" "c \<noteq> 93" "c \<noteq> 125"
proof -
  from assms obtain t ts' where ts: "ts = t # ts'" and "okText t"
    by (cases ts) auto
  then obtain c t' where t: "t = c # t'" "\<not> isJsonWs c" "c \<noteq> 93" "c \<noteq> 125"
    by (auto elim: okText_head)
  have "joinWith sep ts = c # (t' @ (case ts' of [] \<Rightarrow> [] | y # ys \<Rightarrow> sep @ joinWith sep ts'))"
    by (cases ts') (simp_all add: ts t)
  with t that show ?thesis by blast
qed

lemma isJsonWs_simps [simp]:
  "isJsonWs 10" "isJsonWs 32" "\<not> isJsonWs 44" "\<not> isJsonWs 93" "\<not> isJsonWs 125"
  "\<not> isJsonWs 58" "\<not> isJsonWs 34" "\<not> isJsonWs 91" "\<not> isJsonWs 123"
  by (simp_all add: isJsonWs_def)

lemma followS_simps [simp]: "followS []" "followS (44 # r)" "followS (10 # r)"
  by (simp_all add: followS_def)

lemma elements_decode:
  assumes "list_all isJsonWs ind'" and "list_all isJsonWs ind"
  shows "ts \<noteq> [] \<Longrightarrow> \<forall>t \<in> set ts. okText t \<Longrightarrow> length (joinWith (44 # 10 # ind') ts) < n \<Longrightarrow>
      \<exists>v'. jsonElements n (joinWith (44 # 10 # ind') ts @ 10 # ind @ 93 # rest) acc = Some (v', rest)"
proof (induction ts arbitrary: n acc)
  case Nil
  then show ?case by simp
next
  case (Cons t ts)
  from Cons.prems(3) obtain m where n: "n = Suc m" by (cases n) simp_all
  from Cons.prems(2) have ok: "okText t" by simp
  show ?case
  proof (cases ts)
    case Nil
    with Cons.prems(3) n have l: "length t \<le> m" by simp
    from okText_parse [OF ok _ l, of "10 # ind @ 93 # rest"] obtain v' where
      v: "jsonValue m (t @ 10 # ind @ 93 # rest) = Some (v', 10 # ind @ 93 # rest)"
      by auto
    have "skipWs (10 # ind @ 93 # rest) = 93 # rest"
      using skipWs_over [of "10 # ind" 93 rest] assms(2) by simp
    with v Nil show ?thesis
      unfolding n by (simp add: js_def)
  next
    case (Cons u us)
    let ?sep = "44 # 10 # ind'"
    let ?J = "joinWith ?sep ts"
    let ?tl = "10 # ind @ 93 # rest"
    from Cons Cons.prems(3) n have l: "length t \<le> m" "length ?J < m"
      by simp_all
    from okText_parse [OF ok _ l(1), of "?sep @ ?J @ ?tl"] obtain v' where
      v: "jsonValue m (t @ ?sep @ ?J @ ?tl) = Some (v', ?sep @ ?J @ ?tl)"
      by auto
    from Cons Cons.prems(2) have ne: "ts \<noteq> []" and oks: "\<forall>t \<in> set ts. okText t"
      by simp_all
    from joinWith_head [OF ne oks, of ?sep] obtain c r where
      j: "?J = c # r" "\<not> isJsonWs c" by metis
    have s1: "skipWs (?sep @ ?J @ ?tl) = ?sep @ ?J @ ?tl"
      by (simp add: skipWs_def)
    have s2: "skipWs (10 # ind' @ ?J @ ?tl) = ?J @ ?tl"
      using skipWs_over [of "10 # ind'" c "r @ ?tl"] assms(1) j by simp
    from Cons.IH [OF ne oks l(2), of "acc @ [v']"] obtain w where
      "jsonElements m (?J @ ?tl) (acc @ [v']) = Some (w, rest)" by blast
    with v s1 s2 Cons show ?thesis
      unfolding n by (simp add: js_def)
  qed
qed

lemma joinWith_Cons_ne: "ys \<noteq> [] \<Longrightarrow> joinWith sep (x # ys) = x @ sep @ joinWith sep ys"
  by (cases ys) simp_all

definition memberText :: "jsstring \<Rightarrow> jsstring \<Rightarrow> jsstring" where
  "memberText k t = quoteJSONString k @ js '': '' @ t"

lemma member_decode:
  assumes "okText t" and "followS R" and "length (memberText k t) \<le> m"
  obtains k' v' where "jsonString (drop 1 (memberText k t @ R)) [] = Some (k', 58 # 32 # t @ R)"
    and "jsonValue m (t @ R) = Some (v', R)" and "take 1 (memberText k t @ R) = [34]"
proof -
  from quoteChars_decodes [of k "58 # 32 # t @ R" "[]"] obtain k' where
    "jsonString (quoteChars k @ 34 # 58 # 32 # t @ R) [] = Some (k', 58 # 32 # t @ R)" by blast
  then have a: "jsonString (drop 1 (memberText k t @ R)) [] = Some (k', 58 # 32 # t @ R)"
    by (simp add: memberText_def quoteJSONString_def js_def)
  from assms(3) have "length t \<le> m"
    by (simp add: memberText_def)
  from okText_parse [OF assms(1,2) this] obtain v' where "jsonValue m (t @ R) = Some (v', R)" .
  moreover have "take 1 (memberText k t @ R) = [34]"
    by (simp add: memberText_def quoteJSONString_def)
  ultimately show ?thesis using a that by blast
qed

lemma jsonMembers_step:
  assumes "take 1 cs = [34]"
    and "jsonString (drop 1 cs) [] = Some (k', 58 # 32 # t @ R)"
    and "skipWs (32 # t @ R) = t @ R"
    and "jsonValue m (t @ R) = Some (v', R)"
  shows "jsonMembers (Suc m) cs acc =
     (if take 1 (skipWs R) = [44] then jsonMembers m (skipWs (drop 1 (skipWs R))) (objPut k' v' acc)
      else if take 1 (skipWs R) = [125] then Some (JObject (objPut k' v' acc), drop 1 (skipWs R))
      else None)"
proof -
  have "skipWs (58 # 32 # t @ R) = 58 # 32 # t @ R"
    by (simp add: skipWs_def)
  with assms show ?thesis
    by (simp add: js_def)
qed

lemma members_decode:
  assumes "list_all isJsonWs ind'" and "list_all isJsonWs ind"
  shows "ps \<noteq> [] \<Longrightarrow> \<forall>p \<in> set ps. okText (snd p) \<Longrightarrow>
      length (joinWith (44 # 10 # ind') (map (\<lambda>p. memberText (fst p) (snd p)) ps)) < n \<Longrightarrow>
      \<exists>v'. jsonMembers n (joinWith (44 # 10 # ind') (map (\<lambda>p. memberText (fst p) (snd p)) ps)
                @ 10 # ind @ 125 # rest) acc = Some (v', rest)"
proof (induction ps arbitrary: n acc)
  case Nil
  then show ?case by simp
next
  case (Cons p ps)
  from Cons.prems(3) obtain m where n: "n = Suc m" by (cases n) simp_all
  obtain k t where p: "p = (k, t)" by (cases p)
  from Cons.prems(2) p have ok: "okText t" by simp
  from ok obtain c t' where t: "t = c # t'" "\<not> isJsonWs c"
    by (auto elim: okText_head)
  let ?sep = "44 # 10 # ind'"
  let ?tl = "10 # ind @ 125 # rest"
  have s1: "skipWs (32 # t @ R) = t @ R" for R
    using skipWs_over [of "[32]" c "t' @ R"] t by simp
  show ?case
  proof (cases ps)
    case Nil
    with Cons.prems(3) n p have l: "length (memberText k t) \<le> m" by simp
    from member_decode [OF ok _ l, of ?tl] obtain k' v' where
      k: "jsonString (drop 1 (memberText k t @ ?tl)) [] = Some (k', 58 # 32 # t @ ?tl)"
      and v: "jsonValue m (t @ ?tl) = Some (v', ?tl)"
      and h: "take 1 (memberText k t @ ?tl) = [34]"
      by auto
    have s2: "skipWs ?tl = 125 # rest"
      using skipWs_over [of "10 # ind" 125 rest] assms(2) by simp
    have jw: "joinWith ?sep (map (\<lambda>p. memberText (fst p) (snd p)) (p # ps)) @ ?tl =
        memberText k t @ ?tl"
      by (simp add: Nil p)
    from s2 show ?thesis
      unfolding n jw jsonMembers_step [OF h k s1 v] by simp
  next
    case (Cons q qs)
    let ?J = "joinWith ?sep (map (\<lambda>p. memberText (fst p) (snd p)) ps)"
    from Cons Cons.prems(3) n p have l: "length (memberText k t) \<le> m" "length ?J < m"
      by simp_all
    from member_decode [OF ok _ l(1), of "?sep @ ?J @ ?tl"] obtain k' v' where
      k: "jsonString (drop 1 (memberText k t @ ?sep @ ?J @ ?tl)) [] = Some (k', 58 # 32 # t @ ?sep @ ?J @ ?tl)"
      and v: "jsonValue m (t @ ?sep @ ?J @ ?tl) = Some (v', ?sep @ ?J @ ?tl)"
      and h: "take 1 (memberText k t @ ?sep @ ?J @ ?tl) = [34]"
      by auto
    from Cons Cons.prems(2) have ne: "ps \<noteq> []" and oks: "\<forall>p \<in> set ps. okText (snd p)"
      by simp_all
    obtain r where j: "?J = 34 # r"
      using Cons by (cases qs) (simp_all add: memberText_def quoteJSONString_def)
    have s2: "skipWs (?sep @ ?J @ ?tl) = ?sep @ ?J @ ?tl"
      by (simp add: skipWs_def)
    have s3: "skipWs (10 # ind' @ ?J @ ?tl) = ?J @ ?tl"
      using skipWs_over [of "10 # ind'" 34 "r @ ?tl"] assms(1) j by simp
    from Cons.IH [OF ne oks l(2), of "objPut k' v' acc"] obtain w where
      w: "jsonMembers m (?J @ ?tl) (objPut k' v' acc) = Some (w, rest)" by blast
    from ne have jw: "joinWith ?sep (map (\<lambda>p. memberText (fst p) (snd p)) (p # ps)) @ ?tl =
        memberText k t @ ?sep @ ?J @ ?tl"
      by (simp add: joinWith_Cons_ne p)
    from s2 s3 w show ?thesis
      unfolding n jw jsonMembers_step [OF h k s1 v] by simp
  qed
qed

lemma okText_keyword:
  assumes "t = js ''null'' \<or> t = js ''true'' \<or> t = js ''false''"
  shows "okText t"
  unfolding okText_def
proof (intro conjI allI impI)
  from assms show "\<exists>c t'. t = c # t' \<and> \<not> isJsonWs c \<and> c \<noteq> 93 \<and> c \<noteq> 125"
    by (auto simp: js_def isJsonWs_def)
next
  fix n rest
  assume "length t \<le> n"
  with assms obtain m where "n = Suc m"
    by (cases n) (auto simp: js_def)
  with assms show "\<exists>v'. jsonValue n (t @ rest) = Some (v', rest)"
    by (auto simp: js_def isDigit_def)
qed

lemma okText_number:
  assumes "jsonNumber t = Some (t, [])"
  shows "okText t"
  unfolding okText_def
proof (intro conjI allI impI)
  from jsonNumber_head [OF assms] obtain c t' where t: "t = c # t'" "c = 45 \<or> isDigit c"
    by blast
  then show "\<exists>c t'. t = c # t' \<and> \<not> isJsonWs c \<and> c \<noteq> 93 \<and> c \<noteq> 125"
    by (auto simp: isJsonWs_def isDigit_def)
  fix n rest
  assume f: "followS rest" and "length t \<le> n"
  with t obtain m where n: "n = Suc m"
    by (cases n) auto
  from jsonNumber_append [OF f, of t] assms have "jsonNumber (t @ rest) = Some (t, rest)"
    by simp
  moreover obtain r where cs: "t @ rest = c # r"
    using t by simp
  moreover from t have "jsonValue (Suc m) (c # r) =
      (case jsonNumber (c # r) of None \<Rightarrow> None | Some (l, r') \<Rightarrow> Some (JNumber l, r'))"
    by (auto simp: isDigit_def)
  ultimately show "\<exists>v'. jsonValue n (t @ rest) = Some (v', rest)"
    unfolding n by simp
qed

lemma okText_string: "okText (quoteJSONString s)"
  unfolding okText_def
proof (intro conjI allI impI)
  show "\<exists>c t'. quoteJSONString s = c # t' \<and> \<not> isJsonWs c \<and> c \<noteq> 93 \<and> c \<noteq> 125"
    by (simp add: quoteJSONString_def)
next
  fix n rest
  assume "length (quoteJSONString s) \<le> n"
  then obtain m where n: "n = Suc m"
    by (cases n) (auto simp: quoteJSONString_def)
  from quoteChars_decodes [of s rest "[]"] obtain u where
    "jsonString (quoteChars s @ 34 # rest) [] = Some (u, rest)" by blast
  then show "\<exists>v'. jsonValue n (quoteJSONString s @ rest) = Some (v', rest)"
    unfolding n by (simp add: quoteJSONString_def)
qed

lemma okText_array:
  assumes "list_all isJsonWs ind'" and "list_all isJsonWs ind"
    and "ts \<noteq> []" and "\<forall>t \<in> set ts. okText t"
  shows "okText (91 # 10 # ind' @ joinWith (44 # 10 # ind') ts @ 10 # ind @ [93])"
  unfolding okText_def
proof (intro conjI allI impI)
  show "\<exists>c t'. 91 # 10 # ind' @ joinWith (44 # 10 # ind') ts @ 10 # ind @ [93] = c # t'
      \<and> \<not> isJsonWs c \<and> c \<noteq> 93 \<and> c \<noteq> 125"
    by simp
next
  fix n rest
  let ?J = "joinWith (44 # 10 # ind') ts"
  assume "length (91 # 10 # ind' @ ?J @ 10 # ind @ [93]) \<le> n"
  then obtain m where n: "n = Suc m" and l: "length ?J < m"
    by (cases n) auto
  from joinWith_head [OF assms(3,4), of "44 # 10 # ind'"] obtain c r where
    j: "?J = c # r" "\<not> isJsonWs c" "c \<noteq> 93" by metis
  have s: "skipWs (10 # ind' @ ?J @ 10 # ind @ 93 # rest) = ?J @ 10 # ind @ 93 # rest"
    using skipWs_over [of "10 # ind'" c "r @ 10 # ind @ 93 # rest"] assms(1) j by simp
  from elements_decode [OF assms(1,2,3,4) l, of rest "[]"] obtain v' where
    e: "jsonElements m (?J @ 10 # ind @ 93 # rest) [] = Some (v', rest)" by blast
  have t: "take 1 (?J @ 10 # ind @ 93 # rest) \<noteq> [93]"
    using j by simp
  from s e t show "\<exists>v'. jsonValue n ((91 # 10 # ind' @ ?J @ 10 # ind @ [93]) @ rest) = Some (v', rest)"
    unfolding n by (simp add: js_def)
qed

lemma okText_object:
  assumes "list_all isJsonWs ind'" and "list_all isJsonWs ind"
    and "ps \<noteq> []" and "\<forall>p \<in> set ps. okText (snd p)"
  shows "okText (123 # 10 # ind' @ joinWith (44 # 10 # ind') (map (\<lambda>p. memberText (fst p) (snd p)) ps)
            @ 10 # ind @ [125])"
  unfolding okText_def
proof (intro conjI allI impI)
  let ?J = "joinWith (44 # 10 # ind') (map (\<lambda>p. memberText (fst p) (snd p)) ps)"
  show "\<exists>c t'. 123 # 10 # ind' @ ?J @ 10 # ind @ [125] = c # t'
      \<and> \<not> isJsonWs c \<and> c \<noteq> 93 \<and> c \<noteq> 125"
    by simp
  fix n rest
  assume "length (123 # 10 # ind' @ ?J @ 10 # ind @ [125]) \<le> n"
  then obtain m where n: "n = Suc m" and l: "length ?J < m"
    by (cases n) auto
  from assms(3) obtain p ps' where ps: "ps = p # ps'" by (cases ps) auto
  obtain r where j: "?J = 34 # r"
    unfolding ps by (cases ps') (simp_all add: memberText_def quoteJSONString_def)
  have s: "skipWs (10 # ind' @ ?J @ 10 # ind @ 125 # rest) = ?J @ 10 # ind @ 125 # rest"
    using skipWs_over [of "10 # ind'" 34 "r @ 10 # ind @ 125 # rest"] assms(1) j by simp
  from members_decode [OF assms(1,2,3,4) l, of rest "[]"] obtain v' where
    e: "jsonMembers m (?J @ 10 # ind @ 125 # rest) [] = Some (v', rest)" by blast
  have t: "take 1 (?J @ 10 # ind @ 125 # rest) \<noteq> [125]"
    using j by simp
  from s e t show "\<exists>v'. jsonValue n ((123 # 10 # ind' @ ?J @ 10 # ind @ [125]) @ rest) = Some (v', rest)"
    unfolding n by (simp add: js_def)
qed

lemma okText_empty: "okText (js ''[]'')" "okText (js ''{}'')"
proof -
  have "okText [91, 93]"
    unfolding okText_def
  proof (intro conjI allI impI)
    fix n :: nat and rest
    assume "length [91, 93 :: int] \<le> n"
    then obtain m where "n = Suc m" by (cases n) auto
    then show "\<exists>v'. jsonValue n ([91, 93] @ rest) = Some (v', rest)"
      by (simp add: js_def skipWs_def)
  qed simp
  then show "okText (js ''[]'')" by (simp add: js_def)
  have "okText [123, 125]"
    unfolding okText_def
  proof (intro conjI allI impI)
    fix n :: nat and rest
    assume "length [123, 125 :: int] \<le> n"
    then obtain m where "n = Suc m" by (cases n) auto
    then show "\<exists>v'. jsonValue n ([123, 125] @ rest) = Some (v', rest)"
      by (simp add: js_def skipWs_def)
  qed simp
  then show "okText (js ''{}'')" by (simp add: js_def)
qed

theorem stringifyValue_okText:
  assumes "numOk numText"
  shows "list_all isJsonWs ind \<Longrightarrow> okText (stringifyValue numText ind v)"
proof (induction v arbitrary: ind)
  case JNull
  show ?case by (simp add: okText_keyword)
next
  case (JBool b)
  show ?case by (simp add: okText_keyword)
next
  case (JNumber l)
  from assms have "numText l = js ''null'' \<or> jsonNumber (numText l) = Some (numText l, [])"
    by (simp add: numOk_def)
  then show ?case
    by (auto simp: okText_keyword okText_number)
next
  case (JString s)
  show ?case by (simp add: okText_string)
next
  case (JArray vs)
  let ?ind' = "ind @ js ''  ''"
  from JArray.prems have w: "list_all isJsonWs ?ind'"
    by (simp add: js_def)
  show ?case
  proof (cases "vs = []")
    case True
    then show ?thesis by (simp add: okText_empty)
  next
    case False
    let ?ts = "map (stringifyValue numText ?ind') vs"
    from JArray.IH w have "\<forall>t \<in> set ?ts. okText t" by auto
    from okText_array [OF w JArray.prems _ this] False show ?thesis
      by (simp add: js_def)
  qed
next
  case (JObject kvs)
  let ?ind' = "ind @ js ''  ''"
  from JObject.prems have w: "list_all isJsonWs ?ind'"
    by (simp add: js_def)
  show ?case
  proof (cases "kvs = []")
    case True
    then show ?thesis by (simp add: okText_empty)
  next
    case False
    let ?ps = "map (\<lambda>kv. (fst kv, stringifyValue numText ?ind' (snd kv))) (ownProperties kvs)"
    have ok: "\<forall>p \<in> set ?ps. okText (snd p)"
    proof
      fix p
      assume "p \<in> set ?ps"
      then obtain kv where kv: "kv \<in> set kvs" and p: "p = (fst kv, stringifyValue numText ?ind' (snd kv))"
        by auto
      have "snd kv \<in> Basic_BNFs.snds kv"
        by (cases kv) simp
      from JObject.IH [OF kv this w] p show "okText (snd p)" by simp
    qed
    have "set (ownProperties kvs) = set kvs" by simp
    with False have "ownProperties kvs \<noteq> []"
      by (metis set_empty)
    then have ne: "?ps \<noteq> []" by simp
    have m: "map (\<lambda>p. memberText (fst p) (snd p)) ?ps =
        map (\<lambda>kv. quoteJSONString (fst kv) @ js '': '' @ stringifyValue numText ?ind' (snd kv))
          (ownProperties kvs)"
      by (simp add: memberText_def)
    from okText_object [OF w JObject.prems ne ok] False show ?thesis
      unfolding m by (simp add: js_def)
  qed
qed

theorem JSON_stringify_decodes:
  assumes "numOk numText"
  shows "\<exists>v'. JSON_parse (JSON_stringify numText v) = Some v'"
proof -
  let ?s = "JSON_stringify numText v"
  have ok: "okText ?s"
    unfolding JSON_stringify_def using stringifyValue_okText [OF assms, of "[]" v] by simp
  then obtain c t where h: "?s = c # t" "\<not> isJsonWs c"
    by (auto elim: okText_head)
  from okText_parse [OF ok, of "[]" "2 * length ?s + 2"] obtain v' where
    "jsonValue (2 * length ?s + 2) ?s = Some (v', [])" by auto
  moreover have "skipWs ?s = ?s"
    using h by (simp add: skipWs_def)
  ultimately show ?thesis
    by (simp add: JSON_parse_def skipWs_def)
qed

subsection \<open>The YAML pass reports success whenever it returns\<close>

lemma reconstructYAML_success:
  assumes "numOk numText" and "reconstructYAML numText n inp = Some r"
  shows "rc_success r \<and> rc_warnings r = [] \<and> decodes r"
proof -
  from assms(2) obtain json st where p: "parseYAMLDocument numText n inp = Some (json, st)"
    by (auto simp: reconstructYAML_def split: option.splits)
  then have j: "json = JSON_stringify numText (JObject (yobj st))"
    by (auto simp: parseYAMLDocument_def split: option.splits)
  from JSON_stringify_decodes [OF assms(1), of "JObject (yobj st)"] j obtain v' where
    d: "JSON_parse json = Some v'" by blast
  with JSON_parse_empty have "json \<noteq> []" by auto
  with assms(2) p d show ?thesis
    by (auto simp: reconstructYAML_def decodes_def)
qed

lemma attempt_success: "attempt m r = Some res \<Longrightarrow> success res \<and> object res \<noteq> None"
  by (auto simp: attempt_def split: if_splits option.splits)

lemma repairObjectCandidate_success:
  assumes "numOk numText" and "repairObjectCandidate numText n raw = Some res"
  shows "success res \<and> object res \<noteq> None"
proof -
  from assms(2) obtain rj where rj: "reconstructJSON n raw = Some rj"
    by (auto simp: repairObjectCandidate_def split: option.splits)
  show ?thesis
  proof (cases "attempt JsonIsh rj")
    case (Some a)
    with assms(2) rj have "res = a"
      by (simp add: repairObjectCandidate_def)
    with attempt_success [OF Some] show ?thesis by simp
  next
    case None
    with assms(2) rj obtain ry where ry: "reconstructYAML numText n raw = Some ry"
      by (auto simp: repairObjectCandidate_def split: option.splits)
    from reconstructYAML_success [OF assms(1) ry] have "decodes ry" by simp
    then obtain j v where "decodesTo ry j v"
      by (auto simp: decodes_def decodesTo_def split: option.splits)
    from attempt_decodesTo [OF this, of YamlIsh] obtain a where a: "attempt YamlIsh ry = Some a"
      by blast
    with assms(2) rj None ry have "res = a"
      by (simp add: repairObjectCandidate_def)
    with attempt_success [OF a] show ?thesis by simp
  qed
qed

text \<open>
  A number formatter for the instances below: it writes a literal that is a JSON number as
  it stands and any other literal as \<^verbatim>\<open>null\<close>.
\<close>

definition literalText :: "jsstring \<Rightarrow> jsstring" where
  "literalText l = (if jsonNumber l = Some (l, []) then l else js ''null'')"

lemma numOk_literalText: "numOk literalText"
  by (simp add: numOk_def literalText_def)

subsection \<open>A list item with no current key\<close>









subsection \<open>Spans without an opening brace\<close>










subsection \<open>A position that looks like a YAML key yields a YAML candidate\<close>

lemma dropWhile_keeps: "x \<in> set s \<Longrightarrow> \<not> P x \<Longrightarrow> x \<in> set (dropWhile P s)"
  by (induction s) auto

lemma trim_nonempty:
  assumes "x \<in> set s" and "\<not> isSpace x"
  shows "trim s \<noteq> []"
proof -
  from assms have "x \<in> set (rev (dropWhile isSpace s))"
    by (simp add: dropWhile_keeps)
  then have "x \<in> set (dropWhile isSpace (rev (dropWhile isSpace s)))"
    using assms(2) by (rule dropWhile_keeps)
  then have "x \<in> set (trim s)"
    by (simp add: trim_def)
  then show ?thesis by auto
qed

lemma captureYAMLObject_prefix:
  "captureYAMLObject inp pos raw sc reps = (raw', sc', reps', p) \<Longrightarrow> set raw \<subseteq> set raw'"
proof (induction inp pos raw sc reps rule: captureYAMLObject.induct)
  case (1 inp pos raw sc reps)
  note eq = captureYAMLObject.simps [of inp pos raw sc reps]
  show ?case
  proof (cases "\<not> isEOF inp pos \<and> looksLikeYAMLContinuation inp pos")
    case False
    with "1.prems" eq show ?thesis by auto
  next
    case True
    obtain tok p1 where c: "consumeBest inp pos = (tok, p1)"
      by (cases "consumeBest inp pos")
    show ?thesis
    proof (cases tok)
      case None
      with "1.prems" eq True c show ?thesis by simp
    next
      case (Some token)
      have "set (raw @ tvalue token) \<subseteq> set raw'"
        using "1.IH" [OF True c [symmetric, unfolded Some] refl] "1.prems" eq True c Some
        by simp
      then show ?thesis by simp
    qed
  qed
qed

lemma captureYAMLObject_step:
  assumes "consumeBest inp pos = (Some t, p)"
    and "ttype t = WHITESPACE \<or> ttype t = BARE_WORD \<or> ttype t = STRING \<or> ttype t = COLON"
  shows "captureYAMLObject inp pos raw sc reps =
     captureYAMLObject inp p (raw @ tvalue t) (sc + tscore t) (reps @ repairOf t)"
proof -
  from consumeBest_Some(4) [OF assms(1)] have e: "\<not> isEOF inp pos"
    by (simp add: isEOF_def)
  from assms(1) obtain cs where n: "nextTokenCandidates inp pos = t # cs"
    by (auto simp: consumeBest_def split: list.splits)
  from assms(2) have "looksLikeYAMLContinuation inp pos"
    by (auto simp: looksLikeYAMLContinuation_def n)
  with e assms(1) show ?thesis
    by (subst captureYAMLObject.simps) simp
qed

lemma key_capture:
  assumes "consumeBest inp pos = tp"
    and "skipWhitespaceTokens inp tp = (Some t, p)"
    and "ttype t = BARE_WORD \<or> ttype t = STRING"
    and "consumeBest inp p = (Some nt, p')"
    and "ttype nt = COLON"
  shows "58 \<in> set (fst (captureYAMLObject inp pos raw sc reps))"
  using assms
proof (induction inp tp arbitrary: pos raw sc reps rule: skipWhitespaceTokens.induct)
  case (1 inp token p0)
  from "1.prems"(2) obtain t0 where t0: "token = Some t0"
    by (cases token) (simp_all add: skipWhitespaceTokens.simps)
  note c0 = "1.prems"(1) [unfolded t0]
  show ?case
  proof (cases "ttype t0 = WHITESPACE")
    case True
    with "1.prems"(2) t0 have "skipWhitespaceTokens inp (consumeBest inp p0) = (Some t, p)"
      by (simp add: skipWhitespaceTokens.simps [of inp "Some t0" p0])
    from "1.IH" [OF t0 True refl this "1.prems"(3,4,5)]
    have "58 \<in> set (fst (captureYAMLObject inp p0 (raw @ tvalue t0) (sc + tscore t0) (reps @ repairOf t0)))" .
    with captureYAMLObject_step [OF c0, of raw sc reps] True show ?thesis
      by simp
  next
    case False
    with "1.prems"(2) t0 have tt: "t0 = t" "p0 = p"
      by (simp_all add: skipWhitespaceTokens.simps [of inp "Some t0" p0])
    from "1.prems"(3) tt
    have s1: "captureYAMLObject inp pos raw sc reps =
        captureYAMLObject inp p (raw @ tvalue t) (sc + tscore t) (reps @ repairOf t)"
      using captureYAMLObject_step [OF c0, of raw sc reps] by auto
    from "1.prems"(5)
    have s2: "captureYAMLObject inp p (raw @ tvalue t) (sc + tscore t) (reps @ repairOf t) =
        captureYAMLObject inp p' (raw @ tvalue t @ tvalue nt) (sc + tscore t + tscore nt)
          (reps @ repairOf t @ repairOf nt)"
      using captureYAMLObject_step [OF "1.prems"(4), of "raw @ tvalue t" "sc + tscore t" "reps @ repairOf t"]
      by simp
    from consumeBest_Some(5) [OF "1.prems"(4)] "1.prems"(5) have v: "tvalue nt = [58]"
      by (rule colon_candidate)
    obtain raw' sc' reps' q where
      r: "captureYAMLObject inp p' (raw @ tvalue t @ tvalue nt) (sc + tscore t + tscore nt)
            (reps @ repairOf t @ repairOf nt) = (raw', sc', reps', q)"
      using prod_cases4 by blast
    from captureYAMLObject_prefix [OF r] v have "58 \<in> set raw'"
      by auto
    with s1 s2 r show ?thesis by simp
  qed
qed

lemma yaml_key_parses:
  assumes "looksLikeYAMLKey inp pos"
  shows "fst (tryParseYAMLObject inp path pos) \<noteq> None"
proof -
  obtain tok p where s: "skipWhitespaceTokens inp (consumeBest inp pos) = (tok, p)"
    by (cases "skipWhitespaceTokens inp (consumeBest inp pos)")
  from assms s obtain t where t: "tok = Some t" "ttype t = BARE_WORD \<or> ttype t = STRING"
    by (cases tok) (auto simp: looksLikeYAMLKey_def split: if_splits)
  obtain ntok p' where c: "consumeBest inp p = (ntok, p')"
    by (cases "consumeBest inp p")
  from assms s t c obtain nt where nt: "ntok = Some nt" "ttype nt = COLON"
    by (cases ntok) (auto simp: looksLikeYAMLKey_def split: if_splits)
  obtain raw sc reps q where
    r: "captureYAMLObject inp pos [] (pscore path + 5) (prepairs path @ [''YAML mode'']) = (raw, sc, reps, q)"
    using prod_cases4 by blast
  from key_capture [OF refl s [unfolded t(1)] t(2) c [unfolded nt(1)] nt(2),
      of "[]" "pscore path + 5" "prepairs path @ [''YAML mode'']"] r
  have "58 \<in> set raw" by simp
  moreover have "\<not> isSpace 58" by (simp add: isSpace_def)
  ultimately have "trim raw \<noteq> []" by (rule trim_nonempty)
  with assms r show ?thesis
    by (simp add: tryParseYAMLObject_def)
qed

subsection \<open>A balanced opener yields a JSON candidate\<close>

text \<open>
  The opener at \<open>p\<close> is balanced when the capture loop of \<open>tryParseJSONObject\<close>, started
  after it, ends with depth 0; \<open>openersBalanced\<close> says so of every opener of the input.
\<close>

definition balancedFrom :: "jsstring \<Rightarrow> nat \<Rightarrow> bool" where
  "balancedFrom inp p =
     (case captureJSONObject inp (p + 1) [inp ! p] 1 0 [] of (raw, depth, sc, reps, q) \<Rightarrow> depth = 0)"

definition openersBalanced :: "jsstring \<Rightarrow> bool" where
  "openersBalanced inp \<longleftrightarrow>
     (\<forall>p \<in> set [0..<length inp]. (inp ! p = 123 \<or> inp ! p = 91) \<longrightarrow> balancedFrom inp p)"

lemma captureJSONObject_depth:
  "fst (snd (captureJSONObject inp pos raw depth sc reps)) =
   fst (snd (captureJSONObject inp pos raw depth sc' reps'))"
proof (induction inp pos raw depth sc reps arbitrary: sc' reps' rule: captureJSONObject.induct)
  case (1 inp pos raw depth sc reps)
  note eq = captureJSONObject.simps [of inp pos raw depth sc reps]
  note eq' = captureJSONObject.simps [of inp pos raw depth sc' reps']
  show ?case
  proof (cases "\<not> isEOF inp pos \<and> 0 < depth")
    case False
    with eq eq' show ?thesis by auto
  next
    case True
    obtain tok p1 where c: "consumeBest inp pos = (tok, p1)"
      by (cases "consumeBest inp pos")
    show ?thesis
    proof (cases tok)
      case None
      with eq eq' True c show ?thesis by simp
    next
      case (Some token)
      from "1.IH" [OF True c [symmetric, unfolded Some] refl,
          of "sc' + tscore token" "reps' @ repairOf token"]
      show ?thesis
        using eq eq' True c Some by simp
    qed
  qed
qed

lemma opener_parses:
  assumes "pos < length inp" and "inp ! pos = 123 \<or> inp ! pos = 91" and "balancedFrom inp pos"
  shows "fst (tryParseJSONObject inp path pos) \<noteq> None"
proof -
  let ?tok = "mkTok (if inp ! pos = 123 then BRACE_OPEN else BRACKET_OPEN) [inp ! pos] (pos + 1) 0 None"
  have f: "find (\<lambda>c. ttype c = BRACE_OPEN \<or> ttype c = BRACKET_OPEN) (nextTokenCandidates inp pos)
      = Some ?tok"
    by (simp add: nextTokenCandidates_opener [OF assms(1,2)] mkTok_def)
  obtain raw depth sc reps q where
    c: "captureJSONObject inp (pos + 1) [inp ! pos] 1 (pscore path) (prepairs path) = (raw, depth, sc, reps, q)"
    using prod_cases5 by blast
  obtain raw0 depth0 sc0 reps0 q0 where
    c0: "captureJSONObject inp (pos + 1) [inp ! pos] 1 0 [] = (raw0, depth0, sc0, reps0, q0)"
    using prod_cases5 by blast
  from captureJSONObject_depth [of inp "pos + 1" "[inp ! pos]" 1 "pscore path" "prepairs path" 0 "[]"] c c0
  have "depth = depth0" by simp
  with assms(3) c0 have "depth = 0"
    by (simp add: balancedFrom_def)
  with f c show ?thesis
    by (simp add: tryParseJSONObject_def mkTok_def repairOf_def)
qed

subsection \<open>A position that looks like an object start yields a candidate\<close>

lemma tryParseObjectBlock_fails:
  assumes "fst (tryParseObjectBlock inp path) = None"
  shows "fst (tryParseFencedJSON inp path (position path)) = None"
    and "fst (tryParseFencedYAML inp path (position path)) = None"
    and "fst (tryParseJSONObject inp path (position path)) = None"
    and "fst (tryParseYAMLObject inp path (position path)) = None"
proof -
  let ?rs = "[fst (tryParseFencedJSON inp path (position path)),
                 fst (tryParseFencedYAML inp path (position path)),
                 fst (tryParseJSONObject inp path (position path)),
                 fst (tryParseYAMLObject inp path (position path))]"
  obtain r4 p where y: "tryParseYAMLObject inp path (position path) = (r4, p)"
    by (cases "tryParseYAMLObject inp path (position path)")
  have "sort_key pscore (List.map_filter id ?rs) = []"
  proof (cases "sort_key pscore (List.map_filter id ?rs)")
    case Nil
    then show ?thesis .
  next
    case (Cons best rest)
    with assms y show ?thesis
      unfolding tryParseObjectBlock_def by (simp del: sort_key_simps)
  qed
  then have "set (sort_key pscore (List.map_filter id ?rs)) = {}"
    by (simp del: sort_key_simps set_sort)
  then have e: "set (List.map_filter id ?rs) = {}"
    by (simp only: set_sort)
  have "\<And>r. Some r \<notin> set ?rs"
  proof
    fix r
    assume "Some r \<in> set ?rs"
    then have "r \<in> set (List.map_filter id ?rs)"
      by (simp only: map_filter_id_set)
    with e show False by simp
  qed
  then have "\<forall>x \<in> set ?rs. x = None"
    by (metis not_Some_eq)
  then show "fst (tryParseFencedJSON inp path (position path)) = None"
    and "fst (tryParseFencedYAML inp path (position path)) = None"
    and "fst (tryParseJSONObject inp path (position path)) = None"
    and "fst (tryParseYAMLObject inp path (position path)) = None"
    by simp_all
qed

lemma find_type: "t \<in> set (map ttype cs) \<Longrightarrow> find (\<lambda>c. ttype c = t) cs \<noteq> None"
  by (auto simp: find_None_iff)

lemma fence_json_parses:
  assumes "FENCE_JSON \<in> set (map ttype (nextTokenCandidates inp pos))"
  shows "fst (tryParseFencedJSON inp path pos) \<noteq> None"
proof -
  from find_type [OF assms] obtain fence where
    "find (\<lambda>c. ttype c = FENCE_JSON) (nextTokenCandidates inp pos) = Some fence"
    by auto
  then show ?thesis
    by (simp add: tryParseFencedJSON_def split: prod.splits)
qed

lemma fence_yaml_parses:
  assumes "FENCE_YAML \<in> set (map ttype (nextTokenCandidates inp pos))"
  shows "fst (tryParseFencedYAML inp path pos) \<noteq> None"
proof -
  from find_type [OF assms] obtain fence where
    "find (\<lambda>c. ttype c = FENCE_YAML) (nextTokenCandidates inp pos) = Some fence"
    by auto
  then show ?thesis
    by (simp add: tryParseFencedYAML_def split: prod.splits)
qed

lemma objstart_parses:
  assumes "openersBalanced inp" and "looksLikeObjectStart inp (position path)"
  shows "fst (tryParseObjectBlock inp path) \<noteq> None"
proof
  assume "fst (tryParseObjectBlock inp path) = None"
  note n = tryParseObjectBlock_fails [OF this]
  let ?cs = "nextTokenCandidates inp (position path)"
  from assms(2) have
    "FENCE_JSON \<in> set (map ttype ?cs) \<or> FENCE_YAML \<in> set (map ttype ?cs)
     \<or> BRACE_OPEN \<in> set (map ttype ?cs) \<or> BRACKET_OPEN \<in> set (map ttype ?cs)
     \<or> looksLikeYAMLKey inp (position path)"
    by (cases ?cs) (simp_all add: looksLikeObjectStart_def)
  then consider "FENCE_JSON \<in> set (map ttype ?cs)" | "FENCE_YAML \<in> set (map ttype ?cs)"
    | c where "c \<in> set ?cs" "ttype c = BRACE_OPEN \<or> ttype c = BRACKET_OPEN"
    | "looksLikeYAMLKey inp (position path)"
    by auto
  then show False
  proof cases
    case 1
    from fence_json_parses [OF this, of path] n(1) show False by simp
  next
    case 2
    from fence_yaml_parses [OF this, of path] n(2) show False by simp
  next
    case 3
    note o = opener_candidate [OF 3]
    with assms(1) have "balancedFrom inp (position path)"
      by (auto simp: openersBalanced_def)
    from opener_parses [OF o this, of path] n(3) show False by simp
  next
    case 4
    from yaml_key_parses [OF this, of path] n(4) show False by simp
  qed
qed

subsection \<open>What the attempts append\<close>

lemma tryParseFencedJSON_blocks:
  "tryParseFencedJSON inp path pos = (Some r, t) \<Longrightarrow> \<exists>x. blocks r = blocks path @ [ObjectCandidate x]"
  by (auto simp: tryParseFencedJSON_def split: option.splits prod.splits)

lemma tryParseFencedYAML_blocks:
  "tryParseFencedYAML inp path pos = (Some r, t) \<Longrightarrow> \<exists>x. blocks r = blocks path @ [ObjectCandidate x]"
  by (auto simp: tryParseFencedYAML_def split: option.splits prod.splits)

lemma tryParseJSONObject_blocks:
  "tryParseJSONObject inp path pos = (Some r, t) \<Longrightarrow> \<exists>x. blocks r = blocks path @ [ObjectCandidate x]"
  by (auto simp: tryParseJSONObject_def split: option.splits prod.splits if_splits)

lemma tryParseYAMLObject_blocks:
  "tryParseYAMLObject inp path pos = (Some r, t) \<Longrightarrow> \<exists>x. blocks r = blocks path @ [ObjectCandidate x]"
  by (auto simp: tryParseYAMLObject_def split: option.splits prod.splits if_splits)

lemma tryParseObjectBlock_blocks:
  assumes "tryParseObjectBlock inp path = (Some r, t)"
  shows "\<exists>x. blocks r = blocks path @ [ObjectCandidate x]"
proof -
  let ?rs = "[fst (tryParseFencedJSON inp path (position path)),
                 fst (tryParseFencedYAML inp path (position path)),
                 fst (tryParseJSONObject inp path (position path)),
                 fst (tryParseYAMLObject inp path (position path))]"
  obtain r4 p where y: "tryParseYAMLObject inp path (position path) = (r4, p)"
    by (cases "tryParseYAMLObject inp path (position path)")
  have "\<exists>rest. sort_key pscore (List.map_filter id ?rs) = r # rest"
  proof (cases "sort_key pscore (List.map_filter id ?rs)")
    case Nil
    with assms y show ?thesis
      unfolding tryParseObjectBlock_def by (simp del: sort_key_simps)
  next
    case (Cons best rest)
    with assms y show ?thesis
      unfolding tryParseObjectBlock_def by (simp del: sort_key_simps)
  qed
  then have "r \<in> set (sort_key pscore (List.map_filter id ?rs))"
    by (auto simp del: sort_key_simps set_sort)
  then have "Some r \<in> set ?rs"
    by (simp only: set_sort map_filter_id_set)
  then consider "fst (tryParseFencedJSON inp path (position path)) = Some r"
    | "fst (tryParseFencedYAML inp path (position path)) = Some r"
    | "fst (tryParseJSONObject inp path (position path)) = Some r"
    | "fst (tryParseYAMLObject inp path (position path)) = Some r"
    by auto
  then show ?thesis
  proof cases
    case 1
    then show ?thesis
      using tryParseFencedJSON_blocks [of inp path "position path" r] by (metis prod.collapse)
  next
    case 2
    then show ?thesis
      using tryParseFencedYAML_blocks [of inp path "position path" r] by (metis prod.collapse)
  next
    case 3
    then show ?thesis
      using tryParseJSONObject_blocks [of inp path "position path" r] by (metis prod.collapse)
  next
    case 4
    then show ?thesis
      using tryParseYAMLObject_blocks [of inp path "position path" r] by (metis prod.collapse)
  qed
qed

lemma captureText_stop:
  "captureText inp pos tx = (tx', p) \<Longrightarrow> isEOF inp p \<or> looksLikeObjectStart inp p"
proof (induction inp pos tx rule: captureText.induct)
  case (1 inp pos tx)
  note eq = captureText.simps [of inp pos tx]
  show ?case
  proof (cases "isEOF inp pos \<or> looksLikeObjectStart inp pos")
    case True
    with "1.prems" eq show ?thesis by (auto split: if_split_asm)
  next
    case False
    with "1.IH" "1.prems" eq show ?thesis by simp
  qed
qed

lemma parseTextBlock_blocks:
  assumes "parseTextBlock inp path = (Some r, t)"
  shows "\<exists>x. blocks r = blocks path @ [TextBlock x]"
    and "isEOF inp (position r) \<or> looksLikeObjectStart inp (position r)"
proof -
  obtain tx p where c: "captureText inp (position path) [] = (tx, p)"
    by (cases "captureText inp (position path) []")
  from assms c have r: "position r = p" "blocks r = blocks path @ [TextBlock (trim tx)]"
    by (auto simp: parseTextBlock_def split: if_split_asm)
  from r(2) show "\<exists>x. blocks r = blocks path @ [TextBlock x]" by blast
  from captureText_stop [OF c] r(1)
  show "isEOF inp (position r) \<or> looksLikeObjectStart inp (position r)" by simp
qed

subsection \<open>Text runs are maximal when every opener is balanced\<close>

definition isText :: "SegmentedBlock \<Rightarrow> bool" where
  "isText b = (case b of TextBlock _ \<Rightarrow> True | ObjectCandidate _ \<Rightarrow> False)"

fun noAdjacentText :: "SegmentedBlock list \<Rightarrow> bool" where
  "noAdjacentText (a # b # bs) = (\<not> (isText a \<and> isText b) \<and> noAdjacentText (b # bs))"
| "noAdjacentText [a] = True"
| "noAdjacentText [] = True"

definition endsWithText :: "SegmentedBlock list \<Rightarrow> bool" where
  "endsWithText bs \<longleftrightarrow> bs \<noteq> [] \<and> isText (last bs)"

lemma noAdjacentText_snoc:
  "noAdjacentText (bs @ [b]) = (noAdjacentText bs \<and> \<not> (endsWithText bs \<and> isText b))"
  by (induction bs rule: noAdjacentText.induct) (auto simp: endsWithText_def)

lemma parseDocument_noAdjacentText:
  "openersBalanced inp \<Longrightarrow> noAdjacentText (blocks path) \<Longrightarrow>
    (endsWithText (blocks path) \<Longrightarrow>
       isEOF inp (position path) \<or> looksLikeObjectStart inp (position path)) \<Longrightarrow>
    noAdjacentText (blocks (parseDocument inp path tpos))"
proof (induction inp path tpos rule: parseDocument.induct)
  case (1 inp path tpos)
  note eq = parseDocument.simps [of inp path tpos]
  note bal = "1.prems"(1) and na = "1.prems"(2) and et = "1.prems"(3)
  show ?case
  proof (cases "isEOF inp tpos")
    case True
    with eq na show ?thesis by simp
  next
    case False
    obtain ob t where o: "tryParseObjectBlock inp path = (ob, t)"
      by (cases "tryParseObjectBlock inp path")
    show ?thesis
    proof (cases ob)
      case (Some r)
      from tryParseObjectBlock_blocks [OF o [unfolded Some]] obtain x where
        b: "blocks r = blocks path @ [ObjectCandidate x]" by blast
      with na have "noAdjacentText (blocks r)" "\<not> endsWithText (blocks r)"
        by (simp_all add: noAdjacentText_snoc isText_def endsWithText_def)
      with "1.IH"(3) [OF False o [symmetric] Some bal] eq False o Some show ?thesis
        by simp
    next
      case None
      with o have f: "fst (tryParseObjectBlock inp path) = None" by simp
      have ns: "\<not> looksLikeObjectStart inp (position path)"
        using objstart_parses [OF bal, of path] f by blast
      obtain tb t' where tx: "parseTextBlock inp path = (tb, t')"
        by (cases "parseTextBlock inp path")
      show ?thesis
      proof (cases tb)
        case (Some r)
        note s = tx [unfolded Some]
        from parseTextBlock_blocks [OF s] obtain x where
          b: "blocks r = blocks path @ [TextBlock x]"
          and st: "isEOF inp (position r) \<or> looksLikeObjectStart inp (position r)"
          by blast
        from parseTextBlock_Some(2) [OF s] have "\<not> isEOF inp (position path)"
          by (simp add: isEOF_def)
        with ns et have "\<not> endsWithText (blocks path)" by blast
        with b na have "noAdjacentText (blocks r)"
          by (simp add: noAdjacentText_snoc)
        with "1.IH"(2) [OF False o [symmetric] None tx [symmetric] Some bal] st eq False o None tx Some
        show ?thesis by simp
      next
        case N: None
        have "endsWithText (blocks path) \<Longrightarrow> isEOF inp (t' + 1)"
        proof -
          assume "endsWithText (blocks path)"
          with et ns have "isEOF inp (position path)" by blast
          with parseTextBlock_None [OF tx [unfolded N]] show ?thesis
            by (simp add: isEOF_def)
        qed
        with "1.IH"(1) [OF False o [symmetric] None tx [symmetric] N bal] na
          eq False o None tx N
        show ?thesis by simp
      qed
    qed
  qed
qed

subsection \<open>\<open>parseRaw\<close> keeps the kinds of the blocks\<close>

definition isRawText :: "RawBlock \<Rightarrow> bool" where
  "isRawText b = (case b of RawText _ \<Rightarrow> True | RawObject _ \<Rightarrow> False)"

fun noAdjacentRawText :: "RawBlock list \<Rightarrow> bool" where
  "noAdjacentRawText (a # b # bs) = (\<not> (isRawText a \<and> isRawText b) \<and> noAdjacentRawText (b # bs))"
| "noAdjacentRawText [a] = True"
| "noAdjacentRawText [] = True"

fun adjFree :: "bool list \<Rightarrow> bool" where
  "adjFree (a # b # bs) = (\<not> (a \<and> b) \<and> adjFree (b # bs))"
| "adjFree [a] = True"
| "adjFree [] = True"

lemma noAdjacentText_kinds: "noAdjacentText bs = adjFree (map isText bs)"
  by (induction bs rule: noAdjacentText.induct) simp_all

lemma noAdjacentRawText_kinds: "noAdjacentRawText bs = adjFree (map isRawText bs)"
  by (induction bs rule: noAdjacentRawText.induct) simp_all

text \<open>
  A candidate is left out only when its repair fails, and the repair of a candidate
  succeeds whenever it returns (\<open>repairObjectCandidate_success\<close>): the YAML pass writes its
  object with \<^verbatim>\<open>JSON.stringify\<close>, whose text decodes.
\<close>

lemma repairBlocks_kinds:
  assumes "numOk numText"
  shows "repairBlocks numText n bs acc = Some rbs \<Longrightarrow>
     map isRawText rbs = map isRawText acc @ map isText bs"
proof (induction bs arbitrary: acc)
  case Nil
  then show ?case by simp
next
  case (Cons b bs)
  show ?case
  proof (cases b)
    case (TextBlock t)
    with Cons.prems have "repairBlocks numText n bs (acc @ [RawText t]) = Some rbs"
      by simp
    from Cons.IH [OF this] TextBlock show ?thesis
      by (simp add: isRawText_def isText_def)
  next
    case (ObjectCandidate raw)
    with Cons.prems obtain repaired where
      r: "repairObjectCandidate numText n raw = Some repaired"
      by (auto split: option.splits)
    from repairObjectCandidate_success [OF assms r] obtain obj where
      o: "success repaired" "object repaired = Some obj" by auto
    let ?ob = "RawObject
        \<lparr>ob_object = obj, ob_raw = raw,
         ob_repairedText = (case repairedText repaired of None \<Rightarrow> [] | Some t \<Rightarrow> t),
         ob_warnings = warnings repaired, ob_repairs = repairs repaired,
         ob_score = score repaired, ob_winningMode = mode repaired\<rparr>"
    from Cons.prems ObjectCandidate r o
    have "repairBlocks numText n bs (acc @ [?ob]) = Some rbs"
      by simp
    from Cons.IH [OF this] ObjectCandidate show ?thesis
      by (simp add: isRawText_def isText_def)
  qed
qed

text \<open>
  C5.  When every opener of the input is balanced, the block sequence of the segmenter
  has no two consecutive TextBlocks, and neither has the sequence of \<open>parseRaw\<close>.  A text
  run ends at the end of the input or where an object start is seen; there the fenced and
  the YAML attempt always yield a candidate, and the \<^verbatim>\<open>{ ... }\<close> attempt yields one when
  the opener is balanced, so a candidate follows the text.  \<open>parseRaw\<close> segments the
  preprocessed input and turns the blocks into RawBlocks in order, one for one; \<open>numOk\<close>
  is what the language guarantees of the text of a number.
\<close>

theorem C5_text_runs_maximal:
  assumes "openersBalanced inp"
  shows "noAdjacentText (segment inp)
       \<and> (numOk numText \<longrightarrow>
            (\<forall>input rbs. preprocess input = inp \<longrightarrow> parseRaw numText n input = Some rbs \<longrightarrow>
               noAdjacentRawText rbs))"
proof (intro conjI impI allI)
  let ?p0 = "\<lparr>blocks = [], pscore = 0, prepairs = [], position = 0\<rparr>"
  have "noAdjacentText (blocks ?p0)" by simp
  moreover have "\<not> endsWithText (blocks ?p0)" by (simp add: endsWithText_def)
  ultimately have "noAdjacentText (blocks (parseDocument inp ?p0 0))"
    using parseDocument_noAdjacentText [OF assms, of ?p0 0] by blast
  then show s: "noAdjacentText (segment inp)" by (simp add: segment_def parse_def)
  fix input rbs
  assume "numOk numText" and "preprocess input = inp" and "parseRaw numText n input = Some rbs"
  then have "map isRawText rbs = map isText (segment inp)"
    using repairBlocks_kinds [of numText n "segment inp" "[]" rbs] by (simp add: parseRaw_def)
  with s show "noAdjacentRawText rbs"
    by (simp add: noAdjacentText_kinds noAdjacentRawText_kinds)
qed

theorem C5_text_runs_maximal_witness:
  "openersBalanced (js ''hi [1] yo\<newline>k: v'')
   \<and> segment (js ''hi [1] yo\<newline>k: v'') =
       [TextBlock (js ''hi''), ObjectCandidate (js ''[1]''), TextBlock (js ''yo''),
        ObjectCandidate (js ''k: v'')]
   \<and> noAdjacentText (segment (js ''hi [1] yo\<newline>k: v''))
   \<and> (\<exists>rbs. parseRaw literalText 5 (js ''hi [1] yo\<newline>k: v'') = Some rbs
         \<and> map isRawText rbs = [True, False, True, False] \<and> noAdjacentRawText rbs)"
proof (intro conjI)
  let ?inp = "js ''hi [1] yo\<newline>k: v''"
  show b: "openersBalanced ?inp"
    by code_simp
  show "segment ?inp =
       [TextBlock (js ''hi''), ObjectCandidate (js ''[1]''), TextBlock (js ''yo''),
        ObjectCandidate (js ''k: v'')]"
    by code_simp
  note t = C5_text_runs_maximal [OF b, of literalText 5]
  from t show "noAdjacentText (segment ?inp)" by simp
  have p: "preprocess ?inp = ?inp"
    by code_simp
  have "map_option (map isRawText) (parseRaw literalText 5 ?inp) = Some [True, False, True, False]"
    by code_simp
  then obtain rbs where r: "parseRaw literalText 5 ?inp = Some rbs"
    and k: "map isRawText rbs = [True, False, True, False]"
    by auto
  from t numOk_literalText p r have n: "noAdjacentRawText rbs" by blast
  show "\<exists>rbs. parseRaw literalText 5 ?inp = Some rbs
         \<and> map isRawText rbs = [True, False, True, False] \<and> noAdjacentRawText rbs"
    by (rule exI [of _ rbs]) (intro conjI r k n)
qed

text \<open>
  On \<^verbatim>\<open>a { b\<close> the opener is never balanced: it is skipped, and the texts before and
  after it are two consecutive blocks, of the segmenter and of \<open>parseRaw\<close>.
\<close>

theorem C5_adjacent_text_blocks:
  "segment (js ''a { b'') = [TextBlock (js ''a''), TextBlock (js ''b'')]
   \<and> \<not> noAdjacentText (segment (js ''a { b''))
   \<and> parseRaw (\<lambda>s. s) 0 (js ''a { b'') = Some [RawText (js ''a''), RawText (js ''b'')]"
  by code_simp

section \<open>Valid JSON texts\<close>

text \<open>
  The grammar of JSON texts (ECMA-404), as syntax trees with the whitespace of the text:
  a value, an element (a value between whitespace) and a member of an object (a key, a
  colon and an element).  A number is its sign, its integer digits and its fraction digits;
  it has no exponent part.  A string is its characters; it has no escape sequence.
\<close>

datatype jval =
    VNull
  | VBool bool
  | VNum bool jsstring "jsstring option"
  | VStr jsstring
  | VArr jsstring "elem list"
  | VObj jsstring "member list"
and elem = Elem (eLead: jsstring) (eVal: jval) (eTrail: jsstring)
and member = Member (mLead: jsstring) (mKey: jsstring) (mSep: jsstring) (mElem: elem)

fun commaSep :: "jsstring list \<Rightarrow> jsstring" where
  "commaSep [] = []"
| "commaSep [x] = x"
| "commaSep (x # y # ys) = x @ 44 # commaSep (y # ys)"

definition numLiteral :: "bool \<Rightarrow> jsstring \<Rightarrow> jsstring option \<Rightarrow> jsstring" where
  "numLiteral neg ip fr =
     (if neg then [45] else []) @ ip @ (case fr of None \<Rightarrow> [] | Some fs \<Rightarrow> 46 # fs)"

fun rVal :: "jval \<Rightarrow> jsstring"
  and rElem :: "elem \<Rightarrow> jsstring"
  and rMember :: "member \<Rightarrow> jsstring"
where
  "rVal VNull = js ''null''"
| "rVal (VBool b) = (if b then js ''true'' else js ''false'')"
| "rVal (VNum neg ip fr) = numLiteral neg ip fr"
| "rVal (VStr s) = 34 # s @ [34]"
| "rVal (VArr w es) = 91 # (if es = [] then w else commaSep (map rElem es)) @ [93]"
| "rVal (VObj w ms) = 123 # (if ms = [] then w else commaSep (map rMember ms)) @ [125]"
| "rElem (Elem w1 v w2) = w1 @ rVal v @ w2"
| "rMember (Member w1 k w2 e) = w1 @ 34 # k @ 34 # w2 @ 58 # rElem e"

text \<open>
  Well-formedness: whitespace is made of the four whitespace characters of JSON, an integer
  part has no leading zero, a fraction has a digit, and a character of a string is neither
  a control character, nor the quote, nor the backslash.
\<close>

definition wfWs :: "jsstring \<Rightarrow> bool" where
  "wfWs w \<longleftrightarrow> list_all isJsonWs w"

definition wfNum :: "jsstring \<Rightarrow> jsstring option \<Rightarrow> bool" where
  "wfNum ip fr \<longleftrightarrow>
     ip \<noteq> [] \<and> list_all isDigit ip \<and> (hd ip = 48 \<longrightarrow> ip = [48]) \<and>
     (case fr of None \<Rightarrow> True | Some fs \<Rightarrow> fs \<noteq> [] \<and> list_all isDigit fs)"

definition wfStr :: "jsstring \<Rightarrow> bool" where
  "wfStr s \<longleftrightarrow> list_all (\<lambda>c. 32 \<le> c \<and> c \<noteq> 34 \<and> c \<noteq> 92) s"

fun wfVal :: "jval \<Rightarrow> bool"
  and wfElem :: "elem \<Rightarrow> bool"
  and wfMember :: "member \<Rightarrow> bool"
where
  "wfVal VNull = True"
| "wfVal (VBool b) = True"
| "wfVal (VNum neg ip fr) = wfNum ip fr"
| "wfVal (VStr s) = wfStr s"
| "wfVal (VArr w es) = (wfWs w \<and> list_all wfElem es)"
| "wfVal (VObj w ms) = (wfWs w \<and> list_all wfMember ms)"
| "wfElem (Elem w1 v w2) = (wfWs w1 \<and> wfVal v \<and> wfWs w2)"
| "wfMember (Member w1 k w2 e) = (wfWs w1 \<and> wfStr k \<and> wfWs w2 \<and> wfElem e)"

text \<open>The value a text denotes; a later member of an object replaces an earlier one of the same key.\<close>

definition putAll :: "(jsstring \<times> json) list \<Rightarrow> (jsstring \<times> json) list \<Rightarrow> (jsstring \<times> json) list" where
  "putAll kvs acc = foldl (\<lambda>a kv. objPut (fst kv) (snd kv) a) acc kvs"

fun vVal :: "jval \<Rightarrow> json"
  and vElem :: "elem \<Rightarrow> json"
  and vMember :: "member \<Rightarrow> jsstring \<times> json"
where
  "vVal VNull = JNull"
| "vVal (VBool b) = JBool b"
| "vVal (VNum neg ip fr) = JNumber (numLiteral neg ip fr)"
| "vVal (VStr s) = JString s"
| "vVal (VArr w es) = JArray (map vElem es)"
| "vVal (VObj w ms) = JObject (putAll (map vMember ms) [])"
| "vElem (Elem w1 v w2) = vVal v"
| "vMember (Member w1 k w2 e) = (k, vElem e)"

text \<open>
  The same text in the layout the JSON reconstructor writes: no whitespace but one space
  after each colon.
\<close>

fun nVal :: "jval \<Rightarrow> jval"
  and nElem :: "elem \<Rightarrow> elem"
  and nMember :: "member \<Rightarrow> member"
where
  "nVal VNull = VNull"
| "nVal (VBool b) = VBool b"
| "nVal (VNum neg ip fr) = VNum neg ip fr"
| "nVal (VStr s) = VStr s"
| "nVal (VArr w es) = VArr [] (map nElem es)"
| "nVal (VObj w ms) = VObj [] (map nMember ms)"
| "nElem (Elem w1 v w2) = Elem [] (nVal v) []"
| "nMember (Member w1 k w2 e) =
     Member [] k [] (case nElem e of Elem a v b \<Rightarrow> Elem [32] v b)"

definition isContainer :: "jval \<Rightarrow> bool" where
  "isContainer v = (case v of VArr _ _ \<Rightarrow> True | VObj _ _ \<Rightarrow> True | _ \<Rightarrow> False)"

text \<open>
  A bound on the nested calls and loop iterations the JSON reconstructor makes on a text:
  one iteration for each element and for the closer, two calls around each member.
\<close>

fun needsA :: "nat list \<Rightarrow> nat" where
  "needsA [] = 1"
| "needsA (f # fs) = 1 + f + needsA fs"

fun needsO :: "nat list \<Rightarrow> nat" where
  "needsO [] = 1"
| "needsO (f # fs) = 2 + f + needsO fs"

fun fuelV :: "jval \<Rightarrow> nat"
  and fuelE :: "elem \<Rightarrow> nat"
  and fuelM :: "member \<Rightarrow> nat"
where
  "fuelV VNull = 1"
| "fuelV (VBool b) = 1"
| "fuelV (VNum neg ip fr) = 1"
| "fuelV (VStr s) = 1"
| "fuelV (VArr w es) = 2 + needsA (map fuelE es)"
| "fuelV (VObj w ms) = 2 + needsO (map fuelM ms)"
| "fuelE (Elem w1 v w2) = fuelV v"
| "fuelM (Member w1 k w2 e) = fuelE e"

subsection \<open>The candidates of the lexer at the tokens of a valid text\<close>

lemma isJsonWs_isSpace: "isJsonWs c \<Longrightarrow> isSpace c"
  by (auto simp: isJsonWs_def isSpace_def)

lemma drop_head:
  assumes "drop pos inp = c # rest"
  shows "pos < length inp" and "inp ! pos = c" and "drop (pos + 1) inp = rest"
proof -
  from drop_Cons_length [OF assms] show l: "pos < length inp" by simp
  then have "inp ! pos = hd (drop pos inp)"
    by (simp add: hd_drop_conv_nth)
  with assms show "inp ! pos = c" by simp
  have "drop (pos + 1) inp = drop 1 (drop pos inp)"
    by (simp add: add.commute)
  with assms show "drop (pos + 1) inp = rest" by simp
qed

lemma drop_append_length:
  assumes "drop pos inp = x @ rest"
  shows "drop (pos + length x) inp = rest"
proof -
  have "drop (pos + length x) inp = drop (length x) (drop pos inp)"
    by (simp add: add.commute)
  with assms show ?thesis by simp
qed

lemma lex_punct:
  assumes "drop pos inp = c # rest" and "punctMap c = Some t" and "c \<noteq> 45"
  shows "nextTokenCandidates inp pos = [mkTok t [c] (pos + 1) 0 None]"
proof -
  from assms(2,3) have c: "c = 123 \<or> c = 125 \<or> c = 91 \<or> c = 93 \<or> c = 58 \<or> c = 44"
    by (auto simp: punctMap_def split: if_splits)
  note d = assms(1)
  have f: "tryFence inp pos = []"
    using c d by (auto simp: tryFence_def peekAhead_def js_def)
  have s: "tryString inp pos = []"
    using c by (auto simp: tryString_def d isUQuote_def)
  have n: "tryNumber inp pos = []"
    using c by (auto simp: tryNumber_def d isDigit_def)
  have k: "tryKeyword inp pos = []"
    using c by (auto simp: tryKeyword_def peekAhead_def d js_def)
  have "\<not> isWordStart c"
    using c by (auto simp: isWordStart_def isAlpha_def)
  then have b: "tryBareWord inp pos = []"
    by (simp add: tryBareWord_def d)
  have w: "tryWhitespace inp pos = []"
    using c by (auto simp: tryWhitespace_def d isSpace_def)
  have p: "tryPunctuation inp pos = [mkTok t [c] (pos + 1) 0 None]"
    using assms(2) by (simp add: tryPunctuation_def d)
  from drop_head(1) [OF d] show ?thesis
    by (simp add: nextTokenCandidates_def isEOF_def f s n k b w p)
qed

lemma lex_ws:
  assumes "drop pos inp = w @ rest" and "w \<noteq> []" and "wfWs w"
    and "rest = [] \<or> \<not> isSpace (hd rest)"
  shows "nextTokenCandidates inp pos =
     [mkTok (if 10 \<in> set w then NEWLINE else WHITESPACE) w (pos + length w) 0 None]"
proof -
  from assms(2) obtain c w' where w: "w = c # w'" by (cases w) auto
  with assms(1) have d: "drop pos inp = c # (w' @ rest)" by simp
  from assms(3) w have c: "c = 32 \<or> c = 9 \<or> c = 10 \<or> c = 13"
    by (simp add: wfWs_def isJsonWs_def)
  from assms(3) have "\<forall>x \<in> set w. isSpace x"
    by (auto simp: wfWs_def list_all_iff isJsonWs_isSpace)
  with assms(4) have t: "takeWhile isSpace (w @ rest) = w"
    by (cases rest) (simp_all add: takeWhile_append2 takeWhile_tail)
  have f: "tryFence inp pos = []"
    using c d by (auto simp: tryFence_def peekAhead_def js_def)
  have s: "tryString inp pos = []"
    using c by (auto simp: tryString_def d isUQuote_def)
  have n: "tryNumber inp pos = []"
    using c by (auto simp: tryNumber_def d isDigit_def)
  have k: "tryKeyword inp pos = []"
    using c by (auto simp: tryKeyword_def peekAhead_def d js_def)
  have "\<not> isWordStart c"
    using c by (auto simp: isWordStart_def isAlpha_def)
  then have b: "tryBareWord inp pos = []"
    by (simp add: tryBareWord_def d)
  have p: "tryPunctuation inp pos = []"
    using c by (auto simp: tryPunctuation_def d punctMap_def)
  have "isSpace c"
    using c by (auto simp: isSpace_def)
  then have ws: "tryWhitespace inp pos =
      [mkTok (if 10 \<in> set w then NEWLINE else WHITESPACE) w (pos + length w) 0 None]"
    using t by (simp add: tryWhitespace_def d w)
  from drop_head(1) [OF d] show ?thesis
    by (simp add: nextTokenCandidates_def isEOF_def f s n k b p ws)
qed

lemma scanQuoted_plain:
  "list_all (\<lambda>c. c \<noteq> 34 \<and> c \<noteq> 92) s \<Longrightarrow>
     scanQuoted 34 sc (s @ 34 # rest) False v p = [mkTok STRING (v @ s) (p + length s + 1) sc None]"
  by (induction s arbitrary: v p) simp_all

lemma lex_str:
  assumes "drop pos inp = 34 # s @ 34 # rest" and "wfStr s"
  shows "nextTokenCandidates inp pos = [mkTok STRING s (pos + length s + 2) 0 None]"
proof -
  note d = assms(1)
  from assms(2) have "list_all (\<lambda>c. c \<noteq> 34 \<and> c \<noteq> 92) s"
    by (auto simp: wfStr_def list_all_iff)
  from scanQuoted_plain [OF this, of 0 rest "[]" "pos + 1"]
  have s: "tryString inp pos = [mkTok STRING s (pos + length s + 2) 0 None]"
    by (simp add: tryString_def d isUQuote_def)
  have f: "tryFence inp pos = []"
    using d by (auto simp: tryFence_def peekAhead_def js_def)
  have n: "tryNumber inp pos = []"
    by (simp add: tryNumber_def d isDigit_def)
  have k: "tryKeyword inp pos = []"
    by (auto simp: tryKeyword_def peekAhead_def d js_def)
  have "\<not> isWordStart 34"
    by (auto simp: isWordStart_def isAlpha_def)
  then have b: "tryBareWord inp pos = []"
    by (simp add: tryBareWord_def d)
  have p: "tryPunctuation inp pos = []"
    by (auto simp: tryPunctuation_def d punctMap_def)
  have w: "tryWhitespace inp pos = []"
    by (auto simp: tryWhitespace_def d isSpace_def)
  from drop_head(1) [OF d] show ?thesis
    by (simp add: nextTokenCandidates_def isEOF_def f s n k b p w)
qed

text \<open>What follows a value in a valid text: nothing, whitespace, a comma or a closer.\<close>

definition follow :: "jsstring \<Rightarrow> bool" where
  "follow r = (case r of [] \<Rightarrow> True | c # _ \<Rightarrow> isJsonWs c \<or> c = 44 \<or> c = 93 \<or> c = 125)"

lemma follow_cases:
  assumes "follow r"
  obtains "r = []" | c r' where "r = c # r'" "isJsonWs c \<or> c = 44 \<or> c = 93 \<or> c = 125"
  using assms by (cases r) (auto simp: follow_def)

lemma follow_head:
  assumes "follow (c # r)"
  shows "\<not> isDigit c" and "c \<noteq> 46" and "\<not> isWordChar c" and "c \<noteq> 101" and "c \<noteq> 69"
  using assms by (auto simp: follow_def isJsonWs_def isDigit_def isWordChar_def isAlpha_def)

lemma takeWhile_digits:
  assumes "list_all isDigit ds" and "r = [] \<or> \<not> isDigit (hd r)"
  shows "takeWhile isDigit (ds @ r) = ds" and "dropWhile isDigit (ds @ r) = r"
proof -
  from assms(1) have a: "\<forall>x \<in> set ds. isDigit x"
    by (simp add: list_all_iff)
  with assms(2) show "takeWhile isDigit (ds @ r) = ds"
    by (cases r) (simp_all add: takeWhile_append2 takeWhile_tail)
  from a assms(2) show "dropWhile isDigit (ds @ r) = r"
    by (cases r) (simp_all add: dropWhile_append2)
qed

lemma insort_key_least: "f x = (0::nat) \<Longrightarrow> insort_key f x ys = x # ys"
  by (cases ys) simp_all

lemma lex_num:
  assumes "drop pos inp = numLiteral neg ip fr @ rest" and "wfNum ip fr" and "follow rest"
  shows "\<exists>cs. nextTokenCandidates inp pos =
     mkTok NUMBER (numLiteral neg ip fr) (pos + length (numLiteral neg ip fr)) 0 None # cs"
proof -
  from assms(2) obtain d ip' where ip: "ip = d # ip'" and dig: "isDigit d"
    and ipd: "list_all isDigit ip'"
    by (cases ip) (auto simp: wfNum_def)
  define FR where "FR = (case fr of None \<Rightarrow> [] | Some fs \<Rightarrow> 46 # fs) @ rest"
  define R1 where "R1 = ip' @ FR"
  define ch where "ch = (if neg then 45 else d)"
  define rest0 where "rest0 = (if neg then d # R1 else R1)"
  define sign :: jsstring where "sign = (if neg then [45] else [])"
  have d: "drop pos inp = ch # rest0"
    using assms(1) by (simp add: numLiteral_def ch_def rest0_def R1_def FR_def ip)
  have c: "ch = 45 \<or> isDigit ch"
    using dig by (simp add: ch_def)
  have r1: "(if ch = 45 then ([ch], rest0) else ([], ch # rest0)) = (sign, d # R1)"
    using dig by (auto simp: ch_def rest0_def sign_def isDigit_def)
  have fnd: "FR = [] \<or> \<not> isDigit (hd FR)"
  proof (cases fr)
    case None
    with assms(3) show ?thesis
      by (cases rest) (auto simp: FR_def dest: follow_head(1))
  next
    case (Some fs)
    then show ?thesis by (simp add: FR_def isDigit_def)
  qed
  have tw: "takeWhile isDigit R1 = ip'"
    unfolding R1_def using takeWhile_digits(1) [OF ipd fnd] .
  have dr: "drop (length ip') R1 = FR"
    by (simp add: R1_def)
  have lit: "numLiteral neg ip fr = sign @ d # ip' @ (case fr of None \<Rightarrow> [] | Some fs \<Rightarrow> 46 # fs)"
    by (simp add: numLiteral_def sign_def ip)
  have n: "tryNumber inp pos =
      [mkTok NUMBER (numLiteral neg ip fr) (pos + length (numLiteral neg ip fr)) 0 None]"
  proof (cases fr)
    case None
    then have litN: "numLiteral neg ip fr = sign @ d # ip'"
      by (simp add: numLiteral_def sign_def ip)
    show ?thesis
    proof (cases rest)
      case Nil
      with None have "FR = []" by (simp add: FR_def)
      with c dig show ?thesis
        unfolding tryNumber_def d list.case r1
        by (simp add: tw dr litN mkTok_def)
    next
      case (Cons e r2)
      with assms(3) have "e \<noteq> 46" by (auto dest: follow_head(2))
      moreover from Cons None have "FR = e # r2" by (simp add: FR_def)
      ultimately show ?thesis
        using c dig unfolding tryNumber_def d list.case r1
        by (simp add: tw dr litN mkTok_def)
    qed
  next
    case (Some fs)
    from assms(2) Some have fsd: "list_all isDigit fs" by (simp add: wfNum_def)
    have "rest = [] \<or> \<not> isDigit (hd rest)"
      using assms(3) by (cases rest) (auto dest: follow_head(1))
    from takeWhile_digits(1) [OF fsd this] have tf: "takeWhile isDigit (fs @ rest) = fs" .
    from Some have litS: "numLiteral neg ip fr = sign @ d # ip' @ 46 # fs"
      by (simp add: numLiteral_def sign_def ip)
    from Some have "FR = 46 # (fs @ rest)" by (simp add: FR_def)
    with c dig show ?thesis
      unfolding tryNumber_def d list.case r1
      by (simp add: tw dr litS tf mkTok_def)
  qed
  have f: "tryFence inp pos = []"
    using c d by (auto simp: tryFence_def peekAhead_def js_def isDigit_def)
  have s: "tryString inp pos = []"
    using c by (auto simp: tryString_def d isUQuote_def isDigit_def)
  from drop_head(1) [OF d] show ?thesis
    by (simp add: nextTokenCandidates_def isEOF_def f s n mkTok_def insort_key_least)
qed

lemma lex_keyword:
  assumes "drop pos inp = kw @ rest"
    and "(kw, tok) \<in> {(js ''true'', mkTok BOOLEAN (js ''true'') (pos + 4) 0 None),
                       (js ''false'', mkTok BOOLEAN (js ''false'') (pos + 5) 0 None),
                       (js ''null'', mkTok NULL (js ''null'') (pos + 4) 0 None)}"
  shows "\<exists>cs. nextTokenCandidates inp pos = tok # cs"
proof -
  from assms(2) obtain c kw' where kw: "kw = c # kw'" and c: "c = 116 \<or> c = 102 \<or> c = 110"
    by (auto simp: js_def)
  with assms(1) have d: "drop pos inp = c # (kw' @ rest)" by simp
  have f: "tryFence inp pos = []"
    using c d by (auto simp: tryFence_def peekAhead_def js_def)
  have s: "tryString inp pos = []"
    using c by (auto simp: tryString_def d isUQuote_def)
  have n: "tryNumber inp pos = []"
    using c by (auto simp: tryNumber_def d isDigit_def)
  have k: "tryKeyword inp pos = [tok]"
    using assms by (auto simp: tryKeyword_def peekAhead_def js_def)
  from assms(2) have "tscore tok = 0"
    by (auto simp: mkTok_def)
  with drop_head(1) [OF d] show ?thesis
    by (simp add: nextTokenCandidates_def isEOF_def f s n k insort_key_least)
qed

lemma skipWhitespace_stop:
  assumes "drop pos inp = rest" and "rest = [] \<or> \<not> isSpace (hd rest)"
  shows "skipWhitespace inp pos = pos"
proof (cases "nextTokenCandidates inp pos")
  case Nil
  then show ?thesis by (simp add: skipWhitespace.simps [of inp pos])
next
  case (Cons c cs)
  have "\<not> (ttype c = WHITESPACE \<or> ttype c = NEWLINE)"
  proof
    assume "ttype c = WHITESPACE \<or> ttype c = NEWLINE"
    with whitespace_candidate [of c inp pos] Cons
    have l: "pos < length inp" and sp: "isSpace (inp ! pos)" by simp_all
    from l have "inp ! pos = hd (drop pos inp)"
      by (simp add: hd_drop_conv_nth)
    with assms l sp show False by auto
  qed
  with Cons show ?thesis by (simp add: skipWhitespace.simps [of inp pos])
qed

lemma skipWhitespace_over:
  assumes "drop pos inp = w @ rest" and "wfWs w" and "rest = [] \<or> \<not> isSpace (hd rest)"
  shows "skipWhitespace inp pos = pos + length w"
proof (cases "w = []")
  case True
  with assms(1,3) skipWhitespace_stop [of pos inp rest] show ?thesis by simp
next
  case False
  from lex_ws [OF assms(1) False assms(2,3)]
  have "skipWhitespace inp pos = skipWhitespace inp (pos + length w)"
    by (simp add: skipWhitespace.simps [of inp pos] mkTok_def)
  with skipWhitespace_stop [OF drop_append_length [OF assms(1)] assms(3)]
  show ?thesis by simp
qed

lemma at_punct:
  assumes "drop pos inp = c # rest" and "punctMap c = Some t" and "c \<noteq> 45"
  shows "peekType inp pos t' = (t' = t)"
    and "consumeBest inp pos = (Some (mkTok t [c] (pos + 1) 0 None), pos + 1)"
    and "consume inp pos t = (True, pos + 1)"
    and "t' \<noteq> t \<Longrightarrow> consume inp pos t' = (False, pos)"
proof -
  note l = lex_punct [OF assms]
  show p: "peekType inp pos t' = (t' = t)"
    by (auto simp: peekType_def l mkTok_def)
  show b: "consumeBest inp pos = (Some (mkTok t [c] (pos + 1) 0 None), pos + 1)"
    by (simp add: consumeBest_def l mkTok_def)
  have "peekType inp pos t"
    by (simp add: peekType_def l mkTok_def)
  with b show "consume inp pos t = (True, pos + 1)"
    by (simp add: consume_def)
  show "t' \<noteq> t \<Longrightarrow> consume inp pos t' = (False, pos)"
    using p by (simp add: consume_def)
qed

subsection \<open>The first character of a value\<close>

lemma rVal_head:
  assumes "wfVal v"
  shows "rVal v \<noteq> [] \<and> \<not> isSpace (hd (rVal v))"
proof (cases v)
  case VNull
  then show ?thesis by (simp add: js_def isSpace_def)
next
  case (VBool b)
  then show ?thesis by (simp add: js_def isSpace_def)
next
  case (VNum neg ip fr)
  with assms obtain d ip' where "ip = d # ip'" "isDigit d"
    by (cases ip) (auto simp: wfNum_def)
  with VNum show ?thesis
    by (auto simp: numLiteral_def isSpace_def isDigit_def)
next
  case (VStr s)
  then show ?thesis by (simp add: isSpace_def)
next
  case (VArr w es)
  then show ?thesis by (simp add: isSpace_def)
next
  case (VObj w ms)
  then show ?thesis by (simp add: isSpace_def)
qed

subsection \<open>The JSON reconstructor on a valid text\<close>

text \<open>
  The text that remains in an array after the value of an element: the whitespace \<open>w\<close>
  after that value, then each further element after its comma, then the closer.  In an
  object the whitespace after a value is consumed with the member.
\<close>

fun tailA :: "jsstring \<Rightarrow> elem list \<Rightarrow> jsstring" where
  "tailA w [] = w @ [93]"
| "tailA w (e # es) = w @ 44 # eLead e @ rVal (eVal e) @ tailA (eTrail e) es"

fun tailO :: "member list \<Rightarrow> jsstring" where
  "tailO [] = [125]"
| "tailO (m # ms) = 44 # rMember m @ tailO ms"

lemma rElem_sel: "rElem e = eLead e @ rVal (eVal e) @ eTrail e"
  by (cases e) simp

lemma wfElem_sel: "wfElem e = (wfWs (eLead e) \<and> wfVal (eVal e) \<and> wfWs (eTrail e))"
  by (cases e) simp

lemma fuelE_sel: "fuelE e = fuelV (eVal e)"
  by (cases e) simp

lemma commaSep_tailA:
  "commaSep (map rElem (e # es)) @ [93] = eLead e @ rVal (eVal e) @ tailA (eTrail e) es"
  by (induction es arbitrary: e) (simp_all add: rElem_sel)


lemma commaSep_tailO: "commaSep (map rMember (m # ms)) @ [125] = rMember m @ tailO ms"
  by (induction ms arbitrary: m) simp_all

lemma follow_ws: "wfWs w \<Longrightarrow> follow (c # r) \<Longrightarrow> follow (w @ c # r)"
  by (cases w) (simp_all add: follow_def wfWs_def)

lemma follow_tailA:
  assumes "wfWs w"
  shows "follow (tailA w es @ rest)"
proof -
  have "follow (93 # r)" "follow (44 # r)" for r
    by (simp_all add: follow_def)
  with assms show ?thesis
    by (cases es) (simp_all add: follow_ws)
qed

lemma follow_tailO: "follow (tailO ms @ rest)"
  by (cases ms) (simp_all add: follow_def)

lemma not_space_punct: "c = 44 \<or> c = 93 \<or> c = 125 \<or> c = 58 \<or> c = 34 \<Longrightarrow> \<not> isSpace c"
  by (auto simp: isSpace_def)

text \<open>
  \<open>simV inp v\<close>: wherever the text of \<open>v\<close> stands in \<open>inp\<close>, followed by what may follow a
  value, \<open>parseValue\<close> returns the text of \<open>v\<close> in the reconstructor's layout and moves the
  cursor past \<open>v\<close>, logging no repair.
\<close>

definition simV :: "jsstring \<Rightarrow> jval \<Rightarrow> bool" where
  "simV inp v \<longleftrightarrow>
     (\<forall>st n rest. wfVal v \<longrightarrow> drop (rpos st) inp = rVal v @ rest \<longrightarrow> follow rest \<longrightarrow> fuelV v \<le> n \<longrightarrow>
        parseValue n inp st = Some (rVal (nVal v), st\<lparr>rpos := rpos st + length (rVal v)\<rparr>))"

lemma simV_D:
  assumes "simV inp v" and "wfVal v" and "drop (rpos st) inp = rVal v @ rest" and "follow rest"
    and "fuelV v \<le> n"
  shows "parseValue n inp st = Some (rVal (nVal v), st\<lparr>rpos := rpos st + length (rVal v)\<rparr>)"
  using assms unfolding simV_def by blast

lemma not_EOF: "drop pos inp = c # r \<Longrightarrow> \<not> isEOF inp pos"
  using drop_head(1) [of pos inp c r] by (simp add: isEOF_def)

lemma arrayLoop_sim:
  "\<forall>e \<in> set es. simV inp (eVal e) \<Longrightarrow> list_all wfElem es \<Longrightarrow> wfWs w \<Longrightarrow>
   drop (rpos st) inp = tailA w es @ rest \<Longrightarrow> needsA (map fuelE es) \<le> n \<Longrightarrow>
   parseArrayLoop n inp parts True st =
     Some (concat parts @ concat (map (\<lambda>e. 44 # rVal (nVal (eVal e))) es) @ [93],
           st\<lparr>rpos := rpos st + length (tailA w es)\<rparr>)"
proof (induction es arbitrary: w st n parts)
  case Nil
  from Nil.prems(5) obtain m where n: "n = Suc m" by (cases n) simp_all
  from Nil.prems(4) have d: "drop (rpos st) inp = w @ 93 # rest" by simp
  have e: "\<not> isEOF inp (rpos st)"
    using d by (cases w) (auto dest: not_EOF)
  have sp: "skipWhitespace inp (rpos st) = rpos st + length w"
    using skipWhitespace_over [OF d Nil.prems(3)] by (simp add: not_space_punct)
  have d1: "drop (rpos st + length w) inp = 93 # rest"
    using drop_append_length [OF d] .
  have pm: "punctMap 93 = Some BRACKET_CLOSE" by (simp add: punctMap_def)
  note ap = at_punct [OF d1 pm]
  show ?case
    unfolding n using e by (simp add: sp ap js_def)
next
  case (Cons e es)
  from Cons.prems(5) obtain m where n: "n = Suc m" by (cases n) simp_all
  let ?v = "eVal e"
  from Cons.prems(2) have "wfElem e" and wfs: "list_all wfElem es"
    by simp_all
  then have wf: "wfWs (eLead e)" "wfVal ?v" "wfWs (eTrail e)" "list_all wfElem es"
    by (simp_all add: wfElem_sel)
  from Cons.prems(4)
  have d: "drop (rpos st) inp = w @ 44 # eLead e @ rVal ?v @ tailA (eTrail e) es @ rest"
    by simp
  have e: "\<not> isEOF inp (rpos st)"
    using d by (cases w) (auto dest: not_EOF)
  have sp: "skipWhitespace inp (rpos st) = rpos st + length w"
    using skipWhitespace_over [OF d Cons.prems(3)] by (simp add: not_space_punct)
  have d1: "drop (rpos st + length w) inp = 44 # eLead e @ rVal ?v @ tailA (eTrail e) es @ rest"
    using drop_append_length [OF d] .
  have pm: "punctMap 44 = Some COMMA" by (simp add: punctMap_def)
  note ap = at_punct [OF d1 pm]
  have d2: "drop (rpos st + length w + 1) inp = eLead e @ (rVal ?v @ tailA (eTrail e) es @ rest)"
    using drop_head(3) [OF d1] by simp
  from rVal_head [OF wf(2)]
  have hv: "rVal ?v @ tailA (eTrail e) es @ rest = [] \<or> \<not> isSpace (hd (rVal ?v @ tailA (eTrail e) es @ rest))"
    by simp
  have sp2: "skipWhitespace inp (rpos st + length w + 1) = rpos st + length w + 1 + length (eLead e)"
    using skipWhitespace_over [OF d2 wf(1) hv] .
  let ?st2 = "st\<lparr>rpos := rpos st + length w + 1 + length (eLead e)\<rparr>"
  have d3: "drop (rpos ?st2) inp = rVal ?v @ (tailA (eTrail e) es @ rest)"
    using drop_append_length [OF d2] by simp
  from Cons.prems(5) n have f: "fuelV ?v \<le> m" "needsA (map fuelE es) \<le> m"
    by (simp_all add: fuelE_sel [of e])
  from Cons.prems(1) have sv: "simV inp ?v" and svs: "\<forall>e \<in> set es. simV inp (eVal e)"
    by simp_all
  have pv: "parseValue m inp ?st2 =
      Some (rVal (nVal ?v), ?st2\<lparr>rpos := rpos ?st2 + length (rVal ?v)\<rparr>)"
    using simV_D [OF sv wf(2) d3 follow_tailA [OF wf(3)] f(1)] .
  let ?st3 = "?st2\<lparr>rpos := rpos ?st2 + length (rVal ?v)\<rparr>"
  have d4: "drop (rpos ?st3) inp = tailA (eTrail e) es @ rest"
    using drop_append_length [OF d3] by simp
  have lp: "parseArrayLoop m inp ((parts @ [js '','']) @ [rVal (nVal ?v)]) True ?st3 =
      Some (concat ((parts @ [js '','']) @ [rVal (nVal ?v)])
              @ concat (map (\<lambda>e. 44 # rVal (nVal (eVal e))) es) @ [93],
            ?st3\<lparr>rpos := rpos ?st3 + length (tailA (eTrail e) es)\<rparr>)"
    using Cons.IH [OF svs wf(4) wf(3) d4 f(2)] .
  show ?case
    unfolding n using e sp ap sp2 pv lp
    by (simp add: js_def add.assoc)
qed

subsection \<open>A member of an object\<close>

lemma mElem_sel: "rMember m = mLead m @ 34 # mKey m @ 34 # mSep m @ 58 # rElem (mElem m)"
  by (cases m) simp

lemma wfMember_sel:
  "wfMember m = (wfWs (mLead m) \<and> wfStr (mKey m) \<and> wfWs (mSep m) \<and> wfElem (mElem m))"
  by (cases m) simp

lemma fuelM_sel: "fuelM m = fuelV (eVal (mElem m))"
  by (cases m) (simp add: fuelE_sel)

definition closes :: "jsstring \<Rightarrow> bool" where
  "closes r = (case r of [] \<Rightarrow> False | c # _ \<Rightarrow> c = 44 \<or> c = 125)"

lemma closes_cases:
  assumes "closes r"
  obtains c r' where "r = c # r'" "c = 44 \<or> c = 125"
  using assms by (cases r) (auto simp: closes_def)

lemma closes_tailO: "closes (tailO ms @ rest)"
  by (cases ms) (simp_all add: closes_def)

text \<open>
  \<open>parseKeyValue\<close> at the opening quote of a key reads the key, the colon and the value,
  and \<open>skipComment\<close> moves the cursor over the whitespace after the value.
\<close>

lemma keyValue_sim:
  assumes sv: "simV inp v"
    and wf: "wfStr k" "wfWs w2" "wfWs w3" "wfVal v" "wfWs w4"
    and d: "drop (rpos st) inp = 34 # k @ 34 # w2 @ 58 # w3 @ rVal v @ w4 @ rest"
    and c: "closes rest"
    and f: "fuelV v < n"
  shows "parseKeyValue n inp st =
     Some (Some (34 # k @ 34 # 58 # 32 # rVal (nVal v)),
           st\<lparr>rpos := rpos st + length (34 # k @ 34 # w2 @ 58 # w3 @ rVal v @ w4)\<rparr>)"
proof -
  from f obtain m where n: "n = Suc m" and fm: "fuelV v \<le> m"
    by (cases n) simp_all
  from c obtain c0 r0 where r: "rest = c0 # r0" and c0: "c0 = 44 \<or> c0 = 125"
    by (rule closes_cases)
  define p0 where "p0 = rpos st"
  define p1 where "p1 = p0 + length k + 2"
  define p2 where "p2 = p1 + length w2"
  define p3 where "p3 = p2 + 1"
  define p4 where "p4 = p3 + length w3"
  define p5 where "p5 = p4 + length (rVal v)"
  define p6 where "p6 = p5 + length w4"
  have d0: "drop p0 inp = 34 # k @ 34 # (w2 @ 58 # w3 @ rVal v @ w4 @ rest)"
    using d by (simp add: p0_def)
  have s0: "skipWhitespace inp p0 = p0"
    by (rule skipWhitespace_stop [OF d0]) (simp add: isSpace_def)
  note t0 = lex_str [OF d0 wf(1)]
  have "drop (p0 + length (34 # k @ [34])) inp = w2 @ 58 # w3 @ rVal v @ w4 @ rest"
    by (rule drop_append_length) (simp add: d0)
  then have d1: "drop p1 inp = w2 @ (58 # w3 @ rVal v @ w4 @ rest)"
    by (simp add: p1_def)
  have s1: "skipWhitespace inp p1 = p2"
    unfolding p2_def by (rule skipWhitespace_over [OF d1 wf(2)]) (simp add: isSpace_def)
  have d2: "drop p2 inp = 58 # (w3 @ (rVal v @ w4 @ rest))"
    unfolding p2_def using drop_append_length [OF d1] by simp
  have pm: "punctMap 58 = Some COLON" by (simp add: punctMap_def)
  have co: "consume inp p2 COLON = (True, p3)"
    unfolding p3_def by (rule at_punct(3) [OF d2 pm]) simp
  have d3: "drop p3 inp = w3 @ (rVal v @ w4 @ rest)"
    unfolding p3_def using drop_head(3) [OF d2] .
  from rVal_head [OF wf(4)]
  have hv: "rVal v @ w4 @ rest = [] \<or> \<not> isSpace (hd (rVal v @ w4 @ rest))"
    by simp
  have s3: "skipWhitespace inp p3 = p4"
    unfolding p4_def by (rule skipWhitespace_over [OF d3 wf(3) hv])
  have d4: "drop (rpos (st\<lparr>rpos := p4\<rparr>)) inp = rVal v @ (w4 @ rest)"
    unfolding p4_def using drop_append_length [OF d3] by simp
  have fo: "follow (w4 @ rest)"
    unfolding r using c0 by (intro follow_ws wf(5)) (auto simp: follow_def)
  have pv: "parseValue m inp (st\<lparr>rpos := p4\<rparr>) = Some (rVal (nVal v), st\<lparr>rpos := p5\<rparr>)"
    using simV_D [OF sv wf(4) d4 fo fm] by (simp add: p5_def)
  have d5: "drop p5 inp = w4 @ rest"
    unfolding p5_def using drop_append_length [OF d4] by simp
  have nr: "rest = [] \<or> \<not> isSpace (hd rest)"
    unfolding r using c0 by (auto simp: isSpace_def)
  have s5: "skipWhitespace inp p5 = p6"
    unfolding p6_def by (rule skipWhitespace_over [OF d5 wf(5) nr])
  have d6: "drop p6 inp = c0 # r0"
    unfolding p6_def using drop_append_length [OF d5] r by simp
  from c0 obtain t where pt: "punctMap c0 = Some t" and ne: "c0 \<noteq> 45"
    by (auto simp: punctMap_def)
  note t6 = lex_punct [OF d6 pt ne]
  have sc: "skipComment inp (st\<lparr>rpos := p5\<rparr>) = st\<lparr>rpos := p6\<rparr>"
    using c0 pt by (auto simp: skipComment_def s5 t6 isHash_def mkTok_def punctMap_def)
  have pk: "parseKey inp (st\<lparr>rpos := p0\<rparr>) = (Some (quoted k), st\<lparr>rpos := p1\<rparr>)"
    by (simp add: parseKey_def t0 mkTok_def p1_def)
  have st0: "st\<lparr>rpos := skipWhitespace inp (rpos st)\<rparr> = st\<lparr>rpos := p0\<rparr>"
    using s0 by (simp add: p0_def)
  have "parseKeyValue (Suc m) inp st =
      Some (Some (quoted k @ js '': '' @ rVal (nVal v)), st\<lparr>rpos := p6\<rparr>)"
    by (simp add: st0 pk s1 co s3 pv sc)
  moreover have "p6 = rpos st + length (34 # k @ 34 # w2 @ 58 # w3 @ rVal v @ w4)"
    by (simp add: p6_def p5_def p4_def p3_def p2_def p1_def p0_def)
  moreover have "quoted k @ js '': '' @ rVal (nVal v) = 34 # k @ 34 # 58 # 32 # rVal (nVal v)"
    by (simp add: quoted_def js_def)
  ultimately show ?thesis
    unfolding n by simp
qed

subsection \<open>The loops of \<open>parseObject\<close> and \<open>parseArray\<close>\<close>

lemma rMember_nMember:
  "rMember (nMember m) = 34 # mKey m @ 34 # 58 # 32 # rVal (nVal (eVal (mElem m)))"
proof (cases m)
  case (Member w1 k w2 e)
  then show ?thesis by (cases e) simp
qed

lemma rElem_nElem: "rElem (nElem e) = rVal (nVal (eVal e))"
  by (cases e) simp

lemma objectLoop_sim:
  "\<forall>m \<in> set ms. simV inp (eVal (mElem m)) \<Longrightarrow> list_all wfMember ms \<Longrightarrow>
   drop (rpos st) inp = tailO ms @ rest \<Longrightarrow> needsO (map fuelM ms) \<le> n \<Longrightarrow>
   parseObjectLoop n inp parts True st =
     Some (concat parts @ concat (map (\<lambda>m. 44 # rMember (nMember m)) ms) @ [125],
           st\<lparr>rpos := rpos st + length (tailO ms)\<rparr>)"
proof (induction ms arbitrary: st n parts)
  case Nil
  from Nil.prems(4) obtain m where n: "n = Suc m" by (cases n) simp_all
  from Nil.prems(3) have d: "drop (rpos st) inp = 125 # rest" by simp
  have e: "\<not> isEOF inp (rpos st)"
    using d by (rule not_EOF)
  have sp: "skipWhitespace inp (rpos st) = rpos st"
    by (rule skipWhitespace_stop [OF d]) (simp add: isSpace_def)
  have pm: "punctMap 125 = Some BRACE_CLOSE" by (simp add: punctMap_def)
  note ap = at_punct [OF d pm]
  show ?case
    unfolding n using e by (simp add: sp ap js_def)
next
  case (Cons m ms)
  from Cons.prems(4) obtain n' where n: "n = Suc n'" by (cases n) simp_all
  let ?k = "mKey m" and ?e = "mElem m"
  let ?v = "eVal ?e"
  from Cons.prems(2) have wfm: "wfMember m" and wfs: "list_all wfMember ms"
    by simp_all
  then have wf: "wfWs (mLead m)" "wfStr ?k" "wfWs (mSep m)" "wfWs (eLead ?e)" "wfVal ?v"
    "wfWs (eTrail ?e)"
    by (simp_all add: wfMember_sel wfElem_sel)
  define body where "body = 34 # ?k @ 34 # mSep m @ 58 # eLead ?e @ rVal ?v @ eTrail ?e"
  from Cons.prems(3)
  have d: "drop (rpos st) inp = 44 # (mLead m @ body @ tailO ms @ rest)"
    by (simp add: mElem_sel rElem_sel body_def)
  have e: "\<not> isEOF inp (rpos st)"
    using d by (rule not_EOF)
  have sp: "skipWhitespace inp (rpos st) = rpos st"
    by (rule skipWhitespace_stop [OF d]) (simp add: isSpace_def)
  have pm: "punctMap 44 = Some COMMA" by (simp add: punctMap_def)
  note ap = at_punct [OF d pm]
  have d1: "drop (rpos st + 1) inp = mLead m @ (body @ tailO ms @ rest)"
    using drop_head(3) [OF d] .
  have "body @ tailO ms @ rest = [] \<or> \<not> isSpace (hd (body @ tailO ms @ rest))"
    by (simp add: body_def isSpace_def)
  from skipWhitespace_over [OF d1 wf(1) this]
  have sp1: "skipWhitespace inp (rpos st + 1) = rpos st + 1 + length (mLead m)" .
  let ?st2 = "st\<lparr>rpos := rpos st + 1 + length (mLead m)\<rparr>"
  have d2: "drop (rpos ?st2) inp =
      34 # ?k @ 34 # mSep m @ 58 # eLead ?e @ rVal ?v @ eTrail ?e @ (tailO ms @ rest)"
    using drop_append_length [OF d1] by (simp add: body_def)
  from Cons.prems(4) n have f: "fuelV ?v < n'" "needsO (map fuelM ms) \<le> n'"
    by (simp_all add: fuelM_sel [of m])
  from Cons.prems(1) have sv: "simV inp ?v" and svs: "\<forall>m \<in> set ms. simV inp (eVal (mElem m))"
    by simp_all
  let ?st3 = "?st2\<lparr>rpos := rpos ?st2 + length body\<rparr>"
  have kv: "parseKeyValue n' inp ?st2 =
      Some (Some (34 # ?k @ 34 # 58 # 32 # rVal (nVal ?v)), ?st3)"
    using keyValue_sim [OF sv wf(2,3,4,5,6) d2 closes_tailO f(1)] by (simp add: body_def)
  have d3: "drop (rpos ?st3) inp = tailO ms @ rest"
    using drop_append_length [of "rpos ?st2" inp body "tailO ms @ rest"] d2
    by (simp add: body_def)
  have lp: "parseObjectLoop n' inp ((parts @ [js '','']) @ [34 # ?k @ 34 # 58 # 32 # rVal (nVal ?v)])
        True ?st3 =
      Some (concat ((parts @ [js '','']) @ [34 # ?k @ 34 # 58 # 32 # rVal (nVal ?v)])
              @ concat (map (\<lambda>m. 44 # rMember (nMember m)) ms) @ [125],
            ?st3\<lparr>rpos := rpos ?st3 + length (tailO ms)\<rparr>)"
    using Cons.IH [OF svs wfs d3 f(2)] .
  have len: "length (tailO (m # ms)) = 1 + length (mLead m) + length body + length (tailO ms)"
    by (simp add: mElem_sel rElem_sel body_def)
  show ?case
    unfolding n len using e sp ap sp1 kv lp
    by (simp add: js_def add.assoc rMember_nMember)
qed

subsection \<open>\<open>parseValue\<close> on a valid text\<close>

lemma peek_punct:
  assumes "peekType inp pos t" and "isPunct t" and "drop pos inp = c # r"
  shows "punctMap c = Some t"
proof -
  from assms(1) obtain x xs where x: "nextTokenCandidates inp pos = x # xs" and t: "ttype x = t"
    by (cases "nextTokenCandidates inp pos") (auto simp: peekType_def)
  then have "x \<in> set (nextTokenCandidates inp pos)" by simp
  from punct_candidate [OF this] t assms(2) have "punctMap (inp ! pos) = Some t"
    by simp
  with drop_head(2) [OF assms(3)] show ?thesis by simp
qed

lemma rVal_first:
  assumes "wfVal v"
  obtains c r where "rVal v = c # r" and "c \<noteq> 93" and "c \<noteq> 125" and "\<not> isSpace c"
proof -
  from rVal_head [OF assms] obtain c r where r: "rVal v = c # r" and s: "\<not> isSpace c"
    by (cases "rVal v") auto
  have "c \<noteq> 93 \<and> c \<noteq> 125"
  proof (cases v)
    case (VNum neg ip fr)
    with assms obtain d ip' where "ip = d # ip'" "isDigit d"
      by (cases ip) (auto simp: wfNum_def)
    with VNum r show ?thesis
      by (auto simp: numLiteral_def isDigit_def split: if_splits)
  qed (use r in \<open>auto simp: js_def split: if_splits\<close>)
  with r s that show ?thesis by blast
qed

lemma commaSep_nElem:
  "commaSep (map rElem (map nElem (e # es))) =
     rVal (nVal (eVal e)) @ concat (map (\<lambda>e. 44 # rVal (nVal (eVal e))) es)"
  by (induction es arbitrary: e) (simp_all add: rElem_nElem)

lemma commaSep_nMember:
  "commaSep (map rMember (map nMember (m # ms))) =
     rMember (nMember m) @ concat (map (\<lambda>m. 44 # rMember (nMember m)) ms)"
  by (induction ms arbitrary: m) simp_all

lemma array_sim:
  assumes svs: "\<forall>e \<in> set es. simV inp (eVal e)"
    and wf: "wfWs w" "list_all wfElem es"
    and d: "drop (rpos st) inp = rVal (VArr w es) @ rest"
    and f: "needsA (map fuelE es) \<le> n"
  shows "parseArrayLoop n inp [js ''[''] False (st\<lparr>rpos := rpos st + 1\<rparr>) =
     Some (rVal (nVal (VArr w es)), st\<lparr>rpos := rpos st + length (rVal (VArr w es))\<rparr>)"
proof (cases es)
  case Nil
  from f obtain m where n: "n = Suc m" by (cases n) (simp_all add: Nil)
  from d Nil have d0: "drop (rpos st) inp = 91 # (w @ 93 # rest)" by simp
  have d1: "drop (rpos st + 1) inp = w @ 93 # rest"
    using drop_head(3) [OF d0] .
  have e: "\<not> isEOF inp (rpos st + 1)"
    using d1 by (cases w) (auto dest: not_EOF)
  have sp: "skipWhitespace inp (rpos st + 1) = rpos st + 1 + length w"
    using skipWhitespace_over [OF d1 wf(1)] by (simp add: not_space_punct)
  have d2: "drop (rpos st + 1 + length w) inp = 93 # rest"
    using drop_append_length [OF d1] .
  have pm: "punctMap 93 = Some BRACKET_CLOSE" by (simp add: punctMap_def)
  note ap = at_punct [OF d2 pm]
  show ?thesis
    unfolding n Nil using e sp ap by (simp add: js_def)
next
  case (Cons e es')
  from f obtain m where n: "n = Suc m" by (cases n) (simp_all add: Cons)
  let ?v = "eVal e"
  from wf(2) Cons have we: "wfWs (eLead e)" "wfVal ?v" "wfWs (eTrail e)" "list_all wfElem es'"
    by (simp_all add: wfElem_sel)
  from d Cons
  have d0: "drop (rpos st) inp = 91 # (eLead e @ rVal ?v @ tailA (eTrail e) es' @ rest)"
    using commaSep_tailA [of e es'] by simp
  have d1: "drop (rpos st + 1) inp = eLead e @ (rVal ?v @ tailA (eTrail e) es' @ rest)"
    using drop_head(3) [OF d0] .
  from rVal_first [OF we(2)] obtain c r where
    r: "rVal ?v = c # r" and c: "c \<noteq> 93" "\<not> isSpace c" by blast
  have e: "\<not> isEOF inp (rpos st + 1)"
    using d1 r by (cases "eLead e") (auto dest: not_EOF)
  have sp: "skipWhitespace inp (rpos st + 1) = rpos st + 1 + length (eLead e)"
    using skipWhitespace_over [OF d1 we(1)] r c by simp
  let ?st2 = "st\<lparr>rpos := rpos st + 1 + length (eLead e)\<rparr>"
  have d2: "drop (rpos ?st2) inp = rVal ?v @ (tailA (eTrail e) es' @ rest)"
    using drop_append_length [OF d1] by simp
  have np: "\<not> peekType inp (rpos st + 1 + length (eLead e)) BRACKET_CLOSE"
  proof
    assume "peekType inp (rpos st + 1 + length (eLead e)) BRACKET_CLOSE"
    from peek_punct [OF this, of c "r @ tailA (eTrail e) es' @ rest"] d2 r
    have "punctMap c = Some BRACKET_CLOSE" by (simp add: isPunct_def)
    with c(1) show False by (simp add: punctMap_def split: if_splits)
  qed
  from f n Cons have fu: "fuelV ?v \<le> m" "needsA (map fuelE es') \<le> m"
    by (simp_all add: fuelE_sel [of e])
  from svs Cons have sv: "simV inp ?v" and svs': "\<forall>e \<in> set es'. simV inp (eVal e)"
    by simp_all
  let ?st3 = "?st2\<lparr>rpos := rpos ?st2 + length (rVal ?v)\<rparr>"
  have pv: "parseValue m inp ?st2 = Some (rVal (nVal ?v), ?st3)"
    using simV_D [OF sv we(2) d2 follow_tailA [OF we(3)] fu(1)] .
  have d3: "drop (rpos ?st3) inp = tailA (eTrail e) es' @ rest"
    using drop_append_length [OF d2] by simp
  have lp: "parseArrayLoop m inp ([js ''[''] @ [rVal (nVal ?v)]) True ?st3 =
      Some (concat ([js ''[''] @ [rVal (nVal ?v)])
              @ concat (map (\<lambda>e. 44 # rVal (nVal (eVal e))) es') @ [93],
            ?st3\<lparr>rpos := rpos ?st3 + length (tailA (eTrail e) es')\<rparr>)"
    using arrayLoop_sim [OF svs' we(4) we(3) d3 fu(2)] .
  have len: "length (rVal (VArr w es)) =
      1 + length (eLead e) + length (rVal ?v) + length (tailA (eTrail e) es')"
    unfolding Cons using commaSep_tailA [of e es'] by simp
  have out: "rVal (nVal (VArr w es)) =
      91 # rVal (nVal ?v) @ concat (map (\<lambda>e. 44 # rVal (nVal (eVal e))) es') @ [93]"
    unfolding Cons using commaSep_nElem [of e es'] by simp
  show ?thesis
    unfolding n len out using e sp np pv lp
    by (simp add: js_def add.assoc)
qed

lemma object_sim:
  assumes svs: "\<forall>m \<in> set ms. simV inp (eVal (mElem m))"
    and wf: "wfWs w" "list_all wfMember ms"
    and d: "drop (rpos st) inp = rVal (VObj w ms) @ rest"
    and f: "needsO (map fuelM ms) \<le> n"
  shows "parseObjectLoop n inp [js ''{''] False (st\<lparr>rpos := rpos st + 1\<rparr>) =
     Some (rVal (nVal (VObj w ms)), st\<lparr>rpos := rpos st + length (rVal (VObj w ms))\<rparr>)"
proof (cases ms)
  case Nil
  from f obtain m where n: "n = Suc m" by (cases n) (simp_all add: Nil)
  from d Nil have d0: "drop (rpos st) inp = 123 # (w @ 125 # rest)" by simp
  have d1: "drop (rpos st + 1) inp = w @ 125 # rest"
    using drop_head(3) [OF d0] .
  have e: "\<not> isEOF inp (rpos st + 1)"
    using d1 by (cases w) (auto dest: not_EOF)
  have sp: "skipWhitespace inp (rpos st + 1) = rpos st + 1 + length w"
    using skipWhitespace_over [OF d1 wf(1)] by (simp add: not_space_punct)
  have d2: "drop (rpos st + 1 + length w) inp = 125 # rest"
    using drop_append_length [OF d1] .
  have pm: "punctMap 125 = Some BRACE_CLOSE" by (simp add: punctMap_def)
  note ap = at_punct [OF d2 pm]
  show ?thesis
    unfolding n Nil using e sp ap by (simp add: js_def)
next
  case (Cons m ms')
  from f obtain n' where n: "n = Suc n'" by (cases n) (simp_all add: Cons)
  let ?k = "mKey m" and ?e = "mElem m"
  let ?v = "eVal ?e"
  from wf(2) Cons
  have we: "wfWs (mLead m)" "wfStr ?k" "wfWs (mSep m)" "wfWs (eLead ?e)" "wfVal ?v"
    "wfWs (eTrail ?e)" "list_all wfMember ms'"
    by (simp_all add: wfMember_sel wfElem_sel)
  define body where "body = 34 # ?k @ 34 # mSep m @ 58 # eLead ?e @ rVal ?v @ eTrail ?e"
  from d Cons
  have d0: "drop (rpos st) inp = 123 # (mLead m @ body @ tailO ms' @ rest)"
    using commaSep_tailO [of m ms'] by (simp add: mElem_sel rElem_sel body_def)
  have d1: "drop (rpos st + 1) inp = mLead m @ (body @ tailO ms' @ rest)"
    using drop_head(3) [OF d0] .
  have e: "\<not> isEOF inp (rpos st + 1)"
    using d1 by (cases "mLead m") (auto dest: not_EOF simp: body_def)
  have "body @ tailO ms' @ rest = [] \<or> \<not> isSpace (hd (body @ tailO ms' @ rest))"
    by (simp add: body_def isSpace_def)
  from skipWhitespace_over [OF d1 we(1) this]
  have sp: "skipWhitespace inp (rpos st + 1) = rpos st + 1 + length (mLead m)" .
  let ?st2 = "st\<lparr>rpos := rpos st + 1 + length (mLead m)\<rparr>"
  have d2: "drop (rpos ?st2) inp =
      34 # ?k @ 34 # mSep m @ 58 # eLead ?e @ rVal ?v @ eTrail ?e @ (tailO ms' @ rest)"
    using drop_append_length [OF d1] by (simp add: body_def)
  have np: "\<not> peekType inp (rpos st + 1 + length (mLead m)) BRACE_CLOSE"
  proof
    assume "peekType inp (rpos st + 1 + length (mLead m)) BRACE_CLOSE"
    moreover have "drop (rpos st + 1 + length (mLead m)) inp =
        34 # (?k @ 34 # mSep m @ 58 # eLead ?e @ rVal ?v @ eTrail ?e @ (tailO ms' @ rest))"
      using d2 by simp
    ultimately have "punctMap 34 = Some BRACE_CLOSE"
      using peek_punct [of inp "rpos st + 1 + length (mLead m)" BRACE_CLOSE 34]
      by (simp add: isPunct_def)
    then show False by (simp add: punctMap_def)
  qed
  from f n Cons have fu: "fuelV ?v < n'" "needsO (map fuelM ms') \<le> n'"
    by (simp_all add: fuelM_sel [of m])
  from svs Cons have sv: "simV inp ?v" and svs': "\<forall>m \<in> set ms'. simV inp (eVal (mElem m))"
    by simp_all
  let ?st3 = "?st2\<lparr>rpos := rpos ?st2 + length body\<rparr>"
  have kv: "parseKeyValue n' inp ?st2 =
      Some (Some (34 # ?k @ 34 # 58 # 32 # rVal (nVal ?v)), ?st3)"
    using keyValue_sim [OF sv we(2,3,4,5,6) d2 closes_tailO fu(1)] by (simp add: body_def)
  have d3: "drop (rpos ?st3) inp = tailO ms' @ rest"
    using drop_append_length [of "rpos ?st2" inp body "tailO ms' @ rest"] d2
    by (simp add: body_def)
  have lp: "parseObjectLoop n' inp ([js ''{''] @ [34 # ?k @ 34 # 58 # 32 # rVal (nVal ?v)]) True ?st3 =
      Some (concat ([js ''{''] @ [34 # ?k @ 34 # 58 # 32 # rVal (nVal ?v)])
              @ concat (map (\<lambda>m. 44 # rMember (nMember m)) ms') @ [125],
            ?st3\<lparr>rpos := rpos ?st3 + length (tailO ms')\<rparr>)"
    using objectLoop_sim [OF svs' we(7) d3 fu(2)] .
  have len: "length (rVal (VObj w ms)) = 1 + length (mLead m) + length body + length (tailO ms')"
    unfolding Cons using commaSep_tailO [of m ms'] by (simp add: mElem_sel rElem_sel body_def)
  have out: "rVal (nVal (VObj w ms)) =
      123 # 34 # ?k @ 34 # 58 # 32 # rVal (nVal ?v)
        @ concat (map (\<lambda>m. 44 # rMember (nMember m)) ms') @ [125]"
    unfolding Cons using commaSep_nMember [of m ms'] by (simp add: rMember_nMember)
  show ?thesis
    unfolding n len out using e sp np kv lp
    by (simp add: js_def add.assoc)
qed

lemma simV_intro:
  assumes "\<And>st n rest. wfVal v \<Longrightarrow> drop (rpos st) inp = rVal v @ rest \<Longrightarrow> follow rest \<Longrightarrow>
     fuelV v \<le> n \<Longrightarrow>
     parseValue n inp st = Some (rVal (nVal v), st\<lparr>rpos := rpos st + length (rVal v)\<rparr>)"
  shows "simV inp v"
  using assms unfolding simV_def by blast

lemma simV_keyword:
  assumes "(kw, t) \<in> {(js ''true'', BOOLEAN), (js ''false'', BOOLEAN), (js ''null'', NULL)}"
    and "drop (rpos st) inp = kw @ rest"
  shows "parseValue (Suc m) inp st = Some (kw, st\<lparr>rpos := rpos st + length kw\<rparr>)"
proof -
  from assms(1) consider
      (a) "kw = js ''true''" "t = BOOLEAN"
    | (b) "kw = js ''false''" "t = BOOLEAN"
    | (c) "kw = js ''null''" "t = NULL"
    by auto
  then show ?thesis
  proof cases
    case a
    from lex_keyword [of "rpos st" inp kw rest "mkTok BOOLEAN (js ''true'') (rpos st + 4) 0 None"]
      assms(2) a(1)
    obtain cs where
      "nextTokenCandidates inp (rpos st) = mkTok BOOLEAN (js ''true'') (rpos st + 4) 0 None # cs"
      by auto
    with a show ?thesis by (simp add: mkTok_def js_def)
  next
    case b
    from lex_keyword [of "rpos st" inp kw rest "mkTok BOOLEAN (js ''false'') (rpos st + 5) 0 None"]
      assms(2) b(1)
    obtain cs where
      "nextTokenCandidates inp (rpos st) = mkTok BOOLEAN (js ''false'') (rpos st + 5) 0 None # cs"
      by auto
    with b show ?thesis by (simp add: mkTok_def js_def)
  next
    case c
    from lex_keyword [of "rpos st" inp kw rest "mkTok NULL (js ''null'') (rpos st + 4) 0 None"]
      assms(2) c(1)
    obtain cs where
      "nextTokenCandidates inp (rpos st) = mkTok NULL (js ''null'') (rpos st + 4) 0 None # cs"
      by auto
    with c show ?thesis by (simp add: mkTok_def js_def)
  qed
qed

lemma simV_all:
  "simV inp v" and "simV inp (eVal e)" and "simV inp (eVal (mElem m))"
proof (induction v and e and m)
  case VNull
  show ?case
  proof (rule simV_intro)
    fix st :: RState and n rest
    assume d: "drop (rpos st) inp = rVal VNull @ rest" and f: "fuelV VNull \<le> n"
    from f obtain m where n: "n = Suc m" by (cases n) simp_all
    from simV_keyword [of "js ''null''" NULL st inp rest m] d
    show "parseValue n inp st = Some (rVal (nVal VNull), st\<lparr>rpos := rpos st + length (rVal VNull)\<rparr>)"
      unfolding n by simp
  qed
next
  case (VBool b)
  show ?case
  proof (rule simV_intro)
    fix st :: RState and n rest
    assume d: "drop (rpos st) inp = rVal (VBool b) @ rest" and f: "fuelV (VBool b) \<le> n"
    from f obtain m where n: "n = Suc m" by (cases n) simp_all
    from simV_keyword [of "rVal (VBool b)" BOOLEAN st inp rest m] d
    show "parseValue n inp st =
        Some (rVal (nVal (VBool b)), st\<lparr>rpos := rpos st + length (rVal (VBool b))\<rparr>)"
      unfolding n by simp
  qed
next
  case (VNum neg ip fr)
  show ?case
  proof (rule simV_intro)
    fix st :: RState and n rest
    assume w: "wfVal (VNum neg ip fr)"
      and d: "drop (rpos st) inp = rVal (VNum neg ip fr) @ rest"
      and fo: "follow rest" and f: "fuelV (VNum neg ip fr) \<le> n"
    from f obtain m where n: "n = Suc m" by (cases n) simp_all
    from w have wn: "wfNum ip fr" by simp
    from d have "drop (rpos st) inp = numLiteral neg ip fr @ rest" by simp
    from lex_num [OF this wn fo] obtain cs where
      "nextTokenCandidates inp (rpos st) =
         mkTok NUMBER (numLiteral neg ip fr) (rpos st + length (numLiteral neg ip fr)) 0 None # cs"
      by blast
    then show "parseValue n inp st =
        Some (rVal (nVal (VNum neg ip fr)), st\<lparr>rpos := rpos st + length (rVal (VNum neg ip fr))\<rparr>)"
      unfolding n by (simp add: mkTok_def)
  qed
next
  case (VStr s)
  show ?case
  proof (rule simV_intro)
    fix st :: RState and n rest
    assume w: "wfVal (VStr s)"
      and d: "drop (rpos st) inp = rVal (VStr s) @ rest"
      and f: "fuelV (VStr s) \<le> n"
    from f obtain m where n: "n = Suc m" by (cases n) simp_all
    from w have ws: "wfStr s" by simp
    from d have "drop (rpos st) inp = 34 # s @ 34 # rest" by simp
    from lex_str [OF this ws]
    show "parseValue n inp st =
        Some (rVal (nVal (VStr s)), st\<lparr>rpos := rpos st + length (rVal (VStr s))\<rparr>)"
      unfolding n by (simp add: mkTok_def quoted_def js_def)
  qed
next
  case (VArr w es)
  then have svs: "\<forall>e \<in> set es. simV inp (eVal e)" by blast
  show ?case
  proof (rule simV_intro)
    fix st :: RState and n rest
    assume wf: "wfVal (VArr w es)"
      and d: "drop (rpos st) inp = rVal (VArr w es) @ rest"
      and f: "fuelV (VArr w es) \<le> n"
    from f obtain m where n: "n = Suc (Suc m)" and fm: "needsA (map fuelE es) \<le> m"
      by (cases n; cases "n - 1") simp_all
    from wf have w: "wfWs w" "list_all wfElem es" by simp_all
    from d have d0: "drop (rpos st) inp = 91 # ((if es = [] then w else commaSep (map rElem es)) @ [93] @ rest)"
      by simp
    have pm: "punctMap 91 = Some BRACKET_OPEN" by (simp add: punctMap_def)
    have t: "nextTokenCandidates inp (rpos st) = [mkTok BRACKET_OPEN [91] (rpos st + 1) 0 None]"
      by (rule lex_punct [OF d0 pm]) simp
    have c: "consume inp (rpos st) BRACKET_OPEN = (True, rpos st + 1)"
      by (rule at_punct(3) [OF d0 pm]) simp
    note a = array_sim [OF svs w d fm]
    have ne: "rVal (nVal (VArr w es)) \<noteq> []" by simp
    show "parseValue n inp st =
        Some (rVal (nVal (VArr w es)), st\<lparr>rpos := rpos st + length (rVal (VArr w es))\<rparr>)"
      unfolding n using t c a ne by (simp add: mkTok_def)
  qed
next
  case (VObj w ms)
  then have svs: "\<forall>m \<in> set ms. simV inp (eVal (mElem m))" by blast
  show ?case
  proof (rule simV_intro)
    fix st :: RState and n rest
    assume wf: "wfVal (VObj w ms)"
      and d: "drop (rpos st) inp = rVal (VObj w ms) @ rest"
      and f: "fuelV (VObj w ms) \<le> n"
    from f obtain m where n: "n = Suc (Suc m)" and fm: "needsO (map fuelM ms) \<le> m"
      by (cases n; cases "n - 1") simp_all
    from wf have w: "wfWs w" "list_all wfMember ms" by simp_all
    from d have d0: "drop (rpos st) inp = 123 # ((if ms = [] then w else commaSep (map rMember ms)) @ [125] @ rest)"
      by simp
    have pm: "punctMap 123 = Some BRACE_OPEN" by (simp add: punctMap_def)
    have t: "nextTokenCandidates inp (rpos st) = [mkTok BRACE_OPEN [123] (rpos st + 1) 0 None]"
      by (rule lex_punct [OF d0 pm]) simp
    have s: "skipWhitespace inp (rpos st) = rpos st"
      by (rule skipWhitespace_stop [OF d0]) (simp add: isSpace_def)
    have c: "consume inp (rpos st) BRACE_OPEN = (True, rpos st + 1)"
      by (rule at_punct(3) [OF d0 pm]) simp
    note a = object_sim [OF svs w d fm]
    have ne: "rVal (nVal (VObj w ms)) \<noteq> []" by simp
    show "parseValue n inp st =
        Some (rVal (nVal (VObj w ms)), st\<lparr>rpos := rpos st + length (rVal (VObj w ms))\<rparr>)"
      unfolding n using t s c a ne by (simp add: mkTok_def)
  qed
next
  case (Elem w1 v w2)
  then show ?case by simp
next
  case (Member w1 k w2 e)
  then show ?case by simp
qed

section \<open>\<^verbatim>\<open>JSON.parse\<close> on a valid text\<close>

subsection \<open>Strings and numbers\<close>

lemma jsonString_plain:
  "wfStr s \<Longrightarrow> jsonString (s @ 34 # rest) acc = Some (acc @ s, rest)"
proof (induction s arbitrary: acc)
  case Nil
  show ?case by (simp add: jsonString.simps [of "34 # rest"])
next
  case (Cons c s)
  then have c: "32 \<le> c" "c \<noteq> 34" "c \<noteq> 92" and s: "wfStr s"
    by (simp_all add: wfStr_def)
  from c Cons.IH [OF s, of "acc @ [c]"] show ?case
    by (simp add: jsonString.simps [of "c # s @ 34 # rest"])
qed

lemma follow_take1:
  assumes "follow rest"
  shows "take 1 rest \<noteq> js ''.''" "take 1 rest \<noteq> js ''e''" "take 1 rest \<noteq> js ''E''"
  using assms by (cases rest; auto simp: follow_def js_def isJsonWs_def)+

lemma follow_not_digit: "follow rest \<Longrightarrow> rest = [] \<or> \<not> isDigit (hd rest)"
  by (cases rest) (auto simp: follow_def isJsonWs_def isDigit_def)

lemma jsonDigits_run:
  assumes "list_all isDigit ds" and "ds \<noteq> []" and "r = [] \<or> \<not> isDigit (hd r)"
  shows "jsonDigits (ds @ r) = Some (ds, r)"
  using takeWhile_digits [OF assms(1,3)] assms(2) by (simp add: jsonDigits_def)

lemma expStage_follow: "follow rest \<Longrightarrow> expStage pre rest = Some (pre, rest)"
  using follow_take1 [of rest] by (simp add: expStage_def)

lemma fracStage_lit:
  assumes "case fr of None \<Rightarrow> True | Some fs \<Rightarrow> fs \<noteq> [] \<and> list_all isDigit fs"
    and "follow rest"
  shows "fracStage pre ((case fr of None \<Rightarrow> [] | Some fs \<Rightarrow> 46 # fs) @ rest) =
     Some (pre @ (case fr of None \<Rightarrow> [] | Some fs \<Rightarrow> 46 # fs), rest)"
proof (cases fr)
  case None
  with follow_take1(1) [OF assms(2)] expStage_follow [OF assms(2)] show ?thesis
    by (simp add: fracStage_def)
next
  case (Some fs)
  with assms(1) have "list_all isDigit fs" "fs \<noteq> []" by simp_all
  from jsonDigits_run [OF this follow_not_digit [OF assms(2)]] Some
    expStage_follow [OF assms(2)]
  show ?thesis
    by (simp add: fracStage_def js_def)
qed

lemma intStage_lit:
  assumes "wfNum ip fr" and "follow rest"
  shows "intStage sign (ip @ (case fr of None \<Rightarrow> [] | Some fs \<Rightarrow> 46 # fs) @ rest) =
     Some (sign @ ip @ (case fr of None \<Rightarrow> [] | Some fs \<Rightarrow> 46 # fs), rest)"
proof -
  let ?f = "case fr of None \<Rightarrow> [] | Some fs \<Rightarrow> 46 # fs"
  from assms(1) have ip: "ip \<noteq> []" "list_all isDigit ip" "hd ip = 48 \<longrightarrow> ip = [48]"
    and fr: "case fr of None \<Rightarrow> True | Some fs \<Rightarrow> fs \<noteq> [] \<and> list_all isDigit fs"
    by (simp_all add: wfNum_def)
  note fs = fracStage_lit [OF fr assms(2)]
  from ip(1) obtain d ip' where d: "ip = d # ip'" by (cases ip) auto
  show ?thesis
  proof (cases "d = 48")
    case True
    with ip(3) d have "ip = [48]" by simp
    with fs [of "sign @ [48]"] show ?thesis
      by (simp add: intStage_def js_def)
  next
    case False
    have nd: "?f @ rest = [] \<or> \<not> isDigit (hd (?f @ rest))"
      using follow_not_digit [OF assms(2)] by (cases fr) (auto simp: isDigit_def)
    from jsonDigits_run [OF ip(2,1) nd] False d fs [of "sign @ ip"] show ?thesis
      by (simp add: intStage_def js_def)
  qed
qed

lemma jsonNumber_lit:
  assumes "wfNum ip fr" and "follow rest"
  shows "jsonNumber (numLiteral neg ip fr @ rest) = Some (numLiteral neg ip fr, rest)"
proof -
  from assms(1) obtain d ip' where d: "ip = d # ip'" "isDigit d"
    by (cases ip) (auto simp: wfNum_def)
  then have "d \<noteq> 45" by (auto simp: isDigit_def)
  with d intStage_lit [OF assms, of "[45]"] intStage_lit [OF assms, of "[]"] show ?thesis
    by (cases neg) (simp_all add: jsonNumber_stages numLiteral_def js_def)
qed

subsection \<open>Values\<close>

text \<open>
  \<open>parsesV v\<close>: \<open>jsonValue\<close> reads the text of \<open>v\<close>, followed by what may follow a value, as
  the value that \<open>v\<close> denotes.
\<close>

definition parsesV :: "jval \<Rightarrow> bool" where
  "parsesV v \<longleftrightarrow>
     (\<forall>n rest. wfVal v \<longrightarrow> follow rest \<longrightarrow> fuelV v \<le> n \<longrightarrow>
        jsonValue n (rVal v @ rest) = Some (vVal v, rest))"

lemma parsesV_D:
  assumes "parsesV v" and "wfVal v" and "follow rest" and "fuelV v \<le> n"
  shows "jsonValue n (rVal v @ rest) = Some (vVal v, rest)"
  using assms unfolding parsesV_def by blast

lemma parsesV_intro:
  assumes "\<And>n rest. wfVal v \<Longrightarrow> follow rest \<Longrightarrow> fuelV v \<le> n \<Longrightarrow>
     jsonValue n (rVal v @ rest) = Some (vVal v, rest)"
  shows "parsesV v"
  using assms unfolding parsesV_def by blast

lemma skipWs_ws:
  assumes "wfWs w" and "r = c # r'" and "\<not> isJsonWs c"
  shows "skipWs (w @ r) = r"
  using skipWs_over [of w c r'] assms by (simp add: wfWs_def)

lemma rVal_first_ws:
  assumes "wfVal v"
  obtains c r where "rVal v = c # r" and "c \<noteq> 93" and "c \<noteq> 125" and "\<not> isJsonWs c"
  using rVal_first [OF assms] isJsonWs_isSpace by metis

lemma vElem_sel: "vElem e = vVal (eVal e)"
  by (cases e) simp

lemma vMember_sel: "vMember m = (mKey m, vVal (eVal (mElem m)))"
  by (cases m) (simp add: vElem_sel)

lemma elements_sim:
  "\<forall>e \<in> set es. parsesV (eVal e) \<Longrightarrow> parsesV v \<Longrightarrow> wfVal v \<Longrightarrow> wfWs w \<Longrightarrow>
   list_all wfElem es \<Longrightarrow> 1 + fuelV v + needsA (map fuelE es) \<le> n \<Longrightarrow>
   jsonElements n (rVal v @ tailA w es @ rest) acc =
     Some (JArray (acc @ vVal v # map vElem es), rest)"
proof (induction es arbitrary: v w acc n)
  case Nil
  from Nil.prems(6) obtain m where n: "n = Suc m" and fm: "fuelV v \<le> m"
    by (cases n) simp_all
  have fo: "follow (tailA w [] @ rest)"
    by (rule follow_tailA [OF Nil.prems(4)])
  have jv: "jsonValue m (rVal v @ (tailA w [] @ rest)) = Some (vVal v, tailA w [] @ rest)"
    by (rule parsesV_D [OF Nil.prems(2,3) fo fm])
  have sk: "skipWs (tailA w [] @ rest) = 93 # rest"
    using skipWs_ws [OF Nil.prems(4), of "93 # rest" 93 rest] by simp
  show ?case
    unfolding n using jv sk by (simp add: js_def)
next
  case (Cons e es)
  from Cons.prems(6) obtain m where n: "n = Suc m" and fm: "fuelV v \<le> m"
    and fr: "1 + fuelV (eVal e) + needsA (map fuelE es) \<le> m"
    by (cases n) (simp_all add: fuelE_sel [of e])
  let ?v = "eVal e"
  from Cons.prems(5) have "wfElem e" and wes: "list_all wfElem es"
    by simp_all
  then have we: "wfWs (eLead e)" "wfVal ?v" "wfWs (eTrail e)" "list_all wfElem es"
    by (simp_all add: wfElem_sel [of e])
  from Cons.prems(1) have pv: "parsesV ?v" and pvs: "\<forall>e \<in> set es. parsesV (eVal e)"
    by simp_all
  define tl where "tl = rVal ?v @ tailA (eTrail e) es @ rest"
  have ta: "tailA w (e # es) @ rest = w @ 44 # eLead e @ tl"
    by (simp add: tl_def)
  have fo: "follow (tailA w (e # es) @ rest)"
    by (rule follow_tailA [OF Cons.prems(4)])
  have jv: "jsonValue m (rVal v @ (tailA w (e # es) @ rest)) = Some (vVal v, w @ 44 # eLead e @ tl)"
    using parsesV_D [OF Cons.prems(2,3) fo fm] ta by simp
  have sk: "skipWs (w @ 44 # eLead e @ tl) = 44 # eLead e @ tl"
    using skipWs_ws [OF Cons.prems(4), of "44 # eLead e @ tl" 44 "eLead e @ tl"] by simp
  from rVal_first_ws [OF we(2)] obtain c r where
    r: "rVal ?v = c # r" and c: "\<not> isJsonWs c" by blast
  have sk2: "skipWs (eLead e @ tl) = tl"
    using skipWs_ws [OF we(1), of tl c "r @ tailA (eTrail e) es @ rest"] r c
    by (simp add: tl_def)
  have ih: "jsonElements m tl (acc @ [vVal v]) =
      Some (JArray ((acc @ [vVal v]) @ vVal ?v # map vElem es), rest)"
    unfolding tl_def by (rule Cons.IH [OF pvs pv we(2) we(3) we(4) fr])
  have "jsonElements (Suc m) (rVal v @ w @ 44 # eLead e @ tl) acc =
      Some (JArray ((acc @ [vVal v]) @ vVal ?v # map vElem es), rest)"
    using jv ta sk sk2 ih by (simp add: js_def)
  then show ?case
    unfolding n ta by (simp add: vElem_sel)
qed

lemma putAll_Cons: "putAll (kv # kvs) acc = putAll kvs (objPut (fst kv) (snd kv) acc)"
  by (simp add: putAll_def)

lemma putAll_Nil: "putAll [] acc = acc"
  by (simp add: putAll_def)

lemma members_sim:
  "\<forall>m \<in> set ms. parsesV (eVal (mElem m)) \<Longrightarrow> parsesV v \<Longrightarrow>
   wfStr k \<Longrightarrow> wfWs w2 \<Longrightarrow> wfWs w3 \<Longrightarrow> wfVal v \<Longrightarrow> wfWs w4 \<Longrightarrow> list_all wfMember ms \<Longrightarrow>
   1 + fuelV v + needsO (map fuelM ms) \<le> n \<Longrightarrow>
   jsonMembers n (34 # k @ 34 # w2 @ 58 # w3 @ rVal v @ w4 @ tailO ms @ rest) acc =
     Some (JObject (putAll (map vMember ms) (objPut k (vVal v) acc)), rest)"
proof (induction ms arbitrary: k w2 w3 v w4 acc n)
  case Nil
  from Nil.prems(9) obtain n' where n: "n = Suc n'" and fm: "fuelV v \<le> n'"
    by (cases n) simp_all
  define r2 where "r2 = w4 @ 125 # rest"
  define r1 where "r1 = w2 @ 58 # w3 @ rVal v @ r2"
  have js: "jsonString (k @ 34 # r1) [] = Some (k, r1)"
    using jsonString_plain [OF Nil.prems(3), of r1 "[]"] by simp
  have s1: "skipWs r1 = 58 # w3 @ rVal v @ r2"
    unfolding r1_def using skipWs_ws [OF Nil.prems(4), of "58 # w3 @ rVal v @ r2" 58] by simp
  from rVal_first_ws [OF Nil.prems(6)] obtain c r where
    r: "rVal v = c # r" and c: "\<not> isJsonWs c" by blast
  have s2: "skipWs (w3 @ rVal v @ r2) = rVal v @ r2"
    using skipWs_ws [OF Nil.prems(5), of "rVal v @ r2" c "r @ r2"] r c by simp
  have fo: "follow r2"
    unfolding r2_def by (intro follow_ws Nil.prems(7)) (simp add: follow_def)
  have jv: "jsonValue n' (rVal v @ r2) = Some (vVal v, r2)"
    by (rule parsesV_D [OF Nil.prems(2,6) fo fm])
  have s3: "skipWs r2 = 125 # rest"
    unfolding r2_def using skipWs_ws [OF Nil.prems(7), of "125 # rest" 125 rest] by simp
  have "jsonMembers (Suc n') (34 # k @ 34 # r1) acc = Some (JObject (objPut k (vVal v) acc), rest)"
    using js s1 s2 jv s3 by (simp add: js_def)
  then show ?case
    unfolding n by (simp add: r1_def r2_def putAll_Nil)
next
  case (Cons m ms)
  from Cons.prems(9) obtain n' where n: "n = Suc n'" and fm: "fuelV v \<le> n'"
    and fr: "1 + fuelV (eVal (mElem m)) + needsO (map fuelM ms) \<le> n'"
    by (cases n) (simp_all add: fuelM_sel [of m])
  let ?e = "mElem m"
  let ?v = "eVal ?e"
  from Cons.prems(8) have "wfMember m" and wms: "list_all wfMember ms"
    by simp_all
  then have we: "wfWs (mLead m)" "wfStr (mKey m)" "wfWs (mSep m)" "wfWs (eLead ?e)" "wfVal ?v"
    "wfWs (eTrail ?e)" "list_all wfMember ms"
    by (simp_all add: wfMember_sel [of m] wfElem_sel [of "mElem m"])
  from Cons.prems(1) have pv: "parsesV ?v" and pvs: "\<forall>m \<in> set ms. parsesV (eVal (mElem m))"
    by simp_all
  define nx where "nx = 34 # mKey m @ 34 # mSep m @ 58 # eLead ?e @ rVal ?v @ eTrail ?e @ tailO ms @ rest"
  define r2 where "r2 = w4 @ 44 # mLead m @ nx"
  define r1 where "r1 = w2 @ 58 # w3 @ rVal v @ r2"
  have tx: "34 # k @ 34 # w2 @ 58 # w3 @ rVal v @ w4 @ tailO (m # ms) @ rest = 34 # k @ 34 # r1"
    by (simp add: r1_def r2_def nx_def mElem_sel rElem_sel)
  have js: "jsonString (k @ 34 # r1) [] = Some (k, r1)"
    using jsonString_plain [OF Cons.prems(3), of r1 "[]"] by simp
  have s1: "skipWs r1 = 58 # w3 @ rVal v @ r2"
    unfolding r1_def using skipWs_ws [OF Cons.prems(4), of "58 # w3 @ rVal v @ r2" 58] by simp
  from rVal_first_ws [OF Cons.prems(6)] obtain c r where
    r: "rVal v = c # r" and c: "\<not> isJsonWs c" by blast
  have s2: "skipWs (w3 @ rVal v @ r2) = rVal v @ r2"
    using skipWs_ws [OF Cons.prems(5), of "rVal v @ r2" c "r @ r2"] r c by simp
  have fo: "follow r2"
    unfolding r2_def by (intro follow_ws Cons.prems(7)) (simp add: follow_def)
  have jv: "jsonValue n' (rVal v @ r2) = Some (vVal v, r2)"
    by (rule parsesV_D [OF Cons.prems(2,6) fo fm])
  have s3: "skipWs r2 = 44 # mLead m @ nx"
    unfolding r2_def using skipWs_ws [OF Cons.prems(7), of "44 # mLead m @ nx" 44] by simp
  have s4: "skipWs (mLead m @ nx) = nx"
    using skipWs_ws [OF we(1), of nx 34] by (simp add: nx_def)
  have ih: "jsonMembers n' nx (objPut k (vVal v) acc) =
      Some (JObject (putAll (map vMember ms) (objPut (mKey m) (vVal ?v) (objPut k (vVal v) acc))), rest)"
    unfolding nx_def by (rule Cons.IH [OF pvs pv we(2,3,4,5,6,7) fr])
  have res: "jsonMembers (Suc n') (34 # k @ 34 # r1) acc =
      Some (JObject (putAll (map vMember ms) (objPut (mKey m) (vVal ?v) (objPut k (vVal v) acc))), rest)"
    using js s1 s2 jv s3 s4 ih by (simp add: js_def)
  have "putAll (map vMember (m # ms)) (objPut k (vVal v) acc) =
      putAll (map vMember ms) (objPut (mKey m) (vVal ?v) (objPut k (vVal v) acc))"
    by (simp add: putAll_Cons vMember_sel [of m])
  with res show ?case
    unfolding n tx by (simp only:)
qed

lemma numLiteral_head:
  assumes "wfNum ip fr"
  obtains c r where "numLiteral neg ip fr = c # r" and "c = 45 \<or> isDigit c"
proof -
  from assms obtain d ip' where "ip = d # ip'" "isDigit d"
    by (cases ip) (auto simp: wfNum_def)
  then have "\<exists>c r. numLiteral neg ip fr = c # r \<and> (c = 45 \<or> isDigit c)"
    by (cases neg) (simp_all add: numLiteral_def)
  with that show ?thesis by blast
qed

lemma array_parses:
  assumes pvs: "\<forall>e \<in> set es. parsesV (eVal e)"
  shows "parsesV (VArr w es)"
proof (rule parsesV_intro)
  fix n rest
  assume wf: "wfVal (VArr w es)" and fo: "follow rest" and f: "fuelV (VArr w es) \<le> n"
  from f obtain m where n: "n = Suc m" and fm: "1 + needsA (map fuelE es) \<le> m"
    by (cases n) simp_all
  from wf have w: "wfWs w" "list_all wfElem es" by simp_all
  show "jsonValue n (rVal (VArr w es) @ rest) = Some (vVal (VArr w es), rest)"
  proof (cases es)
    case Nil
    have sk: "skipWs (w @ 93 # rest) = 93 # rest"
      using skipWs_ws [OF w(1), of "93 # rest" 93 rest] by simp
    show ?thesis
      unfolding n Nil using sk by (simp add: js_def)
  next
    case (Cons e es')
    let ?v = "eVal e"
    from w(2) Cons have "wfElem e" and wes: "list_all wfElem es'"
      by simp_all
    then have we: "wfWs (eLead e)" "wfVal ?v" "wfWs (eTrail e)"
      by (simp_all add: wfElem_sel [of e])
    from pvs Cons have pv: "parsesV ?v" and pvs': "\<forall>e \<in> set es'. parsesV (eVal e)"
      by simp_all
    define tl where "tl = rVal ?v @ tailA (eTrail e) es' @ rest"
    have tx: "rVal (VArr w es) @ rest = 91 # eLead e @ tl"
      unfolding Cons tl_def using commaSep_tailA [of e es'] by simp
    from rVal_first_ws [OF we(2)] obtain c r where
      r: "rVal ?v = c # r" and c: "c \<noteq> 93" "\<not> isJsonWs c" by blast
    have sk: "skipWs (eLead e @ tl) = tl"
      using skipWs_ws [OF we(1), of tl c "r @ tailA (eTrail e) es' @ rest"] r c
      by (simp add: tl_def)
    have nc: "take 1 tl \<noteq> js '']''"
      using r c by (simp add: tl_def js_def)
    from fm Cons have "1 + fuelV ?v + needsA (map fuelE es') \<le> m"
      by (simp add: fuelE_sel [of e])
    from elements_sim [OF pvs' pv we(2) we(3) wes this, of rest "[]"]
    have el: "jsonElements m tl [] = Some (JArray (vVal ?v # map vElem es'), rest)"
      by (simp add: tl_def)
    have "jsonValue (Suc m) (91 # eLead e @ tl) = Some (JArray (vVal ?v # map vElem es'), rest)"
      using sk nc el by simp
    then show ?thesis
      unfolding n tx by (simp add: Cons vElem_sel [of e])
  qed
qed

lemma object_parses:
  assumes pvs: "\<forall>m \<in> set ms. parsesV (eVal (mElem m))"
  shows "parsesV (VObj w ms)"
proof (rule parsesV_intro)
  fix n rest
  assume wf: "wfVal (VObj w ms)" and fo: "follow rest" and f: "fuelV (VObj w ms) \<le> n"
  from f obtain n' where n: "n = Suc n'" and fm: "1 + needsO (map fuelM ms) \<le> n'"
    by (cases n) simp_all
  from wf have w: "wfWs w" "list_all wfMember ms" by simp_all
  show "jsonValue n (rVal (VObj w ms) @ rest) = Some (vVal (VObj w ms), rest)"
  proof (cases ms)
    case Nil
    have sk: "skipWs (w @ 125 # rest) = 125 # rest"
      using skipWs_ws [OF w(1), of "125 # rest" 125 rest] by simp
    show ?thesis
      unfolding n Nil using sk by (simp add: js_def putAll_Nil)
  next
    case (Cons m ms')
    let ?e = "mElem m"
    let ?v = "eVal ?e"
    from w(2) Cons have "wfMember m" and wms: "list_all wfMember ms'"
      by simp_all
    then have we: "wfWs (mLead m)" "wfStr (mKey m)" "wfWs (mSep m)" "wfWs (eLead ?e)" "wfVal ?v"
      "wfWs (eTrail ?e)"
      by (simp_all add: wfMember_sel [of m] wfElem_sel [of "mElem m"])
    from pvs Cons have pv: "parsesV ?v" and pvs': "\<forall>m \<in> set ms'. parsesV (eVal (mElem m))"
      by simp_all
    define tl where
      "tl = 34 # mKey m @ 34 # mSep m @ 58 # eLead ?e @ rVal ?v @ eTrail ?e @ tailO ms' @ rest"
    have tx: "rVal (VObj w ms) @ rest = 123 # mLead m @ tl"
      unfolding Cons tl_def using commaSep_tailO [of m ms']
      by (simp add: mElem_sel [of m] rElem_sel [of "mElem m"])
    have sk: "skipWs (mLead m @ tl) = tl"
      using skipWs_ws [OF we(1), of tl 34] by (simp add: tl_def)
    have nc: "take 1 tl \<noteq> js ''}''"
      by (simp add: tl_def js_def)
    from fm Cons have "1 + fuelV ?v + needsO (map fuelM ms') \<le> n'"
      by (simp add: fuelM_sel [of m])
    from members_sim [OF pvs' pv we(2,3,4,5,6) wms this, of rest "[]"]
    have el: "jsonMembers n' tl [] =
        Some (JObject (putAll (map vMember ms') (objPut (mKey m) (vVal ?v) [])), rest)"
      by (simp add: tl_def)
    have res: "jsonValue (Suc n') (123 # mLead m @ tl) =
        Some (JObject (putAll (map vMember ms') (objPut (mKey m) (vVal ?v) [])), rest)"
      using sk nc el by simp
    have "vVal (VObj w ms) = JObject (putAll (map vMember ms') (objPut (mKey m) (vVal ?v) []))"
      by (simp add: Cons putAll_Cons vMember_sel [of m])
    with res show ?thesis
      unfolding n tx by (simp only:)
  qed
qed

lemma parsesV_all:
  "parsesV v" and "parsesV (eVal e)" and "parsesV (eVal (mElem m))"
proof (induction v and e and m)
  case VNull
  show ?case
  proof (rule parsesV_intro)
    fix n rest
    assume f: "fuelV VNull \<le> n"
    from f obtain m where n: "n = Suc m" by (cases n) simp_all
    show "jsonValue n (rVal VNull @ rest) = Some (vVal VNull, rest)"
      unfolding n by (simp add: js_def isDigit_def)
  qed
next
  case (VBool b)
  show ?case
  proof (rule parsesV_intro)
    fix n rest
    assume f: "fuelV (VBool b) \<le> n"
    from f obtain m where n: "n = Suc m" by (cases n) simp_all
    show "jsonValue n (rVal (VBool b) @ rest) = Some (vVal (VBool b), rest)"
      unfolding n by (cases b) (simp_all add: js_def isDigit_def)
  qed
next
  case (VNum neg ip fr)
  show ?case
  proof (rule parsesV_intro)
    fix n rest
    assume w: "wfVal (VNum neg ip fr)" and fo: "follow rest" and f: "fuelV (VNum neg ip fr) \<le> n"
    from f obtain m where n: "n = Suc m" by (cases n) simp_all
    from w have wn: "wfNum ip fr" by simp
    from numLiteral_head [OF wn, of neg] obtain c r where
      h: "numLiteral neg ip fr = c # r" and c: "c = 45 \<or> isDigit c" by blast
    from jsonNumber_lit [OF wn fo, of neg] h
    have jn: "jsonNumber (c # r @ rest) = Some (numLiteral neg ip fr, rest)" by simp
    from c have "c \<noteq> 123" "c \<noteq> 91" "c \<noteq> 34"
      by (auto simp: isDigit_def)
    with c jn have "jsonValue (Suc m) (c # r @ rest) = Some (JNumber (numLiteral neg ip fr), rest)"
      by simp
    then show "jsonValue n (rVal (VNum neg ip fr) @ rest) = Some (vVal (VNum neg ip fr), rest)"
      unfolding n by (simp add: h)
  qed
next
  case (VStr s)
  show ?case
  proof (rule parsesV_intro)
    fix n rest
    assume w: "wfVal (VStr s)" and f: "fuelV (VStr s) \<le> n"
    from f obtain m where n: "n = Suc m" by (cases n) simp_all
    from w have "wfStr s" by simp
    from jsonString_plain [OF this, of rest "[]"]
    show "jsonValue n (rVal (VStr s) @ rest) = Some (vVal (VStr s), rest)"
      unfolding n by simp
  qed
next
  case (VArr w es)
  then have "\<forall>e \<in> set es. parsesV (eVal e)" by blast
  then show ?case by (rule array_parses)
next
  case (VObj w ms)
  then have "\<forall>m \<in> set ms. parsesV (eVal (mElem m))" by blast
  then show ?case by (rule object_parses)
next
  case (Elem w1 v w2)
  then show ?case by simp
next
  case (Member w1 k w2 e)
  then show ?case by simp
qed

subsection \<open>The layout of the reconstructor denotes the same value\<close>

lemma vVal_nVal:
  "vVal (nVal v) = vVal v" and "vElem (nElem e) = vElem e" and "vMember (nMember m) = vMember m"
proof (induction v and e and m)
  case (VArr w es)
  have eq: "map vElem (map nElem es) = map vElem es"
    unfolding map_map comp_def by (rule map_cong) (simp_all add: VArr)
  show ?case by (simp only: nVal.simps vVal.simps eq)
next
  case (VObj w ms)
  have eq: "map vMember (map nMember ms) = map vMember ms"
    unfolding map_map comp_def by (rule map_cong) (simp_all add: VObj)
  show ?case by (simp only: nVal.simps vVal.simps eq)
next
  case (Member w1 k w2 e)
  then show ?case by (cases "nElem e") simp
qed simp_all

lemma wfVal_nVal:
  "wfVal v \<Longrightarrow> wfVal (nVal v)" and "wfElem e \<Longrightarrow> wfElem (nElem e)"
  and "wfMember m \<Longrightarrow> wfMember (nMember m)"
proof (induction v and e and m)
  case (VArr w es)
  then show ?case by (simp add: list_all_iff wfWs_def)
next
  case (VObj w ms)
  then show ?case by (simp add: list_all_iff wfWs_def)
next
  case (Elem w1 v w2)
  then show ?case by (simp add: wfWs_def)
next
  case (Member w1 k w2 e)
  then show ?case by (cases "nElem e") (simp add: wfWs_def isJsonWs_def)
qed simp_all

subsection \<open>The bound of \<open>JSON_parse\<close> is enough\<close>

lemma needsA_bound:
  "\<forall>e \<in> set (e # es). fuelE e \<le> 2 * length (rElem e) \<Longrightarrow>
   needsA (map fuelE (e # es)) \<le> 2 * length (commaSep (map rElem (e # es))) + 2"
proof (induction es arbitrary: e)
  case Nil
  then show ?case by simp
next
  case (Cons a es)
  from Cons.prems have e: "fuelE e \<le> 2 * length (rElem e)"
    and r: "\<forall>e \<in> set (a # es). fuelE e \<le> 2 * length (rElem e)"
    by simp_all
  from Cons.IH [OF r] e show ?case by simp
qed

lemma needsO_bound:
  "\<forall>m \<in> set (m # ms). fuelM m + 1 \<le> 2 * length (rMember m) \<Longrightarrow>
   needsO (map fuelM (m # ms)) \<le> 2 * length (commaSep (map rMember (m # ms))) + 2"
proof (induction ms arbitrary: m)
  case Nil
  then show ?case by simp
next
  case (Cons a ms)
  from Cons.prems have e: "fuelM m + 1 \<le> 2 * length (rMember m)"
    and r: "\<forall>m \<in> set (a # ms). fuelM m + 1 \<le> 2 * length (rMember m)"
    by simp_all
  from Cons.IH [OF r] e show ?case by simp
qed

lemma fuelV_bound:
  "wfVal v \<Longrightarrow> fuelV v \<le> 2 * length (rVal v)"
  and "wfElem e \<Longrightarrow> fuelE e \<le> 2 * length (rElem e)"
  and "wfMember m \<Longrightarrow> fuelM m + 1 \<le> 2 * length (rMember m)"
proof (induction v and e and m)
  case VNull
  show ?case by (simp add: js_def)
next
  case (VBool b)
  show ?case by (simp add: js_def)
next
  case (VNum neg ip fr)
  then have "ip \<noteq> []" by (simp add: wfNum_def)
  then have "1 \<le> length (numLiteral neg ip fr)"
    by (cases ip) (simp_all add: numLiteral_def)
  then show ?case by simp
next
  case (VStr s)
  show ?case by simp
next
  case (VArr w es)
  show ?case
  proof (cases es)
    case Nil
    then show ?thesis by simp
  next
    case (Cons e es')
    from VArr Cons have "\<forall>x \<in> set (e # es'). fuelE x \<le> 2 * length (rElem x)"
      by (simp add: list_all_iff)
    from needsA_bound [OF this] Cons show ?thesis by simp
  qed
next
  case (VObj w ms)
  show ?case
  proof (cases ms)
    case Nil
    then show ?thesis by simp
  next
    case (Cons m ms')
    from VObj Cons have "\<forall>x \<in> set (m # ms'). fuelM x + 1 \<le> 2 * length (rMember x)"
      by (simp add: list_all_iff)
    from needsO_bound [OF this] Cons show ?thesis by simp
  qed
next
  case (Elem w1 v w2)
  then show ?case by simp
next
  case (Member w1 k w2 e)
  then show ?case by simp
qed

lemma follow_wfWs: "wfWs w \<Longrightarrow> follow w"
  by (cases w) (simp_all add: follow_def wfWs_def)

lemma skipWs_all: "wfWs w \<Longrightarrow> skipWs w = []"
  by (simp add: skipWs_def wfWs_def list_all_iff)

text \<open>
  \<^verbatim>\<open>JSON.parse\<close> accepts every valid text, between whitespace, and returns the value the
  text denotes.
\<close>

lemma JSON_parse_valid:
  assumes "wfVal t" and "wfWs w1" and "wfWs w2"
  shows "JSON_parse (w1 @ rVal t @ w2) = Some (vVal t)"
proof -
  from rVal_first_ws [OF assms(1)] obtain c r where
    r: "rVal t = c # r" and c: "\<not> isJsonWs c" by blast
  have sk: "skipWs (w1 @ rVal t @ w2) = rVal t @ w2"
    using skipWs_ws [OF assms(2), of "rVal t @ w2" c "r @ w2"] r c by simp
  have "fuelV t \<le> 2 * length (w1 @ rVal t @ w2) + 2"
    using fuelV_bound(1) [OF assms(1)] by simp
  from parsesV_D [OF parsesV_all(1) assms(1) follow_wfWs [OF assms(3)] this]
  have "jsonValue (2 * length (w1 @ rVal t @ w2) + 2) (rVal t @ w2) = Some (vVal t, w2)" .
  with sk skipWs_all [OF assms(3)] show ?thesis
    unfolding JSON_parse_def by simp
qed

subsection \<open>\<open>reconstructJSON\<close> and the orchestrator on a valid text\<close>

lemma reconstructJSON_valid:
  assumes wf: "wfVal t" and co: "isContainer t" and w: "wfWs w1" "wfWs w2"
    and f: "fuelV t \<le> n"
  shows "reconstructJSON n (w1 @ rVal t @ w2) =
     Some \<lparr>rc_success = True, rc_json = Some (rVal (nVal t)), rc_repairs = [],
           rc_warnings = [], rc_score = 0\<rparr>"
proof -
  define inp where "inp = w1 @ rVal t @ w2"
  define st0 where "st0 = \<lparr>rpos = length w1, rrepairs = [], rscore = 0\<rparr>"
  from rVal_first [OF wf] obtain c r where
    r: "rVal t = c # r" and c: "\<not> isSpace c" by blast
  have "drop 0 inp = w1 @ (rVal t @ w2)" by (simp add: inp_def)
  from skipWhitespace_over [OF this w(1)] r c
  have s0: "skipWhitespace inp 0 = length w1" by simp
  have d: "drop (rpos st0) inp = rVal t @ w2"
    by (simp add: st0_def inp_def)
  have j: "JSON_parse (rVal (nVal t)) = Some (vVal t)"
    using JSON_parse_valid [OF wfVal_nVal(1) [OF wf], of "[]" "[]"]
    by (simp add: wfWs_def vVal_nVal(1))
  have ne: "rVal (nVal t) \<noteq> []"
    using rVal_head [OF wfVal_nVal(1) [OF wf]] by simp
  have "(case nextTokenCandidates inp (rpos st0) of
           [] \<Rightarrow> Some (None, st0)
         | c # _ \<Rightarrow>
             if ttype c = BRACKET_OPEN then parseArray n inp st0 else parseObject n inp st0) =
        Some (Some (rVal (nVal t)), st0\<lparr>rpos := rpos st0 + length (rVal t)\<rparr>)"
  proof (cases t)
    case (VArr ws es)
    from f VArr obtain m where n: "n = Suc m" and fm: "needsA (map fuelE es) \<le> m"
      by (cases n) simp_all
    from wf VArr have wa: "wfWs ws" "list_all wfElem es" by simp_all
    from d VArr
    have d0: "drop (rpos st0) inp =
        91 # ((if es = [] then ws else commaSep (map rElem es)) @ [93] @ w2)"
      by simp
    have pm: "punctMap 91 = Some BRACKET_OPEN" by (simp add: punctMap_def)
    have tk: "nextTokenCandidates inp (rpos st0) = [mkTok BRACKET_OPEN [91] (rpos st0 + 1) 0 None]"
      by (rule lex_punct [OF d0 pm]) simp
    have cs: "consume inp (rpos st0) BRACKET_OPEN = (True, rpos st0 + 1)"
      by (rule at_punct(3) [OF d0 pm]) simp
    have svs: "\<forall>e \<in> set es. simV inp (eVal e)"
      using simV_all by blast
    from d VArr have d': "drop (rpos st0) inp = rVal (VArr ws es) @ w2" by simp
    note a = array_sim [OF svs wa d' fm]
    show ?thesis
      unfolding n VArr using tk cs a by (simp add: mkTok_def)
  next
    case (VObj ws ms)
    from f VObj obtain m where n: "n = Suc m" and fm: "needsO (map fuelM ms) \<le> m"
      by (cases n) simp_all
    from wf VObj have wa: "wfWs ws" "list_all wfMember ms" by simp_all
    from d VObj
    have d0: "drop (rpos st0) inp =
        123 # ((if ms = [] then ws else commaSep (map rMember ms)) @ [125] @ w2)"
      by simp
    have pm: "punctMap 123 = Some BRACE_OPEN" by (simp add: punctMap_def)
    have tk: "nextTokenCandidates inp (rpos st0) = [mkTok BRACE_OPEN [123] (rpos st0 + 1) 0 None]"
      by (rule lex_punct [OF d0 pm]) simp
    have sk: "skipWhitespace inp (rpos st0) = rpos st0"
      by (rule skipWhitespace_stop [OF d0]) (simp add: isSpace_def)
    have cs: "consume inp (rpos st0) BRACE_OPEN = (True, rpos st0 + 1)"
      by (rule at_punct(3) [OF d0 pm]) simp
    have svs: "\<forall>m \<in> set ms. simV inp (eVal (mElem m))"
      using simV_all by blast
    from d VObj have d': "drop (rpos st0) inp = rVal (VObj ws ms) @ w2" by simp
    note a = object_sim [OF svs wa d' fm]
    show ?thesis
      unfolding n VObj using tk sk cs a by (simp add: mkTok_def)
  qed (use co in \<open>simp_all add: isContainer_def\<close>)
  then show ?thesis
    unfolding reconstructJSON_def inp_def [symmetric] s0 st0_def [symmetric]
    using j ne by (simp add: st0_def zero_enat_def)
qed

text \<open>
  C1.  A valid JSON text whose value is an object or an array, between whitespace, in
  which no number has an exponent part and no string an escape sequence: the orchestrator
  returns with \<open>success = True\<close>, mode json-ish, score 0 and no repair, and its object is
  the value that \<^verbatim>\<open>JSON.parse\<close> returns for the text.  The bound \<open>n\<close> on the nested calls
  of the reconstructor is any number from \<open>fuelV t\<close> on.
\<close>

theorem C1_valid_text_idempotent:
  assumes "wfVal t" and "isContainer t" and "wfWs w1" and "wfWs w2" and "fuelV t \<le> n"
  shows "repairObjectCandidate numText n (w1 @ rVal t @ w2) =
           Some \<lparr>success = True, object = Some (vVal t), repairedText = Some (rVal (nVal t)),
                 warnings = [], repairs = [], score = 0, mode = JsonIsh\<rparr>
       \<and> JSON_parse (w1 @ rVal t @ w2) = Some (vVal t)"
proof
  have j: "JSON_parse (rVal (nVal t)) = Some (vVal t)"
    using JSON_parse_valid [OF wfVal_nVal(1) [OF assms(1)], of "[]" "[]"]
    by (simp add: wfWs_def vVal_nVal(1))
  have ne: "rVal (nVal t) \<noteq> []"
    using rVal_head [OF wfVal_nVal(1) [OF assms(1)]] by simp
  from reconstructJSON_valid [OF assms] j ne
  show "repairObjectCandidate numText n (w1 @ rVal t @ w2) =
           Some \<lparr>success = True, object = Some (vVal t), repairedText = Some (rVal (nVal t)),
                 warnings = [], repairs = [], score = 0, mode = JsonIsh\<rparr>"
    by (simp add: repairObjectCandidate_def attempt_def)
  show "JSON_parse (w1 @ rVal t @ w2) = Some (vVal t)"
    by (rule JSON_parse_valid [OF assms(1,3,4)])
qed

text \<open>
  The text \<^verbatim>\<open>{"a": [1, "x"]}\<close> is the text of such a tree; the reconstructor writes it
  as \<^verbatim>\<open>{"a": [1,"x"]}\<close>.
\<close>

theorem C1_valid_text_idempotent_witness:
  "repairObjectCandidate (\<lambda>s. s) 12 (js ''{\"a\": [1, \"x\"]}'') =
     Some \<lparr>success = True,
           object = Some (JObject [(js ''a'', JArray [JNumber (js ''1''), JString (js ''x'')])]),
           repairedText = Some (js ''{\"a\": [1,\"x\"]}''),
           warnings = [], repairs = [], score = 0, mode = JsonIsh\<rparr>
   \<and> JSON_parse (js ''{\"a\": [1, \"x\"]}'') =
     Some (JObject [(js ''a'', JArray [JNumber (js ''1''), JString (js ''x'')])])"
proof -
  let ?t = "VObj [] [Member [] (js ''a'') []
      (Elem [32] (VArr [] [Elem [] (VNum False (js ''1'') None) [],
                            Elem [32] (VStr (js ''x'')) []]) [])]"
  have h: "wfVal ?t" "isContainer ?t" "wfWs []" "wfWs []" "fuelV ?t \<le> 12"
    by code_simp+
  have r: "[] @ rVal ?t @ [] = js ''{\"a\": [1, \"x\"]}''"
    by code_simp
  have v: "vVal ?t = JObject [(js ''a'', JArray [JNumber (js ''1''), JString (js ''x'')])]"
    by code_simp
  have n: "rVal (nVal ?t) = js ''{\"a\": [1,\"x\"]}''"
    by code_simp
  from C1_valid_text_idempotent [OF h, of "\<lambda>s. s"] show ?thesis
    unfolding r v n .
qed

text \<open>
  The number tokens of the soft lexer have a sign, digits and a fraction, and no exponent
  part.  On the valid text \<^verbatim>\<open>{"a":1e5}\<close> the number token is \<^verbatim>\<open>1\<close> and \<^verbatim>\<open>e5\<close> is read as
  a bare key: the orchestrator succeeds with three repairs, score 6, and an object that is
  not the value of the text.
\<close>

theorem C1_exponent_number:
  "JSON_parse (js ''{\"a\":1e5}'') = Some (JObject [(js ''a'', JNumber (js ''1e5''))])
   \<and> repairObjectCandidate (\<lambda>s. s) 10 (js ''{\"a\":1e5}'') =
     Some \<lparr>success = True,
           object = Some (JObject [(js ''a'', JNumber (js ''1'')), (js ''e5'', JNull)]),
           repairedText = Some (js ''{\"a\": 1,\"e5\": null}''),
           warnings = [],
           repairs = [''added missing comma'', ''quoted bare key'',
                      ''added missing colon and null value''],
           score = 6, mode = JsonIsh\<rparr>"
  by code_simp

end
